(* ===== verification/Prelude.thy ===== *)
theory Prelude
  imports Main "HOL-Library.Word"
begin

unbundle bit_operations_syntax

text \<open>
  The shared base of the development: the machine types of \<^verbatim>\<open>kernel/types.h\<close>, the outcome
  type that every kernel operation returns, the sequencing combinators used to compose
  operations the way the C code composes statements, and the rules for reasoning about them.
\<close>

section \<open>Machine types\<close>

text \<open>
  \<^verbatim>\<open>uchar\<close> is a byte, \<^verbatim>\<open>uint64\<close> a 64-bit word. A \<^verbatim>\<open>uint\<close> that is only stored, compared and
  used as an index is a \<^typ>\<open>nat\<close>; where its arithmetic can wrap around it is a \<open>32 word\<close> or
  the reduction modulo \<open>2 ^ 32\<close> is written out. A C array of fixed size is a function on
  \<^typ>\<open>nat\<close>, of which the code uses the indices below the declared size only.
\<close>

type_synonym byte = "8 word"
type_synonym uint32 = "32 word"
type_synonym uint64 = "64 word"

text \<open>The contents of one disk block or of one \<^verbatim>\<open>struct buf\<close>'s \<^verbatim>\<open>data\<close> array.\<close>

type_synonym block = "nat \<Rightarrow> byte"

named_theorems kdefs \<open>combinators of the kernel monad\<close>
named_theorems kconsts \<open>numeric constants of the headers\<close>

section \<open>Outcomes of kernel code\<close>

text \<open>
  Kernel code either returns a value and the new state, calls \<^verbatim>\<open>panic\<close> with a message, goes to
  sleep on a channel (the current process is descheduled and the call does not return before
  another process acts), or runs in a loop that never ends.
\<close>

datatype ('a, 's) outcome =
    Ret 'a 's
  | Panic string
  | Sleep string
  | Loop

type_synonym ('s, 'a) kernel = "'s \<Rightarrow> ('a, 's) outcome"

definition kret :: "'a \<Rightarrow> ('s, 'a) kernel" where
  "kret a s = Ret a s"

definition kpanic :: "string \<Rightarrow> ('s, 'a) kernel" where
  "kpanic msg s = Panic msg"

definition kbind :: "('s, 'a) kernel \<Rightarrow> ('a \<Rightarrow> ('s, 'b) kernel) \<Rightarrow> ('s, 'b) kernel" where
  "kbind m f s =
     (case m s of Ret a t \<Rightarrow> f a t | Panic e \<Rightarrow> Panic e | Sleep c \<Rightarrow> Sleep c | Loop \<Rightarrow> Loop)"

definition kthen :: "('s, 'a) kernel \<Rightarrow> ('s, 'b) kernel \<Rightarrow> ('s, 'b) kernel" where
  "kthen m n = kbind m (\<lambda>_. n)"

definition kget :: "('s \<Rightarrow> 'a) \<Rightarrow> ('s, 'a) kernel" where
  "kget f s = Ret (f s) s"

definition kmod :: "('s \<Rightarrow> 's) \<Rightarrow> ('s, unit) kernel" where
  "kmod f s = Ret () (f s)"

definition kwhen :: "bool \<Rightarrow> ('s, unit) kernel \<Rightarrow> ('s, unit) kernel" where
  "kwhen b m = (if b then m else kret ())"

text \<open>The statement \<^verbatim>\<open>for (i = lo; n more times; i++) body\<close>, with no early exit.\<close>

primrec kfor :: "nat \<Rightarrow> nat \<Rightarrow> (nat \<Rightarrow> ('s, unit) kernel) \<Rightarrow> ('s, unit) kernel" where
  "kfor lo 0 body = kret ()"
| "kfor lo (Suc n) body = kthen (body lo) (kfor (Suc lo) n body)"

text \<open>
  A call made while a spinlock is held. If it goes to sleep, \<^verbatim>\<open>sched\<close> finds more than the process
  lock held (\<^verbatim>\<open>noff\<close> is not 1) and panics.
\<close>

definition spin_held :: "('s, 'a) kernel \<Rightarrow> ('s, 'a) kernel" where
  "spin_held m s = (case m s of Sleep ch \<Rightarrow> Panic ''sched locks'' | out \<Rightarrow> out)"

lemmas kernel_simps [kdefs] =
  kret_def kpanic_def kbind_def kthen_def kget_def kmod_def kwhen_def

lemma kbind_Ret [simp]: "m s = Ret a t \<Longrightarrow> kbind m f s = f a t"
  by (simp add: kbind_def)

lemma kthen_Ret [simp]: "m s = Ret a t \<Longrightarrow> kthen m n s = n t"
  by (simp add: kthen_def)

lemma kbind_Panic [simp]: "m s = Panic e \<Longrightarrow> kbind m f s = Panic e"
  by (simp add: kbind_def)

lemma kthen_Panic [simp]: "m s = Panic e \<Longrightarrow> kthen m n s = Panic e"
  by (simp add: kthen_def)

lemma kret_app [simp]: "kret a s = Ret a s"
  by (simp add: kret_def)

lemma kpanic_app [simp]: "kpanic e s = Panic e"
  by (simp add: kpanic_def)

lemma kget_app [simp]: "kget f s = Ret (f s) s"
  by (simp add: kget_def)

lemma kmod_app [simp]: "kmod f s = Ret () (f s)"
  by (simp add: kmod_def)

lemma spin_held_Ret [simp]: "m s = Ret a t \<Longrightarrow> spin_held m s = Ret a t"
  by (simp add: spin_held_def)

lemma kwhen_simps [simp]: "kwhen True m = m" "kwhen False m = kret ()"
  by (simp_all add: kwhen_def)

lemma kbind_RetE:
  assumes "kbind m f s = Ret b u"
  obtains a t where "m s = Ret a t" and "f a t = Ret b u"
  using assms by (auto simp: kbind_def split: outcome.splits)

lemma kthen_RetE:
  assumes "kthen m n s = Ret b u"
  obtains a t where "m s = Ret a t" and "n t = Ret b u"
  using assms by (auto simp: kthen_def elim: kbind_RetE)

section \<open>Total correctness of an operation\<close>

text \<open>
  \<open>returns P m Q\<close>: from every state that satisfies \<open>P\<close> the operation returns, without panic,
  sleep or divergence, and its result and final state satisfy \<open>Q\<close>.
\<close>

definition returns :: "('s \<Rightarrow> bool) \<Rightarrow> ('s, 'a) kernel \<Rightarrow> ('a \<Rightarrow> 's \<Rightarrow> bool) \<Rightarrow> bool" where
  "returns P m Q \<longleftrightarrow> (\<forall>s. P s \<longrightarrow> (\<exists>a t. m s = Ret a t \<and> Q a t))"

lemma returnsI: "(\<And>s. P s \<Longrightarrow> \<exists>a t. m s = Ret a t \<and> Q a t) \<Longrightarrow> returns P m Q"
  by (simp add: returns_def)

lemma returnsE:
  assumes "returns P m Q" and "P s"
  obtains a t where "m s = Ret a t" and "Q a t"
  using assms by (auto simp: returns_def)

lemma returns_bind:
  "returns P m Q \<Longrightarrow> (\<And>a. returns (Q a) (f a) R) \<Longrightarrow> returns P (kbind m f) R"
  by (fastforce simp: returns_def)

lemma returns_then:
  "returns P m (\<lambda>_. Q) \<Longrightarrow> returns Q n R \<Longrightarrow> returns P (kthen m n) R"
  by (fastforce simp: returns_def)

lemma returns_kfor:
  assumes "\<And>i. lo \<le> i \<Longrightarrow> i < lo + n \<Longrightarrow> returns (I i) (body i) (\<lambda>_. I (Suc i))"
  shows "returns (I lo) (kfor lo n body) (\<lambda>_. I (lo + n))"
  using assms
proof (induction n arbitrary: lo)
  case 0
  then show ?case by (simp add: returns_def)
next
  case (Suc n)
  have "returns (I lo) (body lo) (\<lambda>_. I (Suc lo))"
    by (rule Suc.prems) auto
  moreover have "returns (I (Suc lo)) (kfor (Suc lo) n body) (\<lambda>_. I (Suc lo + n))"
    by (rule Suc.IH) (auto intro: Suc.prems)
  ultimately show ?case
    by (simp add: returns_then)
qed

section \<open>Little-endian integers in byte arrays\<close>

text \<open>
  The on-disk structures are read and written through casts of \<^verbatim>\<open>char\<close> arrays on a
  little-endian machine: a 16-bit or 32-bit field at offset \<open>off\<close> occupies two or four bytes,
  the lowest first.
\<close>

definition rd16 :: "block \<Rightarrow> nat \<Rightarrow> nat" where
  "rd16 d off = unat (d off) + 256 * unat (d (off + 1))"

definition wr16 :: "nat \<Rightarrow> nat \<Rightarrow> block \<Rightarrow> block" where
  "wr16 off v d = d(off := word_of_nat v, off + 1 := word_of_nat (v div 256))"

definition rd32 :: "block \<Rightarrow> nat \<Rightarrow> nat" where
  "rd32 d off = rd16 d off + 65536 * rd16 d (off + 2)"

definition wr32 :: "nat \<Rightarrow> nat \<Rightarrow> block \<Rightarrow> block" where
  "wr32 off v d = wr16 (off + 2) (v div 65536) (wr16 off v d)"

lemma wr16_other [simp]: "k < off \<or> off + 2 \<le> k \<Longrightarrow> wr16 off v d k = d k"
  by (auto simp: wr16_def)

lemma wr32_other [simp]: "k < off \<or> off + 4 \<le> k \<Longrightarrow> wr32 off v d k = d k"
  by (auto simp: wr32_def)

lemma rd16_less: "rd16 d off < 65536"
proof -
  have "unat (d off) < 256" "unat (d (off + 1)) < 256"
    using unsigned_less [of "d off"] unsigned_less [of "d (off + 1)"] by simp_all
  then show ?thesis by (simp add: rd16_def)
qed

lemma rd32_less: "rd32 d off < 4294967296"
  using rd16_less [of d off] rd16_less [of d "off + 2"] by (simp add: rd32_def)

lemma rd16_wr16 [simp]: "rd16 (wr16 off v d) off = v mod 65536"
proof -
  have "v mod 256 + 256 * (v div 256 mod 256) = v mod 65536"
    using mod_mult2_eq [of v 256 256] by simp
  then show ?thesis
    by (simp add: rd16_def wr16_def unat_word_ariths unsigned_of_nat take_bit_eq_mod)
qed

lemma rd16_wr16_other [simp]:
  "off' + 2 \<le> off \<or> off + 2 \<le> off' \<Longrightarrow> rd16 (wr16 off v d) off' = rd16 d off'"
  by (auto simp: rd16_def)

lemma rd32_wr32 [simp]: "rd32 (wr32 off v d) off = v mod 4294967296"
  using mod_mult2_eq [of v 65536 65536] by (simp add: rd32_def wr32_def)

lemma rd32_wr32_other [simp]:
  "off' + 4 \<le> off \<or> off + 4 \<le> off' \<Longrightarrow> rd32 (wr32 off v d) off' = rd32 d off'"
  by (auto simp: rd32_def wr32_def)

lemma rd16_cong: "d off = e off \<Longrightarrow> d (off + 1) = e (off + 1) \<Longrightarrow> rd16 d off = rd16 e off"
  by (simp add: rd16_def)

lemma rd32_cong: "(\<And>k. off \<le> k \<Longrightarrow> k < off + 4 \<Longrightarrow> d k = e k) \<Longrightarrow> rd32 d off = rd32 e off"
  by (simp add: rd32_def rd16_def)

text \<open>A 64-bit field.\<close>

definition rd64 :: "block \<Rightarrow> nat \<Rightarrow> nat" where
  "rd64 d off = rd32 d off + 4294967296 * rd32 d (off + 4)"

definition wr64 :: "nat \<Rightarrow> nat \<Rightarrow> block \<Rightarrow> block" where
  "wr64 off v d = wr32 (off + 4) (v div 4294967296) (wr32 off v d)"

lemma wr64_other [simp]: "k < off \<or> off + 8 \<le> k \<Longrightarrow> wr64 off v d k = d k"
  by (auto simp: wr64_def)

lemma rd64_wr64 [simp]: "rd64 (wr64 off v d) off = v mod 18446744073709551616"
  using mod_mult2_eq [of v 4294967296 4294967296] by (simp add: rd64_def wr64_def)

lemma rd64_cong: "(\<And>k. off \<le> k \<Longrightarrow> k < off + 8 \<Longrightarrow> d k = e k) \<Longrightarrow> rd64 d off = rd64 e off"
  using rd32_cong [of off d e] rd32_cong [of "off + 4" d e] by (simp add: rd64_def)

lemma rd64_wr64_other [simp]:
  "off' + 8 \<le> off \<or> off + 8 \<le> off' \<Longrightarrow> rd64 (wr64 off v d) off' = rd64 d off'"
  by (rule rd64_cong) auto

text \<open>Bytes copied into and out of a block.\<close>

definition put_bytes :: "nat \<Rightarrow> byte list \<Rightarrow> block \<Rightarrow> block" where
  "put_bytes off bs d = (\<lambda>i. if off \<le> i \<and> i < off + length bs then bs ! (i - off) else d i)"

definition get_bytes :: "block \<Rightarrow> nat \<Rightarrow> nat \<Rightarrow> byte list" where
  "get_bytes d off n = map (\<lambda>i. d (off + i)) [0..<n]"

lemma length_get_bytes [simp]: "length (get_bytes d off n) = n"
  by (simp add: get_bytes_def)

lemma nth_get_bytes [simp]: "i < n \<Longrightarrow> get_bytes d off n ! i = d (off + i)"
  by (simp add: get_bytes_def)

lemma get_put_bytes [simp]: "get_bytes (put_bytes off bs d) off (length bs) = bs"
  by (rule nth_equalityI) (simp_all add: put_bytes_def)

lemma get_bytes_put_other: "off + length bs \<le> o' \<or> o' + n \<le> off \<Longrightarrow> get_bytes (put_bytes off bs d) o' n = get_bytes d o' n"
  by (rule nth_equalityI) (auto simp: put_bytes_def)

text \<open>
  A \<^verbatim>\<open>uint\<close> array laid over a block: element \<open>i\<close> of the array that starts at offset \<open>base\<close>.
\<close>

primrec wr_uints :: "nat \<Rightarrow> nat list \<Rightarrow> block \<Rightarrow> block" where
  "wr_uints base [] d = d"
| "wr_uints base (v # vs) d = wr_uints (base + 4) vs (wr32 base v d)"

definition rd_uints :: "block \<Rightarrow> nat \<Rightarrow> nat \<Rightarrow> nat list" where
  "rd_uints d base n = map (\<lambda>i. rd32 d (base + 4 * i)) [0..<n]"

lemma wr_uints_other:
  "k < base \<or> base + 4 * length vs \<le> k \<Longrightarrow> wr_uints base vs d k = d k"
  by (induction vs arbitrary: base d) auto

lemma rd32_wr_uints_other:
  "off + 4 \<le> base \<or> base + 4 * length vs \<le> off \<Longrightarrow> rd32 (wr_uints base vs d) off = rd32 d off"
  by (rule rd32_cong) (auto intro!: wr_uints_other)

lemma rd32_wr_uints:
  "i < length vs \<Longrightarrow> rd32 (wr_uints base vs d) (base + 4 * i) = vs ! i mod 4294967296"
proof (induction vs arbitrary: base d i)
  case Nil
  then show ?case by simp
next
  case (Cons v vs)
  show ?case
  proof (cases i)
    case 0
    then show ?thesis by (simp add: rd32_wr_uints_other)
  next
    case (Suc j)
    with Cons.prems have "j < length vs" by simp
    from Cons.IH [OF this, of "base + 4"] Suc show ?thesis by (simp add: ac_simps)
  qed
qed

lemma rd_uints_wr_uints:
  assumes "\<And>v. v \<in> set vs \<Longrightarrow> v < 4294967296"
  shows "rd_uints (wr_uints base vs d) base (length vs) = vs"
  by (rule nth_equalityI) (auto simp: rd_uints_def rd32_wr_uints assms)

lemma length_rd_uints [simp]: "length (rd_uints d base n) = n"
  by (simp add: rd_uints_def)

lemma nth_rd_uints [simp]: "i < n \<Longrightarrow> rd_uints d base n ! i = rd32 d (base + 4 * i)"
  by (simp add: rd_uints_def)

lemma rd_uints_cong:
  "(\<And>k. base \<le> k \<Longrightarrow> k < base + 4 * n \<Longrightarrow> d k = e k) \<Longrightarrow> rd_uints d base n = rd_uints e base n"
  unfolding rd_uints_def by (rule map_cong) (auto intro!: rd32_cong)

end
