(* ===== verification/Ring.thy ===== *)
theory Ring
  imports Prelude
begin

text \<open>
  Bounded first-in first-out buffers. The locale is the interface the pipe, the console input
  and the serial output have in common; the lemmas after it are about the way they store the
  items: an array with free-running \<open>w\<close>-bit counters whose residues index it.
\<close>

locale bounded_fifo =
  fixes put :: "'a \<Rightarrow> 's \<Rightarrow> 's"
    and get :: "'s \<Rightarrow> 's"
    and front :: "'s \<Rightarrow> 'a"
    and is_full :: "'s \<Rightarrow> bool"
    and is_empty :: "'s \<Rightarrow> bool"
    and items :: "'s \<Rightarrow> 'a list"
    and ok :: "'s \<Rightarrow> bool"
    and cap :: nat
  assumes put_law: "ok s \<Longrightarrow> \<not> is_full s \<Longrightarrow> items (put x s) = items s @ [x] \<and> ok (put x s)"
    and get_law: "ok s \<Longrightarrow> \<not> is_empty s \<Longrightarrow> items s = front s # items (get s) \<and> ok (get s)"
    and full_law: "ok s \<Longrightarrow> is_full s \<longleftrightarrow> length (items s) = cap"
    and empty_law: "ok s \<Longrightarrow> is_empty s \<longleftrightarrow> items s = []"
    and cap_law: "ok s \<Longrightarrow> length (items s) \<le> cap"
begin

lemma put_many:
  assumes "ok s" and "length (items s) + length xs \<le> cap"
  shows "items (fold put xs s) = items s @ xs \<and> ok (fold put xs s)"
  using assms
proof (induction xs arbitrary: s)
  case (Cons x xs)
  then have "\<not> is_full s" by (simp add: full_law)
  with Cons put_law [of s x] show ?case by auto
qed simp

lemma get_many:
  assumes "ok s" and "n \<le> length (items s)"
  shows "items ((get ^^ n) s) = drop n (items s) \<and> ok ((get ^^ n) s)"
  using assms
proof (induction n arbitrary: s)
  case (Suc n)
  then have g: "items s = front s # items (get s)" "ok (get s)"
    using get_law [of s] empty_law [of s] by auto
  have "(get ^^ Suc n) s = (get ^^ n) (get s)" by (simp add: funpow_swap1)
  with Suc.IH [OF g(2)] Suc.prems(2) g(1) show ?case by simp
qed simp

lemma front_nth:
  assumes "ok s" and "n < length (items s)"
  shows "front ((get ^^ n) s) = items s ! n"
proof -
  have g: "items ((get ^^ n) s) = drop n (items s)" "ok ((get ^^ n) s)"
    using get_many [OF assms(1)] assms(2) by simp_all
  then have "\<not> is_empty ((get ^^ n) s)" using assms(2) by (simp add: empty_law)
  then have "front ((get ^^ n) s) = hd (items ((get ^^ n) s))" using get_law [OF g(2)] by (metis list.sel(1))
  with g(1) assms(2) show ?thesis by (simp add: hd_drop_conv_nth)
qed

end

section \<open>Counters modulo a power of two\<close>

text \<open>The items between the read counter \<open>r\<close> and the write counter \<open>w\<close> of an array of \<open>N\<close> slots.\<close>

definition ring_items :: "nat \<Rightarrow> (nat \<Rightarrow> 'a) \<Rightarrow> 'w::len word \<Rightarrow> 'w word \<Rightarrow> 'a list" where
  "ring_items N d r w = map (\<lambda>i. d (unat (r + word_of_nat i) mod N)) [0..<unat (w - r)]"

lemma length_ring_items [simp]: "length (ring_items N d r w) = unat (w - r)"
  by (simp add: ring_items_def)

lemma unat_add_mod:
  fixes r :: "'w::len word"
  assumes "N dvd 2 ^ LENGTH('w)"
  shows "unat (r + word_of_nat i) mod N = (unat r + i) mod N"
proof -
  have "unat (r + word_of_nat i) = (unat r + i) mod 2 ^ LENGTH('w)"
    by (simp add: unat_word_ariths unsigned_of_nat take_bit_eq_mod mod_simps)
  with assms show ?thesis by (simp add: mod_mod_cancel)
qed

lemma ring_slots:
  fixes a i j N :: nat
  assumes "0 < N" and "i < N" and "j < N" and "(a + i) mod N = (a + j) mod N"
  shows "i = j"
proof (rule ccontr)
  assume "i \<noteq> j"
  then consider "i < j" | "j < i" by linarith
  then show False
  proof cases
    case 1
    with assms(4) have "N dvd (a + j) - (a + i)" by (metis add_le_cancel_left less_imp_le mod_eq_dvd_iff_nat)
    with 1 assms(3) show False by (auto dest: dvd_imp_le)
  next
    case 2
    with assms(4) have "N dvd (a + i) - (a + j)" by (metis add_le_cancel_left less_imp_le mod_eq_dvd_iff_nat)
    with 2 assms(2) show False by (auto dest: dvd_imp_le)
  qed
qed

lemma unat_Suc_diff:
  fixes r w :: "'w::len word"
  assumes "unat (w - r) + 1 < 2 ^ LENGTH('w)"
  shows "unat (w + 1 - r) = unat (w - r) + 1"
proof -
  have "w + 1 - r = (w - r) + 1" by simp
  then have "unat (w + 1 - r) = (unat (w - r) + 1) mod 2 ^ LENGTH('w)" by (simp only: unat_word_ariths(1) unat_1)
  with assms show ?thesis by simp
qed

lemma ring_put:
  fixes r w :: "'w::len word"
  assumes N: "0 < N" "N dvd 2 ^ LENGTH('w)" "N < 2 ^ LENGTH('w)" and room: "unat (w - r) < N"
  shows "ring_items N (d(unat w mod N := x)) r (w + 1) = ring_items N d r w @ [x]"
proof -
  let ?k = "unat (w - r)"
  have len: "unat (w + 1 - r) = ?k + 1" using room N(3) by (intro unat_Suc_diff) simp
  have "w = r + word_of_nat ?k" by simp
  then have w: "unat w mod N = (unat r + ?k) mod N" using unat_add_mod [OF N(2), of r ?k] by simp
  have "(unat r + i) mod N \<noteq> unat w mod N" if "i < ?k" for i
    using ring_slots [OF N(1), of i ?k "unat r"] that room w by auto
  then show ?thesis
    unfolding ring_items_def len by (simp add: unat_add_mod [OF N(2)] w)
qed

lemma ring_get:
  fixes r w :: "'w::len word"
  assumes "r \<noteq> w"
  shows "ring_items N d r w = d (unat r mod N) # ring_items N d (r + 1) w"
proof -
  have "w - r \<noteq> 0" using assms by simp
  then have "unat (w - r) = Suc (unat (w - r - 1))" by (simp add: unat_minus_one unat_gt_0)
  moreover have "w - (r + 1) = w - r - 1" by simp
  ultimately have len: "unat (w - r) = Suc (unat (w - (r + 1)))" by metis
  have "[0..<unat (w - r)] = 0 # map Suc [0..<unat (w - (r + 1))]"
    unfolding len by (simp add: upt_conv_Cons map_Suc_upt)
  then show ?thesis by (simp add: ring_items_def comp_def algebra_simps)
qed

lemma ring_empty_iff:
  fixes r w :: "'w::len word"
  shows "ring_items N d r w = [] \<longleftrightarrow> r = w"
  by (metis length_0_conv length_ring_items right_minus_eq unat_0 unat_eq_zero)

lemma ring_full_iff:
  fixes r w :: "'w::len word"
  assumes "N < 2 ^ LENGTH('w)"
  shows "w = r + word_of_nat N \<longleftrightarrow> length (ring_items N d r w) = N"
proof -
  have "w = r + word_of_nat N \<longleftrightarrow> w - r = word_of_nat N" by (auto simp: algebra_simps)
  also have "\<dots> \<longleftrightarrow> unat (w - r) = unat (word_of_nat N :: 'w word)" by (rule word_unat_eq_iff)
  also have "unat (word_of_nat N :: 'w word) = N"
    using assms by (simp add: unsigned_of_nat take_bit_nat_eq_self)
  finally show ?thesis by simp
qed

lemma ring_split:
  fixes r w e :: "'w::len word"
  assumes "unat (w - r) \<le> unat (e - r)"
  shows "ring_items N d r e = ring_items N d r w @ ring_items N d w e"
proof -
  have "e - w = (e - r) - (w - r)" by simp
  then have len: "unat (e - w) = unat (e - r) - unat (w - r)"
    using assms by (metis unat_sub word_le_nat_alt)
  have "r + word_of_nat (unat (w - r) + i) = w + word_of_nat i" for i by simp
  then show ?thesis
    using assms unfolding ring_items_def len
    by (intro nth_equalityI) (auto simp: nth_append less_diff_conv2 add.commute simp del: of_nat_add)
qed

lemma ring_unput:
  fixes r e :: "'w::len word"
  assumes "r \<noteq> e"
  shows "ring_items N d r (e - 1) = butlast (ring_items N d r e)"
proof -
  have "e - r \<noteq> 0" using assms by simp
  moreover have "e - 1 - r = e - r - 1" by simp
  ultimately have len: "unat (e - 1 - r) = unat (e - r) - 1" by (metis unat_minus_one)
  show ?thesis
    unfolding ring_items_def len
    by (rule nth_equalityI) (simp_all add: nth_butlast less_diff_conv)
qed

end
