(* ===== verification/Console.thy ===== *)
theory Console
  imports Ring
begin

unbundle bit_operations_syntax

text \<open>
  The serial driver of \<^verbatim>\<open>kernel/uart.c\<close> and the console of \<^verbatim>\<open>kernel/console.c\<close>. The device is seen
  through its registers: \<open>lsr\<close> are the answers that the transmit-idle bit of the line status
  register will give, one per read (when they run out the bit stays clear), \<open>rx\<close> are the
  characters waiting in the receive register, and \<open>thr\<close> are the bytes written to the transmit
  register so far. The spinlocks make each function one atomic step.
\<close>

definition UART_TX_BUF_SIZE :: nat where "UART_TX_BUF_SIZE = 32"
definition INPUT_BUF :: nat where "INPUT_BUF = 128"

record uart =
  uart_tx_buf :: "nat \<Rightarrow> byte"
  uart_tx_w :: nat
  uart_tx_r :: nat
  panicked :: bool
  lsr :: "bool list"
  rx :: "byte list"
  thr :: "byte list"

record cons = uart +
  c_buf :: "nat \<Rightarrow> byte"
  c_r :: uint32
  c_w :: uint32
  c_e :: uint32

section \<open>uart.c\<close>

text \<open>\<^verbatim>\<open>uartinit\<close> as the register writes it makes, in order: register number and value.\<close>

definition uartinit :: "(nat \<times> byte) list" where
  "uartinit =
     (let IER = 1; LCR = 3; FCR = 2 in
      [(IER, 0x00), (LCR, push_bit 7 1), (0, 0x03), (1, 0x00), (LCR, 3),
       (FCR, push_bit 0 1 OR push_bit 1 3), (IER, push_bit 0 1 OR push_bit 1 1)])"

text \<open>\<^verbatim>\<open>ReadReg(LSR) & LSR_TX_IDLE\<close> and \<^verbatim>\<open>WriteReg(THR, c)\<close>.\<close>

definition read_idle :: "('x uart_scheme, bool) kernel" where
  "read_idle u = (case lsr u of [] \<Rightarrow> Ret False u | b # bs \<Rightarrow> Ret b (u\<lparr>lsr := bs\<rparr>))"

definition write_thr :: "byte \<Rightarrow> ('x uart_scheme, unit) kernel" where
  "write_thr c = kmod (\<lambda>u. u\<lparr>thr := thr u @ [c]\<rparr>)"

text \<open>The \<^verbatim>\<open>while (1)\<close> of \<^verbatim>\<open>uartstart\<close>; every round takes one character out of the buffer.\<close>

primrec uartstart_loop :: "nat \<Rightarrow> ('x uart_scheme, unit) kernel" where
  "uartstart_loop 0 u = Loop"
| "uartstart_loop (Suc k) u =
     (if uart_tx_w u = uart_tx_r u then Ret () u
      else kbind read_idle (\<lambda>idle u.
             if \<not> idle then Ret () u
             else (let c = uart_tx_buf u (uart_tx_r u) in
                   kthen (kmod (\<lambda>u. u\<lparr>uart_tx_r := (uart_tx_r u + 1) mod UART_TX_BUF_SIZE\<rparr>))
                  (kthen (write_thr c) (uartstart_loop k)) u)) u)"

definition uartstart :: "('x uart_scheme, unit) kernel" where
  "uartstart = uartstart_loop (Suc UART_TX_BUF_SIZE)"

definition uartputc :: "byte \<Rightarrow> ('x uart_scheme, unit) kernel" where
  "uartputc c u =
     (if panicked u then Loop
      else if (uart_tx_w u + 1) mod UART_TX_BUF_SIZE = uart_tx_r u then Sleep ''uart_tx_r''
      else kthen (kmod (\<lambda>u. u\<lparr>uart_tx_buf := (uart_tx_buf u)(uart_tx_w u := c)\<rparr>))
          (kthen (kmod (\<lambda>u. u\<lparr>uart_tx_w := (uart_tx_w u + 1) mod UART_TX_BUF_SIZE\<rparr>))
                 uartstart) u)"

text \<open>The busy wait of \<^verbatim>\<open>uartputc_sync\<close> reads the status register until the bit is set.\<close>

fun wait_idle :: "bool list \<Rightarrow> bool list option" where
  "wait_idle [] = None"
| "wait_idle (b # bs) = (if b then Some bs else wait_idle bs)"

definition uartputc_sync :: "byte \<Rightarrow> ('x uart_scheme, unit) kernel" where
  "uartputc_sync c u =
     (if panicked u then Loop
      else case wait_idle (lsr u) of
             None \<Rightarrow> Loop
           | Some bs \<Rightarrow> write_thr c (u\<lparr>lsr := bs\<rparr>))"

definition uartgetc :: "('x uart_scheme, int) kernel" where
  "uartgetc u = (case rx u of [] \<Rightarrow> Ret (- 1) u | c # cs \<Rightarrow> Ret (uint c) (u\<lparr>rx := cs\<rparr>))"

section \<open>console.c\<close>

definition BACKSPACE :: int where "BACKSPACE = 0x100"

definition consputc :: "int \<Rightarrow> ('x uart_scheme, unit) kernel" where
  "consputc c =
     (if c = BACKSPACE
      then kthen (uartputc_sync 8) (kthen (uartputc_sync 32) (uartputc_sync 8))
      else uartputc_sync (word_of_int c))"

text \<open>
  \<^verbatim>\<open>consolewrite\<close> calls \<^verbatim>\<open>uartputc\<close> with \<^verbatim>\<open>cons.lock\<close> held. When \<^verbatim>\<open>uartputc\<close> goes to sleep, \<^verbatim>\<open>sleep\<close> swaps
  \<^verbatim>\<open>uart_tx_lock\<close> for the process lock and \<^verbatim>\<open>sched\<close> finds two spinlocks held: \<^const>\<open>spin_held\<close>. The loop runs from index \<open>i\<close> with \<open>k\<close> bytes to go; \<open>src i\<close> is what \<^verbatim>\<open>either_copyin\<close> reads.\<close>

primrec consolewrite_loop ::
  "(nat \<Rightarrow> byte option) \<Rightarrow> nat \<Rightarrow> nat \<Rightarrow> ('x uart_scheme, nat) kernel"
where
  "consolewrite_loop src i 0 = kret i"
| "consolewrite_loop src i (Suc k) =
     (case src i of
        None \<Rightarrow> kret i
      | Some c \<Rightarrow> kthen (spin_held (uartputc c)) (consolewrite_loop src (Suc i) k))"

definition consolewrite :: "(nat \<Rightarrow> byte option) \<Rightarrow> int \<Rightarrow> ('x uart_scheme, int) kernel" where
  "consolewrite src n = kbind (consolewrite_loop src 0 (nat n)) (\<lambda>i. kret (int i))"

text \<open>
  \<^verbatim>\<open>consoleread\<close> with \<open>n\<close> bytes to go of \<open>target\<close>. It returns, or sleeps with what is still to read;
  the list holds the bytes copied out since the loop was entered. \<open>dst\<close> says whether the copy of
  the byte with that index succeeds.
\<close>

datatype cread_result = CRet int | CSleep nat

primrec consoleread_loop ::
  "(nat \<Rightarrow> byte \<Rightarrow> bool) \<Rightarrow> bool \<Rightarrow> nat \<Rightarrow> nat \<Rightarrow> 'x cons_scheme \<Rightarrow> cread_result \<times> byte list \<times> 'x cons_scheme"
where
  "consoleread_loop dst killed target 0 s = (CRet (int target), [], s)"
| "consoleread_loop dst killed target (Suc k) s =
     (if c_r s = c_w s
      then if killed then (CRet (- 1), [], s) else (CSleep (Suc k), [], s)
      else let c = c_buf s (unat (c_r s) mod INPUT_BUF); s1 = s\<lparr>c_r := c_r s + 1\<rparr> in
           if c = 4
           then (CRet (int target - int (Suc k)), [],
                 if Suc k < target then s1\<lparr>c_r := c_r s1 - 1\<rparr> else s1)
           else if \<not> dst (target - Suc k) c then (CRet (int target - int (Suc k)), [], s1)
           else if c = 10 then (CRet (int target - int k), [c], s1)
           else (case consoleread_loop dst killed target k s1 of (r, bs, t) \<Rightarrow> (r, c # bs, t)))"

definition consoleread ::
  "(nat \<Rightarrow> byte \<Rightarrow> bool) \<Rightarrow> bool \<Rightarrow> int \<Rightarrow> 'x cons_scheme \<Rightarrow> cread_result \<times> byte list \<times> 'x cons_scheme"
where
  "consoleread dst killed n s =
     (if n \<le> 0 then (CRet 0, [], s) else consoleread_loop dst killed (nat n) (nat n) s)"

text \<open>The loop of the kill-line character: at most \<open>INPUT_BUF\<close> characters are being edited.\<close>

primrec kill_line :: "nat \<Rightarrow> ('x cons_scheme, unit) kernel" where
  "kill_line 0 s = Loop"
| "kill_line (Suc k) s =
     (if c_e s \<noteq> c_w s \<and> c_buf s (unat (c_e s - 1) mod INPUT_BUF) \<noteq> 10
      then kthen (kmod (\<lambda>s. s\<lparr>c_e := c_e s - 1\<rparr>)) (kthen (consputc BACKSPACE) (kill_line k)) s
      else Ret () s)"

text \<open>\<open>procdump\<close> is the process listing of \<^verbatim>\<open>kernel/proc.c\<close>, which prints only.\<close>

definition consoleintr :: "('x cons_scheme, unit) kernel \<Rightarrow> byte \<Rightarrow> ('x cons_scheme, unit) kernel" where
  "consoleintr procdump c s =
     (if c = 16 then procdump s
      else if c = 21 then kill_line (Suc INPUT_BUF) s
      else if c = 8 \<or> c = 127
      then if c_e s \<noteq> c_w s
           then kthen (kmod (\<lambda>s. s\<lparr>c_e := c_e s - 1\<rparr>)) (consputc BACKSPACE) s
           else Ret () s
      else if c \<noteq> 0 \<and> unat (c_e s - c_r s) < INPUT_BUF
      then let c' = (if c = 13 then 10 else c) in
           kthen (consputc (uint c'))
          (kthen (kmod (\<lambda>s. s\<lparr>c_buf := (c_buf s)(unat (c_e s) mod INPUT_BUF := c'), c_e := c_e s + 1\<rparr>))
                 (\<lambda>s. if c' = 10 \<or> c' = 4 \<or> c_e s = c_r s + word_of_nat INPUT_BUF
                      then Ret () (s\<lparr>c_w := c_e s\<rparr>) else Ret () s)) s
      else Ret () s)"

text \<open>\<^verbatim>\<open>uartintr\<close>: all waiting characters, then the transmit buffer.\<close>

primrec uartintr_loop :: "('x cons_scheme, unit) kernel \<Rightarrow> nat \<Rightarrow> ('x cons_scheme, unit) kernel" where
  "uartintr_loop procdump 0 s = Loop"
| "uartintr_loop procdump (Suc k) s =
     kbind uartgetc (\<lambda>c. if c = - 1 then kret ()
       else kthen (consoleintr procdump (word_of_int c)) (uartintr_loop procdump k)) s"

definition uartintr :: "('x cons_scheme, unit) kernel \<Rightarrow> ('x cons_scheme, unit) kernel" where
  "uartintr procdump s = kthen (uartintr_loop procdump (Suc (length (rx s)))) uartstart s"

section \<open>The transmit buffer as a bounded queue\<close>

text \<open>
  Here the indices themselves are kept below the size, and one slot stays free: the buffer holds
  at most 31 characters.
\<close>

definition tx_len :: "'x uart_scheme \<Rightarrow> nat" where
  "tx_len u = (uart_tx_w u + UART_TX_BUF_SIZE - uart_tx_r u) mod UART_TX_BUF_SIZE"

definition tx_items :: "'x uart_scheme \<Rightarrow> byte list" where
  "tx_items u = map (\<lambda>i. uart_tx_buf u ((uart_tx_r u + i) mod UART_TX_BUF_SIZE)) [0..<tx_len u]"

definition tx_ok :: "'x uart_scheme \<Rightarrow> bool" where
  "tx_ok u \<longleftrightarrow> uart_tx_w u < UART_TX_BUF_SIZE \<and> uart_tx_r u < UART_TX_BUF_SIZE"

definition tx_put :: "byte \<Rightarrow> 'x uart_scheme \<Rightarrow> 'x uart_scheme" where
  "tx_put c u = u\<lparr>uart_tx_buf := (uart_tx_buf u)(uart_tx_w u := c),
     uart_tx_w := (uart_tx_w u + 1) mod UART_TX_BUF_SIZE\<rparr>"

definition tx_get :: "'x uart_scheme \<Rightarrow> 'x uart_scheme" where
  "tx_get u = u\<lparr>uart_tx_r := (uart_tx_r u + 1) mod UART_TX_BUF_SIZE\<rparr>"

lemma tx_len_less: "tx_len u < UART_TX_BUF_SIZE"
  by (simp add: tx_len_def UART_TX_BUF_SIZE_def)

lemma mod32_cases: "(w + 32 - r) mod 32 = (if r \<le> w then w - r else w + 32 - r)"
  if "w < 32" "r < (32 :: nat)"
  using that by (auto simp: mod_if)

lemma suc_mod32: "Suc w mod 32 = (if w = 31 then 0 else Suc w)" if "w < (32 :: nat)"
  using that by (auto simp: mod_if)

lemma tx_put_items:
  assumes ok: "tx_ok u" and nf: "(uart_tx_w u + 1) mod UART_TX_BUF_SIZE \<noteq> uart_tx_r u"
  shows "tx_items (tx_put c u) = tx_items u @ [c]" and "tx_ok (tx_put c u)"
proof -
  let ?r = "uart_tx_r u" and ?w = "uart_tx_w u"
  have b: "?w < 32" "?r < 32" using ok by (simp_all add: tx_ok_def UART_TX_BUF_SIZE_def)
  have len: "tx_len (tx_put c u) = tx_len u + 1"
    using b nf unfolding tx_len_def tx_put_def UART_TX_BUF_SIZE_def
    by (auto simp: mod32_cases suc_mod32 split: if_splits)
  have l32: "tx_len u < 32" using tx_len_less [of u] by (simp add: UART_TX_BUF_SIZE_def)
  have w: "(?r + tx_len u) mod 32 = ?w"
    using b unfolding tx_len_def UART_TX_BUF_SIZE_def by (auto simp: mod32_cases mod_if)
  have "(?r + i) mod 32 \<noteq> ?w" if "i < tx_len u" for i
    using ring_slots [of 32 i "tx_len u" ?r] that l32 w by auto
  then show "tx_items (tx_put c u) = tx_items u @ [c]"
    unfolding tx_items_def len using w by (simp add: tx_put_def UART_TX_BUF_SIZE_def)
  show "tx_ok (tx_put c u)" using ok by (simp add: tx_ok_def tx_put_def UART_TX_BUF_SIZE_def)
qed

lemma tx_get_items:
  assumes ok: "tx_ok u" and ne: "uart_tx_w u \<noteq> uart_tx_r u"
  shows "tx_items u = uart_tx_buf u (uart_tx_r u) # tx_items (tx_get u)" and "tx_ok (tx_get u)"
proof -
  let ?r = "uart_tx_r u" and ?w = "uart_tx_w u"
  have b: "?w < 32" "?r < 32" using ok by (simp_all add: tx_ok_def UART_TX_BUF_SIZE_def)
  have len: "tx_len u = Suc (tx_len (tx_get u))"
    using b ne unfolding tx_len_def tx_get_def UART_TX_BUF_SIZE_def
    by (auto simp: mod32_cases suc_mod32 split: if_splits)
  have "[0..<tx_len u] = 0 # map Suc [0..<tx_len (tx_get u)]"
    unfolding len by (simp add: upt_conv_Cons map_Suc_upt)
  moreover have "(?r + Suc i) mod 32 = ((?r + 1) mod 32 + i) mod 32" for i
    by (simp add: mod_simps)
  ultimately show "tx_items u = uart_tx_buf u ?r # tx_items (tx_get u)"
    using b(2) by (simp add: tx_items_def tx_get_def UART_TX_BUF_SIZE_def comp_def)
  show "tx_ok (tx_get u)" using ok by (simp add: tx_ok_def tx_get_def UART_TX_BUF_SIZE_def)
qed

interpretation txq: bounded_fifo tx_put tx_get "\<lambda>u. uart_tx_buf u (uart_tx_r u)"
  "\<lambda>u. (uart_tx_w u + 1) mod UART_TX_BUF_SIZE = uart_tx_r u" "\<lambda>u. uart_tx_w u = uart_tx_r u"
  tx_items tx_ok "UART_TX_BUF_SIZE - 1"
proof (unfold_locales, goal_cases put get full empty cap)
  case (put s x)
  then show ?case using tx_put_items by blast
next
  case (get s)
  then show ?case using tx_get_items by blast
next
  case (full s)
  then show ?case
    by (auto simp: tx_items_def tx_len_def tx_ok_def UART_TX_BUF_SIZE_def mod32_cases mod_if split: if_splits)
next
  case (empty s)
  then show ?case
    by (auto simp: tx_items_def tx_len_def tx_ok_def UART_TX_BUF_SIZE_def mod32_cases split: if_splits)
next
  case (cap s)
  then show ?case using tx_len_less [of s] by (simp add: tx_items_def)
qed

text \<open>\<^verbatim>\<open>uartstart\<close> sends a prefix of the buffered characters, in order.\<close>

lemma uartstart_loop_ret:
  assumes "tx_ok u" and "length (tx_items u) < k"
  shows "\<exists>t n. uartstart_loop k u = Ret () t \<and> tx_ok t \<and> n \<le> length (tx_items u) \<and>
     thr t = thr u @ take n (tx_items u) \<and> tx_items t = drop n (tx_items u) \<and> panicked t = panicked u \<and>
     (tx_items t = [] \<or> (\<exists>bs. lsr u = replicate n True @ False # bs) \<or> lsr u = replicate n True)"
  using assms
proof (induction k arbitrary: u)
  case (Suc k)
  show ?case
  proof (cases "uart_tx_w u = uart_tx_r u")
    case True
    then show ?thesis using Suc.prems txq.empty_law [of u] by (intro exI [of _ u] exI [of _ 0]) simp
  next
    case ne: False
    show ?thesis
    proof (cases "lsr u")
      case Nil
      then show ?thesis
        using ne Suc.prems by (intro exI [of _ u] exI [of _ 0]) (simp add: read_idle_def)
    next
      case (Cons b bs)
      show ?thesis
      proof (cases b)
        case False
        then show ?thesis
          using ne Cons Suc.prems
          by (intro exI [of _ "u\<lparr>lsr := bs\<rparr>"] exI [of _ 0])
            (simp add: read_idle_def tx_ok_def tx_items_def tx_len_def)
      next
        case True
        let ?c = "uart_tx_buf u (uart_tx_r u)"
        let ?u = "(tx_get (u\<lparr>lsr := bs\<rparr>))\<lparr>thr := thr u @ [?c]\<rparr>"
        note g = txq.get_law [OF Suc.prems(1) ne]
        have i: "tx_items ?u = tx_items (tx_get u)" "tx_ok ?u"
          using g by (simp_all add: tx_items_def tx_len_def tx_ok_def tx_get_def)
        have len: "length (tx_items ?u) < k" using g i(1) Suc.prems(2) by simp
        from Suc.IH [OF i(2) len] obtain t n where t: "uartstart_loop k ?u = Ret () t" "tx_ok t"
          "n \<le> length (tx_items ?u)" "thr t = thr ?u @ take n (tx_items ?u)"
          "tx_items t = drop n (tx_items ?u)" "panicked t = panicked ?u"
          "tx_items t = [] \<or> (\<exists>cs. lsr ?u = replicate n True @ False # cs) \<or> lsr ?u = replicate n True"
          by blast
        have "uartstart_loop (Suc k) u = Ret () t"
          using ne Cons True t(1) by (simp add: read_idle_def write_thr_def Let_def tx_get_def)
        with t g i(1) Cons True show ?thesis
          by (intro exI [of _ t] exI [of _ "Suc n"]) (auto simp: tx_get_def)
      qed
    qed
  qed
qed simp

section \<open>The line discipline\<close>

text \<open>
  What the console input means: the committed bytes that a reader can take, and the line that is
  being edited. \<open>cons_spec\<close> is the effect of one received character on the two.
\<close>

definition cons_view :: "'x cons_scheme \<Rightarrow> byte list \<times> byte list" where
  "cons_view s = (ring_items INPUT_BUF (c_buf s) (c_r s) (c_w s), ring_items INPUT_BUF (c_buf s) (c_w s) (c_e s))"

definition cons_ok :: "'x cons_scheme \<Rightarrow> bool" where
  "cons_ok s \<longleftrightarrow> unat (c_w s - c_r s) \<le> unat (c_e s - c_r s) \<and> unat (c_e s - c_r s) \<le> INPUT_BUF \<and>
     10 \<notin> set (snd (cons_view s))"

definition cons_spec :: "byte \<Rightarrow> byte list \<times> byte list \<Rightarrow> byte list \<times> byte list" where
  "cons_spec c v =
     (let com = fst v; line = snd v; c' = (if c = 13 then 10 else c) in
      if c = 16 then v
      else if c = 21 then (com, [])
      else if c = 8 \<or> c = 127 then (com, butlast line)
      else if c = 0 \<or> length com + length line \<ge> 128 then v
      else if c' = 10 \<or> c' = 4 \<or> length com + length line = 127 then (com @ line @ [c'], [])
      else (com, line @ [c']))"

text \<open>How often the transmit register will still be found idle.\<close>

definition idles :: "'x uart_scheme \<Rightarrow> nat" where
  "idles u = length (filter id (lsr u))"

text \<open>Only output took place.\<close>

definition out_only :: "'x cons_scheme \<Rightarrow> 'x cons_scheme \<Rightarrow> bool" where
  "out_only s t \<longleftrightarrow> t = s\<lparr>lsr := lsr t, thr := thr t\<rparr>"

lemma out_only_refl [simp]: "out_only s s"
  by (simp add: out_only_def)

lemma out_only_trans: "out_only s t \<Longrightarrow> out_only t u \<Longrightarrow> out_only s u"
  by (cases s, cases t, cases u) (auto simp: out_only_def)

lemma out_only_view:
  assumes "out_only s t"
  shows "c_buf t = c_buf s" "c_r t = c_r s" "c_w t = c_w s" "c_e t = c_e s" "panicked t = panicked s" "rx t = rx s"
    "uart_tx_buf t = uart_tx_buf s" "uart_tx_r t = uart_tx_r s" "uart_tx_w t = uart_tx_w s"
    "cons_view t = cons_view s" "cons_ok t = cons_ok s"
  using assms by (cases s, cases t, simp add: out_only_def cons_view_def cons_ok_def)+

lemma wait_idle_some: "0 < length (filter id bs) \<Longrightarrow>
   \<exists>cs. wait_idle bs = Some cs \<and> length (filter id bs) = Suc (length (filter id cs))"
  by (induction bs) auto

lemma uartputc_sync_ret:
  assumes "\<not> panicked s" and "0 < idles s"
  shows "\<exists>t. uartputc_sync c s = Ret () t \<and> out_only s t \<and> idles s = Suc (idles t) \<and> thr t = thr s @ [c]"
proof -
  obtain cs where "wait_idle (lsr s) = Some cs" "idles s = Suc (length (filter id cs))"
    using wait_idle_some assms(2) unfolding idles_def by blast
  with assms(1) show ?thesis
    by (simp add: uartputc_sync_def write_thr_def out_only_def idles_def)
qed

lemma consputc_ret:
  assumes "\<not> panicked s" and "3 \<le> idles s"
  shows "\<exists>t. consputc c s = Ret () t \<and> out_only s t \<and> idles s \<le> idles t + 3"
proof -
  obtain t1 where t1: "uartputc_sync 8 s = Ret () t1" "out_only s t1" "idles s = Suc (idles t1)"
    using uartputc_sync_ret [of s 8] assms by auto
  obtain t2 where t2: "uartputc_sync 32 t1 = Ret () t2" "out_only t1 t2" "idles t1 = Suc (idles t2)"
    using uartputc_sync_ret [of t1 32] assms t1 out_only_view(5) [OF t1(2)] by auto
  obtain t3 where t3: "uartputc_sync 8 t2 = Ret () t3" "out_only t2 t3" "idles t2 = Suc (idles t3)"
    using uartputc_sync_ret [of t2 8] assms t1 t2 out_only_view(5) [OF t1(2)] out_only_view(5) [OF t2(2)] by auto
  obtain t where t: "uartputc_sync (word_of_int c) s = Ret () t" "out_only s t" "idles s = Suc (idles t)"
    using uartputc_sync_ret [of s "word_of_int c"] assms by auto
  have "out_only s t3" using t1 t2 t3 out_only_trans by blast
  with t1 t2 t3 t show ?thesis by (auto simp: consputc_def)
qed

lemma view_len:
  assumes "cons_ok s"
  shows "length (fst (cons_view s)) + length (snd (cons_view s)) = unat (c_e s - c_r s)"
  using ring_split [of "c_w s" "c_r s" "c_e s" INPUT_BUF "c_buf s"] assms
  by (simp add: cons_ok_def cons_view_def) (metis length_append length_ring_items)

lemma cons_okI:
  assumes "c_r t = c_r s" and "c_w t = c_w s" and "cons_ok s"
    and "ring_items INPUT_BUF (c_buf t) (c_r s) (c_e t) = fst (cons_view s) @ line"
    and "length (fst (cons_view s) @ line) \<le> INPUT_BUF" and "10 \<notin> set line"
    and "fst (cons_view t) = fst (cons_view s)"
  shows "cons_ok t \<and> cons_view t = (fst (cons_view s), line)"
proof -
  have l: "unat (c_e t - c_r t) = length (fst (cons_view s) @ line)"
    using arg_cong [where f = length, OF assms(4)] assms(1) by simp
  have w: "unat (c_w t - c_r t) \<le> unat (c_e t - c_r t)"
    using assms(1,2) l by (simp add: cons_view_def)
  from ring_split [OF w, of INPUT_BUF "c_buf t"] assms(1,4,7)
  have "snd (cons_view t) = line" by (simp add: cons_view_def)
  with assms l w show ?thesis by (auto simp: cons_ok_def prod_eq_iff)
qed

lemma unput_view:
  assumes "cons_ok s" and "c_e s \<noteq> c_w s"
  shows "cons_ok (s\<lparr>c_e := c_e s - 1\<rparr>) \<and>
     cons_view (s\<lparr>c_e := c_e s - 1\<rparr>) = (fst (cons_view s), butlast (snd (cons_view s)))"
proof (rule cons_okI)
  let ?d = "c_buf s" and ?r = "c_r s"
  have sp: "ring_items INPUT_BUF ?d ?r (c_e s) = fst (cons_view s) @ snd (cons_view s)"
    using ring_split [of "c_w s" ?r "c_e s" INPUT_BUF ?d] assms(1) by (simp add: cons_ok_def cons_view_def)
  have ne: "snd (cons_view s) \<noteq> []" using assms(2) by (simp add: cons_view_def ring_empty_iff)
  with sp have "?r \<noteq> c_e s" by (metis append_is_Nil_conv ring_empty_iff)
  from ring_unput [OF this, of INPUT_BUF ?d] sp ne
  show "ring_items INPUT_BUF (c_buf (s\<lparr>c_e := c_e s - 1\<rparr>)) (c_r s) (c_e (s\<lparr>c_e := c_e s - 1\<rparr>)) =
      fst (cons_view s) @ butlast (snd (cons_view s))" by (simp add: butlast_append)
  show "length (fst (cons_view s) @ butlast (snd (cons_view s))) \<le> INPUT_BUF"
    using view_len [OF assms(1)] assms(1) unfolding cons_ok_def length_append length_butlast by linarith
  show "10 \<notin> set (butlast (snd (cons_view s)))" using assms(1) by (auto simp: cons_ok_def dest: in_set_butlastD)
qed (use assms in \<open>simp_all add: cons_view_def\<close>)

lemma last_edit:
  assumes "cons_ok s" and "c_e s \<noteq> c_w s"
  shows "c_buf s (unat (c_e s - 1) mod INPUT_BUF) \<noteq> 10"
proof -
  let ?l = "snd (cons_view s)"
  have len: "length ?l = unat (c_e s - c_w s)" by (simp add: cons_view_def)
  have pos: "0 < unat (c_e s - c_w s)" using assms(2) by (simp add: unat_gt_0)
  have "?l ! (length ?l - 1) = c_buf s (unat (c_w s + word_of_nat (unat (c_e s - c_w s) - 1)) mod INPUT_BUF)"
    using pos len by (simp add: cons_view_def ring_items_def)
  moreover have "c_w s + word_of_nat (unat (c_e s - c_w s) - 1) = c_e s - 1"
    using pos by (simp add: of_nat_diff)
  ultimately have "c_buf s (unat (c_e s - 1) mod INPUT_BUF) \<in> set ?l"
    using pos len by (metis diff_less less_numeral_extra(1) nth_mem)
  with assms(1) show ?thesis by (auto simp: cons_ok_def)
qed

lemma kill_line_ret:
  assumes "cons_ok s" "\<not> panicked s" "3 * length (snd (cons_view s)) \<le> idles s" "length (snd (cons_view s)) < k"
  shows "\<exists>t. kill_line k s = Ret () t \<and> cons_ok t \<and> cons_view t = (fst (cons_view s), []) \<and>
     out_only (s\<lparr>c_e := c_e t\<rparr>) t \<and> idles s \<le> idles t + 3 * length (snd (cons_view s))"
  using assms
proof (induction k arbitrary: s)
  case (Suc k)
  let ?s = "s\<lparr>c_e := c_e s - 1\<rparr>"
  show ?case
  proof (cases "c_e s = c_w s")
    case True
    then have "snd (cons_view s) = []" by (simp add: cons_view_def ring_empty_iff)
    moreover have "out_only (s\<lparr>c_e := c_w s\<rparr>) s" using True by (cases s) (simp add: out_only_def)
    ultimately show ?thesis using True Suc.prems by (intro exI [of _ s]) (simp add: prod_eq_iff)
  next
    case ne: False
    note u = unput_view [OF Suc.prems(1) ne]
    have len: "length (snd (cons_view s)) = Suc (length (snd (cons_view ?s)))"
      using u ne by (simp add: cons_view_def ring_empty_iff unat_gt_0)
    obtain t1 where t1: "consputc BACKSPACE ?s = Ret () t1" "out_only ?s t1" "idles ?s \<le> idles t1 + 3"
      using consputc_ret [of ?s BACKSPACE] Suc.prems len by (auto simp: idles_def)
    note v = out_only_view [OF t1(2)]
    have i: "idles ?s = idles s" by (simp add: idles_def)
    have p: "cons_ok t1" "\<not> panicked t1" "snd (cons_view t1) = snd (cons_view ?s)" "fst (cons_view t1) = fst (cons_view ?s)"
      using u Suc.prems(2) by (simp_all add: v)
    have q: "3 * length (snd (cons_view t1)) \<le> idles t1" "length (snd (cons_view t1)) < k"
      using len Suc.prems(3,4) t1(3) i unfolding p(3) by simp_all
    from Suc.IH [OF p(1,2) q] obtain t where t: "kill_line k t1 = Ret () t" "cons_ok t"
      "cons_view t = (fst (cons_view ?s), [])" "out_only (t1\<lparr>c_e := c_e t\<rparr>) t"
      "idles t1 \<le> idles t + 3 * length (snd (cons_view ?s))"
      unfolding p(3,4) by blast
    have "out_only (s\<lparr>c_e := c_e t\<rparr>) (t1\<lparr>c_e := c_e t\<rparr>)"
      using t1(2) by (cases s, cases t1) (auto simp: out_only_def)
    with t(4) have "out_only (s\<lparr>c_e := c_e t\<rparr>) t" by (rule out_only_trans [rotated])
    moreover have "kill_line (Suc k) s = Ret () t"
      using ne last_edit [OF Suc.prems(1) ne] t1(1) t(1) by simp
    moreover have "idles s \<le> idles t + 3 * length (snd (cons_view s))" using t(5) t1(3) len i by linarith
    moreover have "cons_view t = (fst (cons_view s), [])" using t(3) u by simp
    ultimately show ?thesis using t(2) by blast
  qed
qed simp

text \<open>
  What the process listing is relied on for: it returns, and leaves the console, the status of the
  device and the receive register alone.
\<close>

definition listing_ok :: "('x cons_scheme, unit) kernel \<Rightarrow> bool" where
  "listing_ok procdump \<longleftrightarrow> (\<forall>s. \<exists>t. procdump s = Ret () t \<and> t = s\<lparr>thr := thr t\<rparr>)"

text \<open>\<open>cons_frame s t\<close>: neither the receive register nor the output buffer has changed.\<close>

definition cons_frame :: "'x cons_scheme \<Rightarrow> 'x cons_scheme \<Rightarrow> bool" where
  "cons_frame s t \<longleftrightarrow> rx t = rx s \<and> panicked t = panicked s \<and> uart_tx_buf t = uart_tx_buf s \<and>
     uart_tx_r t = uart_tx_r s \<and> uart_tx_w t = uart_tx_w s \<and> c_r t = c_r s"

lemma out_only_frame: "out_only s t \<Longrightarrow> cons_frame s t"
  using out_only_view [of s t] by (simp add: cons_frame_def)

lemma unat_full:
  fixes e r :: uint32
  assumes "unat (e - r) < 128"
  shows "e + 1 = r + 128 \<longleftrightarrow> unat (e - r) = 127"
proof -
  have "e + 1 = r + 128 \<longleftrightarrow> e - r = 127" by (auto simp: algebra_simps)
  also have "\<dots> \<longleftrightarrow> unat (e - r) = 127" by (simp add: word_unat_eq_iff)
  finally show ?thesis .
qed

lemma insert_view:
  assumes ok: "cons_ok s" and room: "unat (c_e s - c_r s) < INPUT_BUF"
    and d: "d = (c_buf s)(unat (c_e s) mod INPUT_BUF := c)"
  shows "ring_items INPUT_BUF d (c_r s) (c_e s + 1) = fst (cons_view s) @ snd (cons_view s) @ [c]"
    and "ring_items INPUT_BUF d (c_r s) (c_w s) = fst (cons_view s)"
proof -
  let ?r = "c_r s"
  have sp: "ring_items INPUT_BUF (c_buf s) ?r (c_e s) = fst (cons_view s) @ snd (cons_view s)"
    using ring_split [of "c_w s" ?r "c_e s" INPUT_BUF "c_buf s"] ok by (simp add: cons_ok_def cons_view_def)
  show all: "ring_items INPUT_BUF d ?r (c_e s + 1) = fst (cons_view s) @ snd (cons_view s) @ [c]"
    unfolding d using ring_put [of INPUT_BUF "c_e s" ?r "c_buf s" c] room sp by (simp add: INPUT_BUF_def)
  have "unat (c_e s + 1 - ?r) = unat (c_e s - ?r) + 1"
    using room by (intro unat_Suc_diff) (simp add: INPUT_BUF_def)
  then have "unat (c_w s - ?r) \<le> unat (c_e s + 1 - ?r)" using ok by (simp add: cons_ok_def)
  from ring_split [OF this, of INPUT_BUF d] all
  have "take (unat (c_w s - ?r)) (ring_items INPUT_BUF d ?r (c_w s) @ ring_items INPUT_BUF d (c_w s) (c_e s + 1)) =
    take (unat (c_w s - ?r)) (fst (cons_view s) @ snd (cons_view s) @ [c])" by simp
  then show "ring_items INPUT_BUF d ?r (c_w s) = fst (cons_view s)" by (simp add: cons_view_def)
qed

lemma insert_spec:
  assumes ok: "cons_ok s" and room: "unat (c_e s - c_r s) < INPUT_BUF"
    and t: "t = s\<lparr>c_buf := (c_buf s)(unat (c_e s) mod INPUT_BUF := c), c_e := c_e s + 1\<rparr>"
  shows "c \<noteq> 10 \<Longrightarrow> cons_ok t \<and> cons_view t = (fst (cons_view s), snd (cons_view s) @ [c])"
    and "cons_ok (t\<lparr>c_w := c_e t\<rparr>) \<and> cons_view (t\<lparr>c_w := c_e t\<rparr>) = (fst (cons_view s) @ snd (cons_view s) @ [c], [])"
proof -
  note i = insert_view [OF ok room refl, of c]
  have len: "length (fst (cons_view s)) + length (snd (cons_view s)) < INPUT_BUF"
    using view_len [OF ok] room by simp
  show "cons_ok t \<and> cons_view t = (fst (cons_view s), snd (cons_view s) @ [c])" if "c \<noteq> 10"
    using i ok len that by (intro cons_okI [of t s]) (auto simp: t cons_ok_def, simp add: cons_view_def)
  have "unat (c_e s + 1 - c_r s) = length (fst (cons_view s) @ snd (cons_view s) @ [c])"
    using arg_cong [where f = length, OF i(1)] by simp
  with i len show "cons_ok (t\<lparr>c_w := c_e t\<rparr>) \<and>
      cons_view (t\<lparr>c_w := c_e t\<rparr>) = (fst (cons_view s) @ snd (cons_view s) @ [c], [])"
    by (simp add: t cons_ok_def cons_view_def ring_items_def [of _ _ "c_e s + 1"])
qed

lemma consoleintr_spec:
  assumes ok: "cons_ok s" and "\<not> panicked s" and idl: "384 \<le> idles s" and pd: "listing_ok procdump"
  shows "\<exists>t. consoleintr procdump c s = Ret () t \<and> cons_ok t \<and> cons_view t = cons_spec c (cons_view s) \<and>
     cons_frame s t \<and> idles s \<le> idles t + 384"
proof -
  note len = view_len [OF ok]
  have b: "unat (c_e s - c_r s) \<le> 128" using ok by (simp add: cons_ok_def INPUT_BUF_def)
  consider "c = 16" | "c = 21" | "c = 8 \<or> c = 127" | "c = 0 \<or> unat (c_e s - c_r s) \<ge> INPUT_BUF" "c \<notin> {16, 21, 8, 127}"
    | "c \<notin> {16, 21, 8, 127, 0}" "unat (c_e s - c_r s) < INPUT_BUF" by fastforce
  then show ?thesis
  proof cases
    case 1
    obtain t where "procdump s = Ret () t" "t = s\<lparr>thr := thr t\<rparr>" using pd by (auto simp: listing_ok_def)
    moreover from this(2) have "out_only s t" "idles t = idles s"
      by (cases s, cases t, simp add: out_only_def idles_def)+
    ultimately show ?thesis
      using 1 ok out_only_view [of s t] out_only_frame [of s t] by (simp add: consoleintr_def cons_spec_def)
  next
    case 2
    have l: "length (snd (cons_view s)) \<le> 128" using len b by linarith
    have "3 * length (snd (cons_view s)) \<le> idles s" "length (snd (cons_view s)) < Suc INPUT_BUF"
      using l idl by (simp_all add: INPUT_BUF_def)
    from kill_line_ret [OF ok assms(2) this] obtain t where t: "kill_line (Suc INPUT_BUF) s = Ret () t" "cons_ok t"
      "cons_view t = (fst (cons_view s), [])" "out_only (s\<lparr>c_e := c_e t\<rparr>) t"
      "idles s \<le> idles t + 3 * length (snd (cons_view s))" by blast
    have "cons_frame s t" using out_only_frame [OF t(4)] by (simp add: cons_frame_def)
    with 2 t l show ?thesis by (simp add: consoleintr_def cons_spec_def del: kill_line.simps)
  next
    case 3
    show ?thesis
    proof (cases "c_e s = c_w s")
      case True
      then have "snd (cons_view s) = []" by (simp add: cons_view_def ring_empty_iff)
      with True 3 ok show ?thesis
        by (auto simp: consoleintr_def cons_spec_def cons_frame_def prod_eq_iff)
    next
      case False
      let ?s = "s\<lparr>c_e := c_e s - 1\<rparr>"
      obtain t where t: "consputc BACKSPACE ?s = Ret () t" "out_only ?s t" "idles ?s \<le> idles t + 3"
        using consputc_ret [of ?s BACKSPACE] assms by (auto simp: idles_def)
      have "cons_frame s t" using out_only_frame [OF t(2)] by (simp add: cons_frame_def)
      with t unput_view [OF ok False] out_only_view [OF t(2)] 3 False show ?thesis
        by (auto simp: consoleintr_def cons_spec_def idles_def)
    qed
  next
    case 4
    then show ?thesis using ok len b
      by (auto simp: consoleintr_def cons_spec_def cons_frame_def INPUT_BUF_def)
  next
    case 5
    define c' where "c' = (if c = 13 then 10 else c)"
    obtain u where u: "consputc (uint c') s = Ret () u" "out_only s u" "idles s \<le> idles u + 3"
      using consputc_ret [of s "uint c'"] assms by auto
    note v = out_only_view [OF u(2)]
    let ?t = "u\<lparr>c_buf := (c_buf u)(unat (c_e u) mod INPUT_BUF := c'), c_e := c_e u + 1\<rparr>"
    let ?q = "c' = 10 \<or> c' = 4 \<or> unat (c_e s - c_r s) = 127"
    have ok': "cons_ok u" "unat (c_e u - c_r u) < INPUT_BUF" using ok 5 v by simp_all
    have "consoleintr procdump c s = Ret () (if ?q then ?t\<lparr>c_w := c_e ?t\<rparr> else ?t)"
      using 5 u(1) v unat_full [of "c_e s" "c_r s"]
      by (simp add: consoleintr_def INPUT_BUF_def Let_def flip: c'_def)
    moreover have "cons_spec c (cons_view s) =
        (if ?q then (fst (cons_view s) @ snd (cons_view s) @ [c'], []) else (fst (cons_view s), snd (cons_view s) @ [c']))"
      using 5 len by (simp add: cons_spec_def INPUT_BUF_def Let_def flip: c'_def)
    moreover have "cons_frame s (if ?q then ?t\<lparr>c_w := c_e ?t\<rparr> else ?t)"
      using out_only_frame [OF u(2)] by (simp add: cons_frame_def)
    ultimately show ?thesis
      using insert_spec [OF ok' refl, of c'] v u(3) by (auto simp: idles_def)
  qed
qed

lemma uartstart_loop_frame:
  "uartstart_loop k u = Ret () t \<Longrightarrow> t = u\<lparr>uart_tx_r := uart_tx_r t, lsr := lsr t, thr := thr t\<rparr>"
proof (induction k arbitrary: u)
  case (Suc k)
  show ?case
  proof (cases "uart_tx_w u = uart_tx_r u \<or> lsr u = [] \<or> \<not> hd (lsr u)")
    case True
    with Suc.prems show ?thesis by (cases u) (auto simp: read_idle_def kbind_def split: list.splits if_splits)
  next
    case False
    then obtain bs where "lsr u = True # bs" by (cases "lsr u") auto
    with False Suc.prems have "uartstart_loop k (u\<lparr>lsr := bs, uart_tx_r := (uart_tx_r u + 1) mod UART_TX_BUF_SIZE,
        thr := thr u @ [uart_tx_buf u (uart_tx_r u)]\<rparr>) = Ret () t"
      by (simp add: read_idle_def write_thr_def Let_def)
    from Suc.IH [OF this] show ?thesis by (cases u) simp
  qed
qed simp

lemma uartintr_loop_spec:
  assumes "cons_ok s" and "\<not> panicked s" and "384 * length (rx s) \<le> idles s" and "listing_ok procdump"
    and "length (rx s) < k"
  shows "\<exists>t. uartintr_loop procdump k s = Ret () t \<and> cons_ok t \<and>
     cons_view t = fold cons_spec (rx s) (cons_view s) \<and> rx t = [] \<and> cons_frame (s\<lparr>rx := []\<rparr>) t"
  using assms
proof (induction k arbitrary: s)
  case (Suc k)
  show ?case
  proof (cases "rx s")
    case Nil
    with Suc.prems show ?thesis
      by (intro exI [of _ s]) (simp add: uartgetc_def cons_frame_def)
  next
    case (Cons c cs)
    let ?s = "s\<lparr>rx := cs\<rparr>"
    have v: "cons_view ?s = cons_view s" "cons_ok ?s = cons_ok s" "idles ?s = idles s"
      by (simp_all add: cons_view_def cons_ok_def idles_def)
    have "cons_ok ?s" "\<not> panicked ?s" "384 \<le> idles ?s" using Suc.prems Cons v by simp_all
    from consoleintr_spec [OF this Suc.prems(4), of c] obtain u where u:
      "consoleintr procdump c ?s = Ret () u" "cons_ok u" "cons_view u = cons_spec c (cons_view s)"
      "cons_frame ?s u" "idles s \<le> idles u + 384" by (auto simp: v)
    have f: "rx u = cs" "\<not> panicked u" using u(4) Suc.prems(2) by (simp_all add: cons_frame_def)
    have "384 * length (rx u) \<le> idles u" "length (rx u) < k"
      using Suc.prems(3,5) Cons u(5) f(1) by simp_all
    from Suc.IH [OF u(2) f(2) this(1) Suc.prems(4) this(2)] obtain t where t:
      "uartintr_loop procdump k u = Ret () t" "cons_ok t" "cons_view t = fold cons_spec cs (cons_view u)"
      "rx t = []" "cons_frame (u\<lparr>rx := []\<rparr>) t" by (auto simp: f)
    have "uint c \<noteq> - 1" using uint_ge_0 [of c] by linarith
    then have "uartintr_loop procdump (Suc k) s = Ret () t"
      using Cons u(1) t(1) by (simp add: uartgetc_def kbind_def kthen_def)
    with t u show ?thesis using Cons by (auto simp: cons_frame_def)
  qed
qed simp

lemma get_view:
  assumes "cons_ok s" and "c_r s \<noteq> c_w s"
  shows "cons_ok (s\<lparr>c_r := c_r s + 1\<rparr>)"
    and "fst (cons_view s) = c_buf s (unat (c_r s) mod INPUT_BUF) # fst (cons_view (s\<lparr>c_r := c_r s + 1\<rparr>))"
    and "snd (cons_view (s\<lparr>c_r := c_r s + 1\<rparr>)) = snd (cons_view s)"
proof -
  let ?t = "s\<lparr>c_r := c_r s + 1\<rparr>"
  show f: "fst (cons_view s) = c_buf s (unat (c_r s) mod INPUT_BUF) # fst (cons_view ?t)"
    using ring_get [OF assms(2)] by (simp add: cons_view_def)
  show g: "snd (cons_view ?t) = snd (cons_view s)" by (simp add: cons_view_def)
  have "c_r s \<noteq> c_e s"
  proof
    assume "c_r s = c_e s"
    with assms show False by (simp add: cons_ok_def unat_eq_zero)
  qed
  from arg_cong [where f = length, OF ring_get [OF this, of INPUT_BUF "c_buf s"]]
  have "unat (c_e s - c_r s) = Suc (unat (c_e ?t - c_r ?t))" by simp
  moreover from arg_cong [where f = length, OF f]
  have "unat (c_w s - c_r s) = Suc (unat (c_w ?t - c_r ?t))" by (simp add: cons_view_def)
  ultimately show "cons_ok ?t" using assms(1) g by (simp add: cons_ok_def)
qed

text \<open>
  How a read of \<open>k\<close> more bytes from index \<open>i\<close> on can end when \<open>com\<close> is committed: \<open>bs\<close> is delivered and
  \<open>com'\<close> stays.
\<close>

definition read_end ::
  "(nat \<Rightarrow> byte \<Rightarrow> bool) \<Rightarrow> bool \<Rightarrow> nat \<Rightarrow> nat \<Rightarrow> byte list \<Rightarrow> byte list \<Rightarrow> byte list \<Rightarrow> cread_result \<Rightarrow> bool"
where
  "read_end dst killed i k com bs com' r \<longleftrightarrow>
     length bs \<le> k \<and> 4 \<notin> set bs \<and> 10 \<notin> set (butlast bs) \<and>
    ((r = CRet (int (i + length bs)) \<and> (length bs = k \<or> (bs \<noteq> [] \<and> last bs = 10)) \<and> com = bs @ com') \<or>
     (r = CRet (int (i + length bs)) \<and> (\<exists>rest. com = bs @ 4 # rest \<and> com' = (if i + length bs = 0 then rest else 4 # rest))) \<or>
     (r = CRet (int (i + length bs)) \<and> (\<exists>c. com = bs @ c # com' \<and> \<not> dst (i + length bs) c)) \<or>
     (r = (if killed then CRet (- 1) else CSleep (k - length bs)) \<and> length bs < k \<and> com = bs \<and> com' = []))"

lemma read_end_Cons:
  "read_end dst killed (Suc i) k com bs com' r \<Longrightarrow> c \<noteq> 4 \<Longrightarrow> c \<noteq> 10 \<Longrightarrow>
   read_end dst killed i (Suc k) (c # com) (c # bs) com' r"
  by (auto simp: read_end_def split: if_splits)

lemma consoleread_loop_spec:
  assumes "cons_ok s" and "consoleread_loop dst killed target k s = (r, bs, t)" and "k \<le> target"
  shows "cons_ok t \<and> snd (cons_view t) = snd (cons_view s) \<and>
     read_end dst killed (target - k) k (fst (cons_view s)) bs (fst (cons_view t)) r"
  using assms
proof (induction k arbitrary: s bs)
  case (Suc k)
  let ?c = "c_buf s (unat (c_r s) mod INPUT_BUF)" and ?s = "s\<lparr>c_r := c_r s + 1\<rparr>"
  show ?case
  proof (cases "c_r s = c_w s")
    case True
    then have "fst (cons_view s) = []" by (simp add: cons_view_def ring_empty_iff)
    with True Suc.prems show ?thesis by (auto simp: read_end_def split: if_splits)
  next
    case ne: False
    note g = get_view [OF Suc.prems(1) ne]
    consider "?c = 4" | "?c \<noteq> 4" "\<not> dst (target - Suc k) ?c" | "?c = 10" "dst (target - Suc k) ?c"
      | "?c \<noteq> 4" "?c \<noteq> 10" "dst (target - Suc k) ?c" by blast
    then show ?thesis
    proof cases
      case 1
      then have "r = CRet (int (target - Suc k))" "bs = []" "t = (if Suc k < target then s else ?s)"
        using ne Suc.prems(2,3) by (auto simp: Let_def)
      with 1 g Suc.prems show ?thesis by (auto simp: read_end_def)
    next
      case 2
      then have "r = CRet (int (target - Suc k))" "bs = []" "t = ?s"
        using ne Suc.prems(2,3) by (auto simp: Let_def)
      with 2 g show ?thesis by (auto simp: read_end_def)
    next
      case 3
      then have "r = CRet (int (target - Suc k + 1))" "bs = [?c]" "t = ?s"
        using ne Suc.prems(2,3) by (auto simp: Let_def)
      with 3 g show ?thesis by (simp add: read_end_def)
    next
      case 4
      then obtain bs' where b: "consoleread_loop dst killed target k ?s = (r, bs', t)" "bs = ?c # bs'"
        using ne Suc.prems(2) by (auto simp: Let_def split: prod.splits)
      have d: "target - k = Suc (target - Suc k)" using Suc.prems(3) by simp
      from Suc.IH [OF g(1) b(1)] Suc.prems(3) 4(1,2) show ?thesis
        unfolding d g(2,3) b(2) by (simp add: read_end_Cons)
    qed
  qed
qed (simp add: read_end_def)

lemma uartputc_ret:
  assumes "tx_ok u" and "\<not> panicked u" and "length (tx_items u) < UART_TX_BUF_SIZE - 1"
  shows "\<exists>t. uartputc c u = Ret () t \<and> tx_ok t \<and> \<not> panicked t \<and> length (tx_items t) \<le> Suc (length (tx_items u)) \<and>
     thr t @ tx_items t = thr u @ tx_items u @ [c]"
proof -
  have nf: "(uart_tx_w u + 1) mod UART_TX_BUF_SIZE \<noteq> uart_tx_r u" using txq.full_law [OF assms(1)] assms(3) by simp
  note p = txq.put_law [OF assms(1) nf, of c]
  have l: "length (tx_items (tx_put c u)) < Suc UART_TX_BUF_SIZE" using p assms(3) by simp
  from uartstart_loop_ret [OF conjunct2 [OF p] l] obtain t n where t:
    "uartstart (tx_put c u) = Ret () t" "tx_ok t" "thr t = thr (tx_put c u) @ take n (tx_items (tx_put c u))"
    "tx_items t = drop n (tx_items (tx_put c u))" "panicked t = panicked (tx_put c u)"
    unfolding uartstart_def by blast
  have "thr (tx_put c u) = thr u" "panicked (tx_put c u) = panicked u" by (simp_all add: tx_put_def)
  moreover have "uartputc c u = uartstart (tx_put c u)" using assms(2) nf by (simp add: uartputc_def tx_put_def)
  moreover have "thr t @ tx_items t = thr (tx_put c u) @ tx_items (tx_put c u)"
    unfolding t(3,4) append_assoc append_take_drop_id ..
  moreover have "length (tx_items t) \<le> length (tx_items (tx_put c u))" unfolding t(4) by simp
  ultimately show ?thesis using t(1,2,5) p assms(2) by auto
qed

lemma consolewrite_loop_ret:
  assumes "tx_ok u" and "\<not> panicked u" and "length (tx_items u) + k < UART_TX_BUF_SIZE"
  shows "\<exists>m t. consolewrite_loop src i k u = Ret (i + m) t \<and> tx_ok t \<and> m \<le> k \<and> (\<forall>j<m. src (i + j) \<noteq> None) \<and>
     (m = k \<or> src (i + m) = None) \<and> thr t @ tx_items t = thr u @ tx_items u @ map (\<lambda>j. the (src (i + j))) [0..<m]"
  using assms
proof (induction k arbitrary: u i)
  case (Suc k)
  show ?case
  proof (cases "src i")
    case None
    with Suc.prems show ?thesis by (intro exI [of _ 0] exI [of _ u]) simp
  next
    case (Some c)
    obtain v where v: "uartputc c u = Ret () v" "tx_ok v" "\<not> panicked v" "length (tx_items v) \<le> Suc (length (tx_items u))"
      "thr v @ tx_items v = thr u @ tx_items u @ [c]"
      using uartputc_ret [OF Suc.prems(1,2), of c] Suc.prems(3) by force
    from Suc.IH [OF v(2,3), of "Suc i"] v(4) Suc.prems(3) obtain m t where t:
      "consolewrite_loop src (Suc i) k v = Ret (Suc i + m) t" "tx_ok t" "m \<le> k" "\<forall>j<m. src (Suc i + j) \<noteq> None"
      "m = k \<or> src (Suc i + m) = None"
      "thr t @ tx_items t = thr v @ tx_items v @ map (\<lambda>j. the (src (Suc i + j))) [0..<m]" by auto
    have "[0..<Suc m] = 0 # map Suc [0..<m]" by (simp add: upt_conv_Cons map_Suc_upt)
    moreover have "\<forall>j<Suc m. src (i + j) \<noteq> None" using t(4) Some by (auto simp: less_Suc_eq_0_disj)
    ultimately show ?thesis
      using t v(1,5) Some
      by (intro exI [of _ "Suc m"] exI [of _ t]) (simp add: spin_held_def comp_def del: upt_Suc)
  qed
qed (intro exI [of _ 0], simp)

lemma kthen_panic_iff: "kthen m n s = Panic e \<longleftrightarrow> m s = Panic e \<or> (\<exists>a t. m s = Ret a t \<and> n t = Panic e)"
  by (simp add: kthen_def kbind_def split: outcome.splits)

text \<open>With a transmitter that stays busy the buffer fills up.\<close>

lemma consolewrite_loop_busy:
  assumes "tx_ok u" and "\<not> panicked u" and "lsr u = []" and "\<forall>j. src j \<noteq> None"
    and "k = UART_TX_BUF_SIZE - length (tx_items u)"
  shows "consolewrite_loop src i k u = Panic ''sched locks''"
  using assms
proof (induction k arbitrary: u i)
  case 0
  then show ?case using txq.cap_law [OF 0(1)] by (simp add: UART_TX_BUF_SIZE_def)
next
  case (Suc k)
  obtain c where c: "src i = Some c" using Suc.prems(4) by auto
  show ?case
  proof (cases "(uart_tx_w u + 1) mod UART_TX_BUF_SIZE = uart_tx_r u")
    case True
    with c Suc.prems(2) show ?thesis by (simp add: uartputc_def spin_held_def kthen_panic_iff)
  next
    case False
    note p = txq.put_law [OF Suc.prems(1) False, of c]
    have ne: "uart_tx_w (tx_put c u) \<noteq> uart_tx_r (tx_put c u)" using p txq.empty_law [of "tx_put c u"] by simp
    have f: "lsr (tx_put c u) = []" "\<not> panicked (tx_put c u)" using Suc.prems(2,3) by (simp_all add: tx_put_def)
    have "uartputc c u = uartstart (tx_put c u)" using False Suc.prems(2) by (simp add: uartputc_def tx_put_def)
    also have "\<dots> = Ret () (tx_put c u)" using ne f(1) by (simp add: uartstart_def read_idle_def)
    finally have u: "spin_held (uartputc c) u = Ret () (tx_put c u)" by (simp add: spin_held_def)
    have "k = UART_TX_BUF_SIZE - length (tx_items (tx_put c u))" using p Suc.prems(5) by simp
    from Suc.IH [OF conjunct2 [OF p] f(2,1) Suc.prems(4) this] u c show ?thesis by simp
  qed
qed

section \<open>Properties\<close>

text \<open>A console at start-up, with what the device has to say.\<close>

definition cons_boot :: "bool list \<Rightarrow> byte list \<Rightarrow> cons" where
  "cons_boot l x = \<lparr>uart_tx_buf = \<lambda>_. 0, uart_tx_w = 0, uart_tx_r = 0, panicked = False, lsr = l, rx = x, thr = [],
     c_buf = \<lambda>_. 0, c_r = 0, c_w = 0, c_e = 0\<rparr>"

lemma cons_boot_ok:
  "cons_ok (cons_boot l x)" "cons_view (cons_boot l x) = ([], [])" "tx_ok (cons_boot l x)" "tx_items (cons_boot l x) = []"
  "\<not> panicked (cons_boot l x)" "rx (cons_boot l x) = x" "lsr (cons_boot l x) = l" "thr (cons_boot l x) = []"
  by (simp_all add: cons_boot_def cons_ok_def cons_view_def ring_items_def tx_ok_def tx_items_def tx_len_def UART_TX_BUF_SIZE_def)



text \<open>
  C18. \<^verbatim>\<open>consoleread\<close> delivers the committed bytes in order, at most up to the end of a line. It ends
  when \<open>n\<close> bytes are there, after a newline, before a control-D (which is consumed only by a read
  that has delivered nothing), at a user address that cannot be written, or, the input being
  exhausted, by sleeping for the remaining bytes or failing when the process is killed. The line
  being edited is left alone.
\<close>

theorem consoleread_delivers:
  assumes "cons_ok s" and "0 < n" and "consoleread dst killed n s = (r, bs, t)"
  shows "cons_ok t \<and> snd (cons_view t) = snd (cons_view s) \<and>
     read_end dst killed 0 (nat n) (fst (cons_view s)) bs (fst (cons_view t)) r"
  using consoleread_loop_spec [OF assms(1), of dst killed "nat n" "nat n" r bs t] assms(2,3)
  by (simp add: consoleread_def)

theorem consoleread_delivers_witness:
  "\<exists>s :: cons. \<exists>r bs t. cons_ok s \<and> fst (cons_view s) = [97, 10] \<and> consoleread (\<lambda>_ _. True) False 5 s = (r, bs, t) \<and>
     read_end (\<lambda>_ _. True) False 0 5 [97, 10] bs (fst (cons_view t)) r"
proof -
  let ?s = "(cons_boot [] [])\<lparr>c_buf := (\<lambda>i. if i = 0 then 97 else 10), c_w := 2, c_e := 2\<rparr>"
  have v: "cons_view ?s = ([97, 10], [])"
    by (simp add: cons_boot_def cons_view_def ring_items_def INPUT_BUF_def upt_rec)
  then have ok: "cons_ok ?s" by (simp add: cons_ok_def INPUT_BUF_def cons_boot_def)
  obtain r bs t where "consoleread (\<lambda>_ _. True) False 5 ?s = (r, bs, t)" by (cases "consoleread (\<lambda>_ _. True) False 5 ?s")
  with consoleread_delivers [OF ok, of 5 "\<lambda>_ _. True" False r bs t] ok v show ?thesis by auto
qed



text \<open>
  C20. A write that meets a full transmit buffer does not wait for the device but panics the kernel,
  because \<^verbatim>\<open>consolewrite\<close> holds \<^verbatim>\<open>cons.lock\<close> across the sleep in \<^verbatim>\<open>uartputc\<close>: 32 readable bytes written
  while the transmitter stays busy are enough.
\<close>

theorem consolewrite_full_panics:
  assumes "tx_ok u" and "\<not> panicked u" and "lsr u = []" and "tx_items u = []" and "\<forall>j. src j \<noteq> None"
  shows "consolewrite src (int UART_TX_BUF_SIZE) u = Panic ''sched locks''"
  using consolewrite_loop_busy [OF assms(1,2,3,5) refl, of 0] assms(4) by (simp add: consolewrite_def)

theorem consolewrite_full_panics_witness:
  "consolewrite (\<lambda>_. Some 65) 32 (cons_boot [] []) = Panic ''sched locks''"
  using consolewrite_full_panics [OF cons_boot_ok(3,5,7,4), of "\<lambda>_. Some 65"] by (simp add: UART_TX_BUF_SIZE_def)

end
