(* ===== verification/Sleeplock.thy ===== *)
theory Sleeplock
  imports Prelude
begin

text \<open>
  Long-term locks, \<^verbatim>\<open>kernel/sleeplock.c\<close>. The spinlock \<^verbatim>\<open>lk->lk\<close> brackets the whole body of each
  operation, so each operation is one atomic step on the lock's fields; what remains is the
  protocol on \<^verbatim>\<open>locked\<close> and \<^verbatim>\<open>pid\<close>. A call that finds the lock taken sleeps: that is the
  result \<^const>\<open>None\<close>.
\<close>

record sleeplock =
  lk_locked :: bool
  lk_pid :: int

definition initsleeplock :: sleeplock where
  "initsleeplock = \<lparr>lk_locked = False, lk_pid = 0\<rparr>"

definition acquiresleep :: "int \<Rightarrow> sleeplock \<Rightarrow> sleeplock option" where
  "acquiresleep pid lk =
     (if lk_locked lk then None else Some (lk\<lparr>lk_locked := True, lk_pid := pid\<rparr>))"

definition releasesleep :: "sleeplock \<Rightarrow> sleeplock" where
  "releasesleep lk = lk\<lparr>lk_locked := False, lk_pid := 0\<rparr>"

definition holdingsleep :: "int \<Rightarrow> sleeplock \<Rightarrow> bool" where
  "holdingsleep pid lk \<longleftrightarrow> lk_locked lk \<and> lk_pid lk = pid"

abbreviation held_by :: "int \<Rightarrow> sleeplock" where
  "held_by pid \<equiv> \<lparr>lk_locked = True, lk_pid = pid\<rparr>"

lemma acquiresleep_free [simp]: "\<not> lk_locked lk \<Longrightarrow> acquiresleep pid lk = Some (held_by pid)"
  by (simp add: acquiresleep_def)

lemma holdingsleep_held [simp]: "holdingsleep pid (held_by pid)"
  by (simp add: holdingsleep_def)

lemma acquiresleep_held [simp]: "lk_locked lk \<Longrightarrow> acquiresleep pid lk = None"
  by (simp add: acquiresleep_def)

lemma releasesleep_eq: "releasesleep lk = initsleeplock"
  by (simp add: releasesleep_def initsleeplock_def)

lemma initsleeplock_unlocked [simp]: "\<not> lk_locked initsleeplock"
  by (simp add: initsleeplock_def)

end
