(* ===== verification/Block_Cache.thy ===== *)
theory Block_Cache
  imports Prelude
begin

text \<open>
  The interface through which the log and the file system use the buffer cache: reading a
  block into a locked buffer, changing the buffer's data, writing it through to the medium,
  changing its reference count and releasing it. The laws speak of the logical contents
  \<open>vw\<close> of every block, of the reference counts \<open>rf\<close>, of the set \<open>lk\<close> of locked blocks, of the
  medium \<open>dk\<close> and of the history \<open>tr\<close> of writes to it. The mirror of block \<open>bn\<close> is
  \<open>bn + mir\<close>; \<open>lim\<close> is the number of logical blocks and \<open>cap\<close> the number of buffers.
\<close>

locale block_cache =
  fixes rd :: "nat \<Rightarrow> ('s, nat) kernel"
    and upd :: "nat \<Rightarrow> (block \<Rightarrow> block) \<Rightarrow> ('s, unit) kernel"
    and wr :: "nat \<Rightarrow> ('s, unit) kernel"
    and pin :: "nat \<Rightarrow> ('s, unit) kernel"
    and unpin :: "nat \<Rightarrow> ('s, unit) kernel"
    and rel :: "nat \<Rightarrow> ('s, unit) kernel"
    and dat :: "'s \<Rightarrow> nat \<Rightarrow> block"
    and inv :: "'s \<Rightarrow> bool"
    and hold :: "'s \<Rightarrow> nat \<Rightarrow> nat \<Rightarrow> bool"
    and vw :: "'s \<Rightarrow> nat \<Rightarrow> block"
    and rf :: "'s \<Rightarrow> nat \<Rightarrow> uint32"
    and lk :: "'s \<Rightarrow> nat set"
    and dk :: "'s \<Rightarrow> nat \<Rightarrow> block"
    and tr :: "'s \<Rightarrow> (nat \<times> block) list"
    and frame :: "'s \<Rightarrow> 's \<Rightarrow> bool"
    and lim :: nat and cap :: nat and mir :: nat
  assumes rd_law:
    "inv s \<Longrightarrow> bn < lim \<Longrightarrow> bn \<notin> lk s \<Longrightarrow> rf s bn \<noteq> - 1 \<Longrightarrow>
     rf s bn \<noteq> 0 \<or> card {n. rf s n \<noteq> 0} < cap \<Longrightarrow>
     \<exists>b t. rd bn s = Ret b t \<and> inv t \<and> hold t b bn \<and> vw t = vw s \<and>
       rf t = (rf s)(bn := rf s bn + 1) \<and> lk t = insert bn (lk s) \<and> dk t = dk s \<and> tr t = tr s \<and>
       frame s t \<and> (\<forall>b' bn'. hold s b' bn' \<longrightarrow> hold t b' bn')"
  and upd_law:
    "inv s \<Longrightarrow> hold s b bn \<Longrightarrow>
     \<exists>t. upd b f s = Ret () t \<and> inv t \<and> vw t = (vw s)(bn := f (vw s bn)) \<and>
       rf t = rf s \<and> lk t = lk s \<and> dk t = dk s \<and> tr t = tr s \<and>
       frame s t \<and> (\<forall>b' bn'. hold s b' bn' \<longrightarrow> hold t b' bn')"
  and wr_law:
    "inv s \<Longrightarrow> hold s b bn \<Longrightarrow>
     \<exists>t. wr b s = Ret () t \<and> inv t \<and> vw t = vw s \<and>
       rf t = rf s \<and> lk t = lk s \<and> dk t = (dk s)(bn := vw s bn, bn + mir := vw s bn) \<and>
       tr t = tr s @ [(bn, vw s bn), (bn + mir, vw s bn)] \<and>
       frame s t \<and> (\<forall>b' bn'. hold s b' bn' \<longrightarrow> hold t b' bn')"
  and pin_law:
    "inv s \<Longrightarrow> hold s b bn \<Longrightarrow> rf s bn \<noteq> - 1 \<Longrightarrow>
     \<exists>t. pin b s = Ret () t \<and> inv t \<and> vw t = vw s \<and>
       rf t = (rf s)(bn := rf s bn + 1) \<and> lk t = lk s \<and> dk t = dk s \<and> tr t = tr s \<and>
       frame s t \<and> (\<forall>b' bn'. hold s b' bn' \<longrightarrow> hold t b' bn')"
  and unpin_law:
    "inv s \<Longrightarrow> hold s b bn \<Longrightarrow> rf s bn \<noteq> 1 \<Longrightarrow>
     \<exists>t. unpin b s = Ret () t \<and> inv t \<and> vw t = vw s \<and>
       rf t = (rf s)(bn := rf s bn - 1) \<and> lk t = lk s \<and> dk t = dk s \<and> tr t = tr s \<and>
       frame s t \<and> (\<forall>b' bn'. hold s b' bn' \<longrightarrow> hold t b' bn')"
  and rel_law:
    "inv s \<Longrightarrow> hold s b bn \<Longrightarrow> (rf s bn = 1 \<Longrightarrow> vw s bn = dk s bn) \<Longrightarrow>
     \<exists>t. rel b s = Ret () t \<and> inv t \<and> vw t = vw s \<and>
       rf t = (rf s)(bn := rf s bn - 1) \<and> lk t = lk s - {bn} \<and> dk t = dk s \<and> tr t = tr s \<and>
       frame s t \<and> (\<forall>b' bn'. bn' \<noteq> bn \<and> hold s b' bn' \<longrightarrow> hold t b' bn')"
  and dat_law: "inv s \<Longrightarrow> hold s b bn \<Longrightarrow> dat s b = vw s bn"
  and hold_law: "inv s \<Longrightarrow> hold s b bn \<Longrightarrow> bn < lim \<and> rf s bn \<noteq> 0 \<and> bn \<in> lk s"
  and clean_law: "inv s \<Longrightarrow> bn < lim \<Longrightarrow> rf s bn = 0 \<Longrightarrow> vw s bn = dk s bn"
  and fin_law: "finite {n. rf s n \<noteq> 0}"
  and frame_trans: "frame s t \<Longrightarrow> frame t u \<Longrightarrow> frame s u"
  and mir_pos: "lim \<le> mir"
begin

text \<open>
  The state between two sessions of the current process, and the blocks that can be referenced
  together with those that already are.
\<close>

definition idle :: "'s \<Rightarrow> bool" where
  "idle s \<longleftrightarrow> inv s \<and> lk s = {}"

definition room :: "'s \<Rightarrow> nat set \<Rightarrow> bool" where
  "room s A \<longleftrightarrow> (\<forall>bn\<in>A. bn < lim \<and> rf s bn \<noteq> - 1) \<and> finite A \<and> card (A \<union> {n. rf s n \<noteq> 0}) \<le> cap"

lemma room_cong: "rf t = rf s \<Longrightarrow> room t A = room s A"
  by (simp add: room_def)

lemma room_mono:
  assumes "room s B" and "A \<subseteq> B"
  shows "room s A"
proof -
  have "card (A \<union> {n. rf s n \<noteq> 0}) \<le> card (B \<union> {n. rf s n \<noteq> 0})"
    using assms fin_law [of s] by (intro card_mono) (auto simp: room_def)
  with assms finite_subset [of A B] show ?thesis by (auto simp: room_def)
qed

lemma room_insert: "room s (insert bn A) \<Longrightarrow> rf s bn \<noteq> 0 \<or> card ({n. rf s n \<noteq> 0}) < cap"
proof -
  assume r: "room s (insert bn A)"
  let ?R = "{n. rf s n \<noteq> 0}"
  have "card (insert bn ?R) \<le> card (insert bn A \<union> ?R)"
    using r fin_law [of s] by (intro card_mono) (auto simp: room_def)
  with r have "card (insert bn ?R) \<le> cap" by (simp add: room_def)
  with fin_law [of s] show ?thesis
    by (cases "bn \<in> ?R") (simp_all add: card_insert_if)
qed

lemma open_one:
  assumes "inv s" and "bn \<notin> lk s" and "room s (insert bn A)"
  obtains b t where "rd bn s = Ret b t" and "inv t" and "hold t b bn" and "dat t b = vw s bn"
    and "vw t = vw s" and "rf t = (rf s)(bn := rf s bn + 1)" and "lk t = insert bn (lk s)"
    and "dk t = dk s" and "tr t = tr s" and "frame s t"
    and "\<And>b' bn'. hold s b' bn' \<Longrightarrow> hold t b' bn'" and "room t (insert bn A - {bn})"
proof -
  have bn: "bn < lim" "rf s bn \<noteq> - 1" using assms(3) by (simp_all add: room_def)
  obtain b t where t: "rd bn s = Ret b t" "inv t" "hold t b bn" "vw t = vw s"
    "rf t = (rf s)(bn := rf s bn + 1)" "lk t = insert bn (lk s)" "dk t = dk s" "tr t = tr s"
    "frame s t" "\<forall>b' bn'. hold s b' bn' \<longrightarrow> hold t b' bn'"
    using rd_law [OF assms(1) bn(1) assms(2) bn(2) room_insert [OF assms(3)]] by blast
  have "rf s bn + 1 \<noteq> 0" using bn(2) by (simp add: eq_neg_iff_add_eq_0)
  then have "insert bn A - {bn} \<union> {n. rf t n \<noteq> 0} = insert bn A \<union> {n. rf s n \<noteq> 0}"
    using t(5) by auto
  then have "room t (insert bn A - {bn})"
    using assms(3) t(5) by (auto simp: room_def)
  with t dat_law [OF t(2,3)] show ?thesis by (intro that [of b t]) simp_all
qed

text \<open>\<^verbatim>\<open>bp = bread(bn); ... bp->data ...; brelse(bp)\<close>\<close>

lemma read_session:
  assumes "idle s" and "room s {bn}"
  obtains b t u where "rd bn s = Ret b t" and "dat t b = vw s bn" and "frame s t"
    and "rel b t = Ret () u" and "idle u" and "vw u = vw s" and "rf u = rf s"
    and "dk u = dk s" and "tr u = tr s" and "frame s u"
proof -
  from assms(1) have i: "inv s" "bn \<notin> lk s" "lk s = {}" by (simp_all add: idle_def)
  obtain b t where t: "rd bn s = Ret b t" "inv t" "hold t b bn" "dat t b = vw s bn" "vw t = vw s"
    "rf t = (rf s)(bn := rf s bn + 1)" "lk t = insert bn (lk s)" "dk t = dk s" "tr t = tr s"
    "frame s t"
    by (rule open_one [OF i(1,2) assms(2)]) (rule that; assumption)
  have "bn < lim" using assms(2) by (simp add: room_def)
  then have "rf t bn = 1 \<Longrightarrow> vw t bn = dk t bn"
    using t clean_law [OF i(1)] by simp
  then obtain u where u: "rel b t = Ret () u" "inv u" "vw u = vw t"
    "rf u = (rf t)(bn := rf t bn - 1)" "lk u = lk t - {bn}" "dk u = dk t" "tr u = tr t" "frame t u"
    using rel_law [OF t(2,3)] by auto
  have "idle u" using u t i(3) by (simp add: idle_def)
  then show ?thesis
    using t u frame_trans [OF t(10) u(8)] by (intro that [of b t u]) simp_all
qed

text \<open>\<^verbatim>\<open>bp = bread(bn); change bp->data; bwrite(bp); brelse(bp)\<close>\<close>

lemma write_session:
  assumes "idle s" and "room s {bn}"
  obtains u where "kbind (rd bn) (\<lambda>b. kthen (upd b f) (kthen (wr b) (rel b))) s = Ret () u"
    and "idle u" and "vw u = (vw s)(bn := f (vw s bn))" and "rf u = rf s"
    and "dk u = (dk s)(bn := f (vw s bn), bn + mir := f (vw s bn))"
    and "tr u = tr s @ [(bn, f (vw s bn)), (bn + mir, f (vw s bn))]" and "frame s u"
proof -
  from assms(1) have i: "inv s" "bn \<notin> lk s" "lk s = {}" by (simp_all add: idle_def)
  obtain b t where t: "rd bn s = Ret b t" "inv t" "hold t b bn" "vw t = vw s"
    "rf t = (rf s)(bn := rf s bn + 1)" "lk t = insert bn (lk s)" "dk t = dk s" "tr t = tr s"
    "frame s t"
    by (rule open_one [OF i(1,2) assms(2)]) (rule that; assumption)
  have lim: "bn < lim" using assms(2) by (simp add: room_def)
  obtain v where v: "upd b f t = Ret () v" "inv v" "hold v b bn" "vw v = (vw t)(bn := f (vw t bn))"
    "rf v = rf t" "lk v = lk t" "dk v = dk t" "tr v = tr t" "frame t v"
    using upd_law [OF t(2,3), of f] t(3) by blast
  obtain w where w: "wr b v = Ret () w" "inv w" "hold w b bn" "vw w = vw v"
    "rf w = rf v" "lk w = lk v" "dk w = (dk v)(bn := vw v bn, bn + mir := vw v bn)"
    "tr w = tr v @ [(bn, vw v bn), (bn + mir, vw v bn)]" "frame v w"
    using wr_law [OF v(2,3)] v(3) by blast
  have "vw w bn = dk w bn" using w lim mir_pos by simp
  then obtain u where u: "rel b w = Ret () u" "inv u" "vw u = vw w"
    "rf u = (rf w)(bn := rf w bn - 1)" "lk u = lk w - {bn}" "dk u = dk w" "tr u = tr w" "frame w u"
    using rel_law [OF w(2,3)] by blast
  have "frame s u"
    using frame_trans [OF t(9) frame_trans [OF v(9) frame_trans [OF w(9) u(8)]]] .
  moreover have "idle u" using u w v t i(3) by (simp add: idle_def)
  ultimately show ?thesis
    using t v w u by (intro that [of u]) simp_all
qed

text \<open>
  Two buffers at once: the contents of block \<open>src\<close> are copied to block \<open>dst\<close> and written
  through. In \<^verbatim>\<open>write_log\<close> the source is a pinned block of the transaction and the destination a
  block of the log area; in \<^verbatim>\<open>install_trans\<close> it is the other way round, and the destination is
  unpinned on the way.
\<close>

lemma open_two:
  assumes "idle s" and "n1 \<noteq> n2" and "room s {n1, n2}"
  obtains b1 t b2 w where "rd n1 s = Ret b1 t" and "rd n2 t = Ret b2 w" and "inv w"
    and "hold w b1 n1" and "hold w b2 n2" and "vw w = vw s"
    and "rf w = (rf s)(n1 := rf s n1 + 1, n2 := rf s n2 + 1)" and "lk w = {n1, n2}"
    and "dk w = dk s" and "tr w = tr s" and "frame s w"
proof -
  from assms(1) have i: "inv s" "n1 \<notin> lk s" "lk s = {}" by (simp_all add: idle_def)
  obtain b1 t where t: "rd n1 s = Ret b1 t" "inv t" "hold t b1 n1" "vw t = vw s"
    "rf t = (rf s)(n1 := rf s n1 + 1)" "lk t = insert n1 (lk s)" "dk t = dk s" "tr t = tr s"
    "frame s t" "room t ({n1, n2} - {n1})"
    using open_one [OF i(1,2) assms(3)] by metis
  have n2: "n2 \<notin> lk t" "room t {n2}" using t(6,10) i(3) assms(2) by simp_all
  obtain b2 w where w: "rd n2 t = Ret b2 w" "inv w" "hold w b2 n2" "vw w = vw t"
    "rf w = (rf t)(n2 := rf t n2 + 1)" "lk w = insert n2 (lk t)" "dk w = dk t" "tr w = tr t"
    "frame t w" "\<And>b' bn'. hold t b' bn' \<Longrightarrow> hold w b' bn'"
    using open_one [OF t(2) n2] by metis
  show ?thesis
    using w t i(3) assms(2) frame_trans [OF t(9) w(9)]
    by (intro that [OF t(1) w(1,2) w(10) [OF t(3)] w(3)]) auto
qed

lemma copy_block:
  assumes "idle s" and "dst \<noteq> src" and "room s {dst, src}"
    and r: "rd dst s = Ret b t \<and> rd src t = Ret c w \<or> rd src s = Ret c t \<and> rd dst t = Ret b w"
  obtains x where "kthen (\<lambda>s. upd b (\<lambda>_. dat s c) s) (wr b) w = Ret () x"
    and "inv x" and "hold x b dst" and "hold x c src" and "vw x = (vw s)(dst := vw s src)"
    and "rf x = (rf s)(dst := rf s dst + 1, src := rf s src + 1)" and "lk x = {dst, src}"
    and "dk x = (dk s)(dst := vw s src, dst + mir := vw s src)"
    and "tr x = tr s @ [(dst, vw s src), (dst + mir, vw s src)]" and "frame s x"
    and "rf s src = 0 \<Longrightarrow> vw x src = dk x src"
proof -
  have t: "inv w \<and> hold w b dst \<and> hold w c src \<and> vw w = vw s \<and>
    rf w = (rf s)(dst := rf s dst + 1, src := rf s src + 1) \<and> lk w = {dst, src} \<and> dk w = dk s \<and>
    tr w = tr s \<and> frame s w"
    using r
  proof
    assume a: "rd dst s = Ret b t \<and> rd src t = Ret c w"
    show ?thesis by (rule open_two [OF assms(1-3)]) (use a in simp)
  next
    assume a: "rd src s = Ret c t \<and> rd dst t = Ret b w"
    have "room s {src, dst}" using assms(3) by (simp add: insert_commute)
    then show ?thesis
      by (rule open_two [OF assms(1) assms(2) [symmetric]])
        (use a assms(2) in \<open>simp add: insert_commute fun_upd_twist\<close>)
  qed
  then have d: "dat w c = vw s src" using dat_law [of w c src] by simp
  obtain v where v: "upd b (\<lambda>_. dat w c) w = Ret () v" "inv v" "hold v b dst" "hold v c src"
    "vw v = (vw s)(dst := vw s src)" "rf v = rf w" "lk v = lk w" "dk v = dk w" "tr v = tr w"
    "frame w v"
    using upd_law [of w b dst "\<lambda>_. dat w c"] t d by auto
  obtain x where x: "wr b v = Ret () x" "inv x" "hold x b dst" "hold x c src" "vw x = vw v"
    "rf x = rf v" "lk x = lk v" "dk x = (dk v)(dst := vw v dst, dst + mir := vw v dst)"
    "tr x = tr v @ [(dst, vw v dst), (dst + mir, vw v dst)]" "frame v x"
    using wr_law [OF v(2,3)] v(3,4) by blast
  have "frame s x" using t frame_trans [OF _ frame_trans [OF v(10) x(10)]] by blast
  moreover have "vw x src = dk x src" if "rf s src = 0"
    using clean_law [of s src] that assms mir_pos t v x by (simp add: room_def idle_def)
  ultimately show ?thesis using t v x by (intro that [of x]) simp_all
qed

lemma copy_to_log:
  assumes "idle s" and "dst \<noteq> src" and "room s {dst, src}"
  obtains u where
    "kbind (rd dst) (\<lambda>b. kbind (rd src) (\<lambda>c.
       kthen (\<lambda>s. upd b (\<lambda>_. dat s c) s) (kthen (wr b) (kthen (rel c) (rel b))))) s = Ret () u"
    and "idle u" and "vw u = (vw s)(dst := vw s src)" and "rf u = rf s"
    and "dk u = (dk s)(dst := vw s src, dst + mir := vw s src)"
    and "tr u = tr s @ [(dst, vw s src), (dst + mir, vw s src)]" and "frame s u"
proof -
  obtain b t c w where r: "rd dst s = Ret b t" "rd src t = Ret c w"
    by (rule open_two [OF assms]) (rule that; assumption)
  obtain x where x: "kthen (\<lambda>s. upd b (\<lambda>_. dat s c) s) (wr b) w = Ret () x"
    "inv x" "hold x b dst" "hold x c src" "vw x = (vw s)(dst := vw s src)"
    "rf x = (rf s)(dst := rf s dst + 1, src := rf s src + 1)" "lk x = {dst, src}"
    "dk x = (dk s)(dst := vw s src, dst + mir := vw s src)"
    "tr x = tr s @ [(dst, vw s src), (dst + mir, vw s src)]" "frame s x"
    "rf s src = 0 \<Longrightarrow> vw x src = dk x src"
    by (rule copy_block [OF assms disjI1 [OF conjI [OF r]]]) (rule that; assumption)
  obtain y where y: "rel c x = Ret () y" "inv y" "hold y b dst" "vw y = vw x"
    "rf y = (rf x)(src := rf x src - 1)" "lk y = lk x - {src}" "dk y = dk x" "tr y = tr x" "frame x y"
    using rel_law [OF x(2,4)] x(3,6,11) assms(2) by auto
  have "vw y dst = dk y dst" using y x assms(3) mir_pos by (simp add: room_def)
  then obtain u where u: "rel b y = Ret () u" "inv u" "vw u = vw y"
    "rf u = (rf y)(dst := rf y dst - 1)" "lk u = lk y - {dst}" "dk u = dk y" "tr u = tr y" "frame y u"
    using rel_law [OF y(2,3)] by blast
  have "rf u = rf s" using u y x assms(2) by auto
  moreover have "frame s u" using x(10) y(9) u(8) by (meson frame_trans)
  moreover have "idle u" using u y x by (auto simp: idle_def)
  moreover have "kthen (\<lambda>s. upd b (\<lambda>_. dat s c) s) (kthen (wr b) (kthen (rel c) (rel b))) w = Ret () u"
    using x(1) y(1) u(1) by (auto elim!: kthen_RetE)
  ultimately show ?thesis
    using r x y u by (intro that [of u]) simp_all
qed

lemma copy_home:
  assumes "idle s" and "dst \<noteq> src" and "room s {dst, src}" and "rf s dst \<noteq> 0"
  obtains u where
    "kbind (rd src) (\<lambda>c. kbind (rd dst) (\<lambda>b.
       kthen (\<lambda>s. upd b (\<lambda>_. dat s c) s)
         (kthen (wr b) (kthen (unpin b) (kthen (rel c) (rel b)))))) s = Ret () u"
    and "idle u" and "vw u = (vw s)(dst := vw s src)" and "rf u = (rf s)(dst := rf s dst - 1)"
    and "dk u = (dk s)(dst := vw s src, dst + mir := vw s src)"
    and "tr u = tr s @ [(dst, vw s src), (dst + mir, vw s src)]" and "frame s u"
proof -
  have "room s {src, dst}" using assms(3) by (simp add: insert_commute)
  then obtain c t b w where r: "rd src s = Ret c t" "rd dst t = Ret b w"
    by (rule open_two [OF assms(1) assms(2) [symmetric]]) (rule that; assumption)
  obtain x where x: "kthen (\<lambda>s. upd b (\<lambda>_. dat s c) s) (wr b) w = Ret () x"
    "inv x" "hold x b dst" "hold x c src" "vw x = (vw s)(dst := vw s src)"
    "rf x = (rf s)(dst := rf s dst + 1, src := rf s src + 1)" "lk x = {dst, src}"
    "dk x = (dk s)(dst := vw s src, dst + mir := vw s src)"
    "tr x = tr s @ [(dst, vw s src), (dst + mir, vw s src)]" "frame s x"
    "rf s src = 0 \<Longrightarrow> vw x src = dk x src"
    by (rule copy_block [OF assms(1-3) disjI2 [OF conjI [OF r]]]) (rule that; assumption)
  obtain z where z: "unpin b x = Ret () z" "inv z" "hold z b dst" "hold z c src" "vw z = vw x"
    "rf z = (rf x)(dst := rf x dst - 1)" "lk z = lk x" "dk z = dk x" "tr z = tr x" "frame x z"
    using unpin_law [OF x(2,3)] x(3,4,6) assms(2,4) by auto
  obtain y where y: "rel c z = Ret () y" "inv y" "hold y b dst" "vw y = vw z"
    "rf y = (rf z)(src := rf z src - 1)" "lk y = lk z - {src}" "dk y = dk z" "tr y = tr z" "frame z y"
    using rel_law [OF z(2,4)] z x(6,11) assms(2) by auto
  have "vw y dst = dk y dst" using y z x assms(3) mir_pos by (simp add: room_def)
  then obtain u where u: "rel b y = Ret () u" "inv u" "vw u = vw y"
    "rf u = (rf y)(dst := rf y dst - 1)" "lk u = lk y - {dst}" "dk u = dk y" "tr u = tr y" "frame y u"
    using rel_law [OF y(2,3)] by blast
  have "rf u = (rf s)(dst := rf s dst - 1)" using u y z x assms(2) by auto
  moreover have "frame s u" using x(10) z(10) y(9) u(8) by (meson frame_trans)
  moreover have "idle u" using u y z x by (auto simp: idle_def)
  moreover have "kthen (\<lambda>s. upd b (\<lambda>_. dat s c) s)
      (kthen (wr b) (kthen (unpin b) (kthen (rel c) (rel b)))) w = Ret () u"
    using x(1) z(1) y(1) u(1) by (auto elim!: kthen_RetE)
  ultimately show ?thesis
    using r x z y u by (intro that [of u]) simp_all
qed

end

end
