(* ===== verification/Bcache.thy ===== *)
theory Bcache
  imports Sleeplock Block_Cache
begin

text \<open>
  The buffer cache and its RAID 1 layer, \<^verbatim>\<open>kernel/bio.c\<close>, over the block device that
  \<^verbatim>\<open>virtio_disk_rw\<close> offers. The buffers \<^verbatim>\<open>bcache.buf[0..NBUF)\<close> and the list head
  \<^verbatim>\<open>bcache.head\<close> (number \<open>HEAD\<close>) are numbered; the \<^verbatim>\<open>prev\<close> and \<^verbatim>\<open>next\<close> pointers of
  \<^verbatim>\<open>struct buf\<close> are the two arrays \<open>b_prev\<close> and \<open>b_next\<close> of buffer numbers. The spinlock
  \<^verbatim>\<open>bcache.lock\<close> makes the list manipulations atomic steps.
\<close>

section \<open>State\<close>

definition BSIZE :: nat where [kconsts]: "BSIZE = 1024"
definition NBUF :: nat where [kconsts]: "NBUF = 30"
definition FSSIZE :: nat where [kconsts]: "FSSIZE = 4096"
definition LOGICAL_DISK_SIZE :: nat where "LOGICAL_DISK_SIZE = FSSIZE div 2"
definition DISK1_START_BLOCK :: nat where "DISK1_START_BLOCK = FSSIZE div 2"
definition ROOTDEV :: nat where [kconsts]: "ROOTDEV = 1"

lemma DISK1_START_BLOCK_val [kconsts]: "DISK1_START_BLOCK = 2048"
  by (simp add: DISK1_START_BLOCK_def FSSIZE_def)

lemma LOGICAL_DISK_SIZE_val [kconsts]: "LOGICAL_DISK_SIZE = 2048"
  by (simp add: LOGICAL_DISK_SIZE_def FSSIZE_def)

definition HEAD :: nat where "HEAD = NBUF"

record buf =
  b_valid :: bool
  b_dev :: nat
  b_blockno :: nat
  b_lock :: sleeplock
  b_refcnt :: uint32
  b_data :: block

text \<open>The lines that \<^verbatim>\<open>bwrite\<close> prints on the console.\<close>

datatype bwmsg =
    BW_DIAG int int int bool
  | BW_SKIP_PBN0_disk int
  | BW_SKIP_PBN0_block int
  | BW_ATTEMPT_PBN0 int
  | BW_SKIP_PBN1 int
  | BW_ATTEMPT_PBN1 int

text \<open>
  \<open>disk\<close> is the medium behind the driver, by physical block number; \<open>dtrace\<close> is the history of
  the blocks written to it, oldest first, which crash statements are about. \<open>mypid\<close> is
  \<^verbatim>\<open>myproc()->pid\<close>; the two \<^verbatim>\<open>force\<close> variables are the failure simulation of \<^verbatim>\<open>kernel/proc.c\<close>.
\<close>

record bstate =
  mypid :: int
  bcache :: "nat \<Rightarrow> buf"
  b_next :: "nat \<Rightarrow> nat"
  b_prev :: "nat \<Rightarrow> nat"
  disk :: "nat \<Rightarrow> block"
  dtrace :: "(nat \<times> block) list"
  force_read_error_pbn :: int
  force_disk_fail_id :: int
  conslog :: "bwmsg list"

definition upd_buf :: "nat \<Rightarrow> (buf \<Rightarrow> buf) \<Rightarrow> ('x bstate_scheme, unit) kernel" where
  "upd_buf b f s = Ret () (s\<lparr>bcache := (bcache s)(b := f (bcache s b))\<rparr>)"

section \<open>The operations of \<^verbatim>\<open>bio.c\<close>\<close>

text \<open>\<^verbatim>\<open>binit\<close>: each buffer in turn is inserted at the front of the circular list.\<close>

definition link_front :: "nat \<Rightarrow> 'x bstate_scheme \<Rightarrow> 'x bstate_scheme" where
  "link_front b s =
     (let s1 = s\<lparr>b_next := (b_next s)(b := b_next s HEAD)\<rparr>;
          s2 = s1\<lparr>b_prev := (b_prev s1)(b := HEAD)\<rparr>;
          s3 = s2\<lparr>b_prev := (b_prev s2)(b_next s2 HEAD := b)\<rparr>
      in s3\<lparr>b_next := (b_next s3)(HEAD := b)\<rparr>)"

primrec binit_loop :: "nat \<Rightarrow> nat \<Rightarrow> 'x bstate_scheme \<Rightarrow> 'x bstate_scheme" where
  "binit_loop b 0 s = s"
| "binit_loop b (Suc n) s =
     binit_loop (Suc b) n
       (link_front b (s\<lparr>bcache := (bcache s)(b := (bcache s b)\<lparr>b_lock := initsleeplock\<rparr>)\<rparr>))"

definition binit :: "'x bstate_scheme \<Rightarrow> 'x bstate_scheme" where
  "binit s =
     binit_loop 0 NBUF
       (s\<lparr>b_prev := (b_prev s)(HEAD := HEAD), b_next := (b_next s)(HEAD := HEAD)\<rparr>)"

text \<open>
  A loop over the list along \<open>link\<close> from \<open>b\<close> to the head that stops at the first buffer
  satisfying \<open>P\<close>. The fuel counts list nodes; \<^const>\<open>None\<close> is a traversal that is still running.
\<close>

primrec find_link :: "nat \<Rightarrow> (nat \<Rightarrow> nat) \<Rightarrow> (nat \<Rightarrow> bool) \<Rightarrow> nat \<Rightarrow> nat option option" where
  "find_link 0 link P b = None"
| "find_link (Suc fuel) link P b =
     (if b = HEAD then Some None
      else if P b then Some (Some b)
      else find_link fuel link P (link b))"

definition buf_acquiresleep :: "nat \<Rightarrow> ('x bstate_scheme, nat) kernel" where
  "buf_acquiresleep b s =
     (case acquiresleep (mypid s) (b_lock (bcache s b)) of
        None \<Rightarrow> Sleep ''buffer''
      | Some lk \<Rightarrow> Ret b (s\<lparr>bcache := (bcache s)(b := (bcache s b)\<lparr>b_lock := lk\<rparr>)\<rparr>))"

definition bget :: "nat \<Rightarrow> nat \<Rightarrow> ('x bstate_scheme, nat) kernel" where
  "bget dev blockno s =
     (case find_link (Suc NBUF) (b_next s)
             (\<lambda>b. b_dev (bcache s b) = dev \<and> b_blockno (bcache s b) = blockno)
             (b_next s HEAD) of
        None \<Rightarrow> Loop
      | Some (Some b) \<Rightarrow>
          kthen (upd_buf b (\<lambda>x. x\<lparr>b_refcnt := b_refcnt x + 1\<rparr>)) (buf_acquiresleep b) s
      | Some None \<Rightarrow>
          (case find_link (Suc NBUF) (b_prev s) (\<lambda>b. b_refcnt (bcache s b) = 0)
                  (b_prev s HEAD) of
             None \<Rightarrow> Loop
           | Some (Some b) \<Rightarrow>
               kthen (upd_buf b (\<lambda>x. x\<lparr>b_dev := dev, b_blockno := blockno,
                                         b_valid := False, b_refcnt := 1\<rparr>))
                 (buf_acquiresleep b) s
           | Some None \<Rightarrow> Panic ''bget: no buffers''))"

text \<open>
  The device as \<^verbatim>\<open>virtio_disk_rw\<close> presents it: one whole block is transferred between the
  buffer and the physical block that \<^verbatim>\<open>b->blockno\<close> names.
\<close>

definition disk_rw :: "nat \<Rightarrow> bool \<Rightarrow> ('x bstate_scheme, unit) kernel" where
  "disk_rw b write s =
     (let x = bcache s b in
      if write
      then Ret () (s\<lparr>disk := (disk s)(b_blockno x := b_data x),
                     dtrace := dtrace s @ [(b_blockno x, b_data x)]\<rparr>)
      else Ret () (s\<lparr>bcache := (bcache s)(b := x\<lparr>b_data := disk s (b_blockno x)\<rparr>)\<rparr>))"

definition use_fallback :: "nat \<Rightarrow> 'x bstate_scheme \<Rightarrow> bool" where
  "use_fallback blockno s \<longleftrightarrow>
     force_disk_fail_id s = 0 \<or> force_read_error_pbn s = int blockno"

definition bread :: "nat \<Rightarrow> nat \<Rightarrow> ('x bstate_scheme, nat) kernel" where
  "bread dev blockno =
     kbind (bget dev blockno) (\<lambda>b s.
       (let pbn0 = blockno; pbn1 = pbn0 + DISK1_START_BLOCK;
            fallback = use_fallback blockno s
        in if \<not> b_valid (bcache s b) \<or> fallback
           then (let original_blockno = b_blockno (bcache s b) in
                 kthen (upd_buf b (\<lambda>x. x\<lparr>b_blockno := (if fallback then pbn1 else pbn0)\<rparr>))
                (kthen (disk_rw b False)
                (kthen (upd_buf b (\<lambda>x. x\<lparr>b_valid := True\<rparr>))
                (kthen (upd_buf b (\<lambda>x. x\<lparr>b_blockno := original_blockno\<rparr>))
                       (kret b)))) s)
           else Ret b s))"

definition bw_print :: "bwmsg \<Rightarrow> ('x bstate_scheme, unit) kernel" where
  "bw_print m s = Ret () (s\<lparr>conslog := conslog s @ [m]\<rparr>)"

definition bwrite :: "nat \<Rightarrow> ('x bstate_scheme, unit) kernel" where
  "bwrite b s =
     (if \<not> holdingsleep (mypid s) (b_lock (bcache s b)) then Panic ''bwrite''
      else
        let pbn0 = b_blockno (bcache s b);
            pbn1 = pbn0 + DISK1_START_BLOCK;
            pbn0_fail = (force_read_error_pbn s = int pbn0);
            fail_disk = force_disk_fail_id s;
            original_blockno = b_blockno (bcache s b)
        in kthen (bw_print (BW_DIAG (int pbn0) (int pbn1) fail_disk pbn0_fail))
          (kthen (if fail_disk = 0 then bw_print (BW_SKIP_PBN0_disk (int pbn0))
                  else if pbn0_fail then bw_print (BW_SKIP_PBN0_block (int pbn0))
                  else kthen (bw_print (BW_ATTEMPT_PBN0 (int pbn0)))
                      (kthen (upd_buf b (\<lambda>x. x\<lparr>b_blockno := pbn0\<rparr>))
                             (disk_rw b True)))
          (kthen (if fail_disk = 1 then bw_print (BW_SKIP_PBN1 (int pbn1))
                  else kthen (bw_print (BW_ATTEMPT_PBN1 (int pbn1)))
                      (kthen (upd_buf b (\<lambda>x. x\<lparr>b_blockno := pbn1\<rparr>))
                             (disk_rw b True)))
                 (upd_buf b (\<lambda>x. x\<lparr>b_blockno := original_blockno\<rparr>)))) s)"

definition unlink_buf :: "nat \<Rightarrow> 'x bstate_scheme \<Rightarrow> 'x bstate_scheme" where
  "unlink_buf b s =
     (let s1 = s\<lparr>b_prev := (b_prev s)(b_next s b := b_prev s b)\<rparr>
      in s1\<lparr>b_next := (b_next s1)(b_prev s1 b := b_next s1 b)\<rparr>)"

definition brelse :: "nat \<Rightarrow> ('x bstate_scheme, unit) kernel" where
  "brelse b s =
     (if \<not> holdingsleep (mypid s) (b_lock (bcache s b)) then Panic ''brelse''
      else
        kthen (upd_buf b (\<lambda>x. x\<lparr>b_lock := releasesleep (b_lock x)\<rparr>))
       (kthen (upd_buf b (\<lambda>x. x\<lparr>b_refcnt := b_refcnt x - 1\<rparr>))
              (\<lambda>t. if b_refcnt (bcache t b) = 0
                   then Ret () (link_front b (unlink_buf b t))
                   else Ret () t)) s)"

definition bpin :: "nat \<Rightarrow> ('x bstate_scheme, unit) kernel" where
  "bpin b = upd_buf b (\<lambda>x. x\<lparr>b_refcnt := b_refcnt x + 1\<rparr>)"

definition bunpin :: "nat \<Rightarrow> ('x bstate_scheme, unit) kernel" where
  "bunpin b = upd_buf b (\<lambda>x. x\<lparr>b_refcnt := b_refcnt x - 1\<rparr>)"

section \<open>The circular list of buffers\<close>

text \<open>
  \<open>dseg nx pv p xs q\<close>: following \<open>nx\<close> from \<open>p\<close> visits \<open>xs\<close> and then \<open>q\<close>, and \<open>pv\<close> is the way
  back. The abstraction \<open>lru s\<close> is the list of buffers from the most to the least recently
  used one.
\<close>

fun dseg :: "(nat \<Rightarrow> nat) \<Rightarrow> (nat \<Rightarrow> nat) \<Rightarrow> nat \<Rightarrow> nat list \<Rightarrow> nat \<Rightarrow> bool" where
  "dseg nx pv p [] q \<longleftrightarrow> nx p = q \<and> pv q = p"
| "dseg nx pv p (x # xs) q \<longleftrightarrow> nx p = x \<and> pv x = p \<and> dseg nx pv x xs q"

primrec walk_list :: "nat \<Rightarrow> (nat \<Rightarrow> nat) \<Rightarrow> nat \<Rightarrow> nat list" where
  "walk_list 0 nx b = []"
| "walk_list (Suc n) nx b = b # walk_list n nx (nx b)"

definition lru :: "'x bstate_scheme \<Rightarrow> nat list" where
  "lru s = walk_list NBUF (b_next s) (b_next s HEAD)"

definition links_ok :: "'x bstate_scheme \<Rightarrow> bool" where
  "links_ok s \<longleftrightarrow>
     dseg (b_next s) (b_prev s) HEAD (lru s) HEAD \<and> distinct (lru s) \<and> set (lru s) = {..<NBUF}"

lemma dseg_append [simp]:
  "dseg nx pv p (xs @ y # ys) q \<longleftrightarrow> dseg nx pv p xs y \<and> dseg nx pv y ys q"
  by (induction xs arbitrary: p) auto

lemma dseg_cong:
  "(\<And>a. a \<in> set (p # xs) \<Longrightarrow> nx a = nx' a) \<Longrightarrow> (\<And>a. a \<in> set (xs @ [q]) \<Longrightarrow> pv a = pv' a) \<Longrightarrow>
   dseg nx pv p xs q = dseg nx' pv' p xs q"
  by (induction xs arbitrary: p) auto

lemma dseg_upd_next [simp]:
  "a \<noteq> p \<Longrightarrow> a \<notin> set xs \<Longrightarrow> dseg (nx(a := v)) pv p xs q = dseg nx pv p xs q"
  by (rule dseg_cong) auto

lemma dseg_upd_prev [simp]:
  "a \<noteq> q \<Longrightarrow> a \<notin> set xs \<Longrightarrow> dseg nx (pv(a := v)) p xs q = dseg nx pv p xs q"
  by (rule dseg_cong) auto

lemma dseg_next: "dseg nx pv p xs q \<Longrightarrow> nx p = hd (xs @ [q])"
  by (cases xs) auto

lemma dseg_prev: "dseg nx pv p xs q \<Longrightarrow> pv q = last (p # xs)"
  by (induction xs arbitrary: p) auto

lemma walk_list_dseg: "dseg nx pv p xs q \<Longrightarrow> walk_list (length xs) nx (nx p) = xs"
  by (induction xs arbitrary: p) auto

lemma dseg_unlink:
  assumes d: "dseg nx pv h (as @ b # cs) q"
    and dist: "distinct (as @ b # cs)" "h \<notin> set (as @ b # cs)" "q \<notin> set (as @ b # cs)"
  shows "dseg (nx(pv b := nx b)) (pv(nx b := pv b)) h (as @ cs) q"
proof (cases as rule: rev_cases)
  case Nil
  with d dist show ?thesis by (cases cs) auto
next
  case (snoc as' p)
  with d dist show ?thesis by (cases cs) auto
qed

lemma dseg_link_front:
  assumes "dseg nx pv h xs q" and "b \<notin> set xs" and "b \<noteq> h" and "b \<noteq> q"
    and "h \<notin> set xs" and "distinct xs" and "q \<notin> set xs"
  shows "dseg (nx(b := nx h, h := b)) (pv(b := h, nx h := b)) h (b # xs) q"
  using assms by (cases xs) auto

lemma find_link_next:
  assumes "dseg nx pv p xs HEAD" and "HEAD \<notin> set xs" and "length xs < fuel"
  shows "find_link fuel nx P (nx p) = Some (List.find P xs)"
  using assms
proof (induction xs arbitrary: p fuel)
  case Nil
  then show ?case by (cases fuel) auto
next
  case (Cons x xs)
  from Cons.prems obtain f where "fuel = Suc f" by (cases fuel) auto
  with Cons.prems Cons.IH [of x f] show ?case by auto
qed

lemma find_link_prev:
  assumes "dseg nx pv HEAD xs q" and "HEAD \<notin> set xs" and "length xs < fuel"
  shows "find_link fuel pv P (pv q) = Some (List.find P (rev xs))"
  using assms
proof (induction xs arbitrary: q fuel rule: rev_induct)
  case Nil
  then show ?case by (cases fuel) auto
next
  case (snoc x xs)
  from snoc.prems obtain f where "fuel = Suc f" by (cases fuel) auto
  with snoc.prems snoc.IH [of x f] show ?case by auto
qed

declare find_link.simps [simp del]

lemma length_walk_list [simp]: "length (walk_list n nx b) = n"
  by (induction n arbitrary: b) auto

lemma length_lru [simp]: "length (lru s) = NBUF"
  by (simp add: lru_def)

lemma HEAD_not_buf: "HEAD \<notin> {..<NBUF}"
  by (simp add: HEAD_def)

lemma links_okI:
  assumes "dseg (b_next s) (b_prev s) HEAD xs HEAD" and "distinct xs" and "set xs = {..<NBUF}"
  shows "links_ok s" and "lru s = xs"
proof -
  have "length xs = NBUF"
    using assms(2,3) distinct_card [of xs] by simp
  with walk_list_dseg [OF assms(1)] show "lru s = xs"
    by (simp add: lru_def)
  with assms show "links_ok s"
    by (simp add: links_ok_def)
qed

lemma links_ok_cong:
  "b_next t = b_next s \<Longrightarrow> b_prev t = b_prev s \<Longrightarrow> links_ok t = links_ok s"
  by (simp add: links_ok_def lru_def)

lemma lru_cong: "b_next t = b_next s \<Longrightarrow> lru t = lru s"
  by (simp add: lru_def)

lemma move_to_front:
  assumes "links_ok s" and "b < NBUF"
  shows "links_ok (link_front b (unlink_buf b s))"
    and "lru (link_front b (unlink_buf b s)) = b # remove1 b (lru s)"
proof -
  have "b \<in> set (lru s)"
    using assms by (simp add: links_ok_def)
  then obtain as cs where sp: "lru s = as @ b # cs"
    by (meson split_list)
  let ?nx = "b_next s" and ?pv = "b_prev s"
  let ?nx' = "?nx(?pv b := ?nx b)" and ?pv' = "?pv(?nx b := ?pv b)"
  from assms(1) sp have d: "dseg ?nx ?pv HEAD (as @ b # cs) HEAD"
    and dist: "distinct (as @ b # cs)" and set: "set (as @ b # cs) = {..<NBUF}"
    by (auto simp: links_ok_def)
  have H: "HEAD \<notin> set (as @ b # cs)"
    using set HEAD_not_buf by auto
  have "?nx b \<noteq> b"
    using d dist H by (cases cs) auto
  then have eq: "b_next (link_front b (unlink_buf b s)) = ?nx'(b := ?nx' HEAD, HEAD := b)"
    "b_prev (link_front b (unlink_buf b s)) = ?pv'(b := HEAD, ?nx' HEAD := b)"
    using H by (auto simp: link_front_def unlink_buf_def Let_def)
  have "dseg ?nx' ?pv' HEAD (as @ cs) HEAD"
    by (rule dseg_unlink [OF d dist H H])
  then have "dseg (?nx'(b := ?nx' HEAD, HEAD := b)) (?pv'(b := HEAD, ?nx' HEAD := b))
      HEAD (b # as @ cs) HEAD"
    by (rule dseg_link_front) (use dist H in auto)
  with eq have d2: "dseg (b_next (link_front b (unlink_buf b s)))
      (b_prev (link_front b (unlink_buf b s))) HEAD (b # as @ cs) HEAD"
    by simp
  have ds: "distinct (b # as @ cs)" "set (b # as @ cs) = {..<NBUF}"
    using dist set by auto
  show "links_ok (link_front b (unlink_buf b s))"
    by (rule links_okI [OF d2 ds])
  have "lru (link_front b (unlink_buf b s)) = b # as @ cs"
    by (rule links_okI [OF d2 ds])
  with sp dist show "lru (link_front b (unlink_buf b s)) = b # remove1 b (lru s)"
    by (simp add: remove1_append)
qed

lemma link_front_frame [simp]:
  "bcache (link_front b s) = bcache s" "mypid (link_front b s) = mypid s"
  "disk (link_front b s) = disk s" "dtrace (link_front b s) = dtrace s"
  by (simp_all add: link_front_def Let_def)

lemma link_front_links:
  "b_next (link_front b s) = (b_next s)(b := b_next s HEAD, HEAD := b)"
  if "b \<noteq> HEAD"
  using that by (simp add: link_front_def Let_def)

lemma binit_loop_lru:
  assumes "dseg (b_next s) (b_prev s) HEAD (rev [0..<b]) HEAD" and "b + n \<le> NBUF"
  shows "dseg (b_next (binit_loop b n s)) (b_prev (binit_loop b n s)) HEAD (rev [0..<b + n]) HEAD"
  using assms
proof (induction n arbitrary: b s)
  case 0
  then show ?case by simp
next
  case (Suc n)
  let ?s = "s\<lparr>bcache := (bcache s)(b := (bcache s b)\<lparr>b_lock := initsleeplock\<rparr>)\<rparr>"
  have b: "b \<noteq> HEAD" "HEAD \<notin> set (rev [0..<b])"
    using Suc.prems(2) by (auto simp: HEAD_def)
  have "dseg ((b_next s)(b := b_next s HEAD, HEAD := b)) ((b_prev s)(b := HEAD, b_next s HEAD := b))
      HEAD (b # rev [0..<b]) HEAD"
    by (rule dseg_link_front [OF Suc.prems(1)]) (use b in auto)
  moreover have "b_next (link_front b ?s) = (b_next s)(b := b_next s HEAD, HEAD := b)"
    "b_prev (link_front b ?s) = (b_prev s)(b := HEAD, b_next s HEAD := b)"
    using b by (auto simp: link_front_def Let_def)
  ultimately have "dseg (b_next (link_front b ?s)) (b_prev (link_front b ?s))
      HEAD (rev [0..<Suc b]) HEAD"
    by simp
  then show ?case
    using Suc.IH [of "link_front b ?s" "Suc b"] Suc.prems(2) by simp
qed

lemma binit_lru: "links_ok (binit s)" "lru (binit s) = rev [0..<NBUF]"
proof -
  have "dseg (b_next (binit s)) (b_prev (binit s)) HEAD (rev [0..<0 + NBUF]) HEAD"
    unfolding binit_def by (rule binit_loop_lru) auto
  then have d: "dseg (b_next (binit s)) (b_prev (binit s)) HEAD (rev [0..<NBUF]) HEAD"
    by simp
  show "links_ok (binit s)" "lru (binit s) = rev [0..<NBUF]"
    by (rule links_okI [OF d]; auto)+
qed

lemma binit_loop_bcache:
  "bcache (binit_loop b n s) k =
     (if b \<le> k \<and> k < b + n then (bcache s k)\<lparr>b_lock := initsleeplock\<rparr> else bcache s k)"
  by (induction n arbitrary: b s) auto

lemma binit_loop_frame [simp]:
  "disk (binit_loop b n s) = disk s" "mypid (binit_loop b n s) = mypid s"
  by (induction n arbitrary: b s) auto

section \<open>The cache invariant and the logical disk\<close>

text \<open>
  \<open>cached s bn\<close> is the buffer that holds block \<open>bn\<close> of the file system's disk, \<open>view s bn\<close> the
  contents the rest of the kernel sees for the block (the cached copy where there is a valid
  one), \<open>refof s bn\<close> how many references the kernel holds to its buffer.
\<close>

definition cached :: "'x bstate_scheme \<Rightarrow> nat \<Rightarrow> nat option" where
  "cached s bn =
     List.find (\<lambda>b. b_dev (bcache s b) = ROOTDEV \<and> b_blockno (bcache s b) = bn) [0..<NBUF]"

definition view :: "'x bstate_scheme \<Rightarrow> nat \<Rightarrow> block" where
  "view s bn =
     (if bn < LOGICAL_DISK_SIZE then
        (case cached s bn of
           Some b \<Rightarrow> if b_valid (bcache s b) then b_data (bcache s b) else disk s bn
         | None \<Rightarrow> disk s bn)
      else (\<lambda>_. 0))"

definition refof :: "'x bstate_scheme \<Rightarrow> nat \<Rightarrow> uint32" where
  "refof s bn = (case cached s bn of Some b \<Rightarrow> b_refcnt (bcache s b) | None \<Rightarrow> 0)"

text \<open>
  The invariant: the list links are well formed; a block has at most one buffer; a buffer
  without references is unlocked and, if valid, equal to the disk, so that recycling it loses
  nothing; valid buffers hold blocks of the logical disk.
\<close>

definition buf_ok :: "'x bstate_scheme \<Rightarrow> buf \<Rightarrow> bool" where
  "buf_ok s x \<longleftrightarrow>
     (b_dev x = 0 \<and> b_refcnt x = 0 \<or> b_dev x = ROOTDEV) \<and>
     (b_valid x \<longrightarrow> b_dev x = ROOTDEV \<and> b_blockno x < LOGICAL_DISK_SIZE) \<and>
     (b_refcnt x = 0 \<longrightarrow> \<not> lk_locked (b_lock x) \<and> (b_valid x \<longrightarrow> b_data x = disk s (b_blockno x)))"

definition binv :: "'x bstate_scheme \<Rightarrow> bool" where
  "binv s \<longleftrightarrow>
     links_ok s \<and>
     (\<forall>i<NBUF. buf_ok s (bcache s i)) \<and>
     (\<forall>i<NBUF. \<forall>j<NBUF. b_dev (bcache s i) = ROOTDEV \<and> b_dev (bcache s j) = ROOTDEV \<and>
        b_blockno (bcache s i) = b_blockno (bcache s j) \<longrightarrow> i = j)"

definition nofail :: "'x bstate_scheme \<Rightarrow> bool" where
  "nofail s \<longleftrightarrow> force_disk_fail_id s \<noteq> 0 \<and> force_disk_fail_id s \<noteq> 1 \<and> force_read_error_pbn s < 0"

lemma find_SomeD: "List.find P xs = Some x \<Longrightarrow> x \<in> set xs \<and> P x"
  by (induction xs) (auto split: if_splits)

lemma find_upt_unique:
  assumes "\<And>i j. i < n \<Longrightarrow> j < n \<Longrightarrow> P i \<Longrightarrow> P j \<Longrightarrow> i = j"
  shows "List.find P [0..<n] = Some i \<longleftrightarrow> i < n \<and> P i"
proof
  assume "List.find P [0..<n] = Some i"
  then show "i < n \<and> P i" by (auto simp: find_Some_iff)
next
  assume i: "i < n \<and> P i"
  then have "List.find P [0..<n] \<noteq> None" by (auto simp: find_None_iff)
  then obtain j where j: "List.find P [0..<n] = Some j" by auto
  then have "j < n \<and> P j" by (auto simp: find_Some_iff)
  with i assms j show "List.find P [0..<n] = Some i" by auto
qed

lemma find_perm_unique:
  assumes "set xs = {..<n}" and "\<And>i j. i < n \<Longrightarrow> j < n \<Longrightarrow> P i \<Longrightarrow> P j \<Longrightarrow> i = j"
  shows "List.find P xs = List.find P [0..<n]"
proof (cases "List.find P xs")
  case None
  with assms(1) have "List.find P [0..<n] = None"
    by (auto simp: find_None_iff)
  with None show ?thesis by simp
next
  case (Some i)
  then have "i \<in> set xs" "P i"
    by (auto simp: find_Some_iff)
  with assms have "List.find P [0..<n] = Some i"
    by (subst find_upt_unique) auto
  with Some show ?thesis by simp
qed

lemma cached_iff:
  "binv s \<Longrightarrow> cached s bn = Some b \<longleftrightarrow>
     b < NBUF \<and> b_dev (bcache s b) = ROOTDEV \<and> b_blockno (bcache s b) = bn"
  unfolding cached_def binv_def by (subst find_upt_unique) auto

lemma cached_None_iff:
  "cached s bn = None \<longleftrightarrow>
     (\<forall>b<NBUF. \<not> (b_dev (bcache s b) = ROOTDEV \<and> b_blockno (bcache s b) = bn))"
  by (auto simp: cached_def find_None_iff)

lemma find_cached:
  assumes "binv s"
  shows "find_link (Suc NBUF) (b_next s)
           (\<lambda>b. b_dev (bcache s b) = ROOTDEV \<and> b_blockno (bcache s b) = bn) (b_next s HEAD)
         = Some (cached s bn)"
proof -
  have l: "links_ok s" using assms by (simp add: binv_def)
  then have "find_link (Suc NBUF) (b_next s)
       (\<lambda>b. b_dev (bcache s b) = ROOTDEV \<and> b_blockno (bcache s b) = bn) (b_next s HEAD)
     = Some (List.find (\<lambda>b. b_dev (bcache s b) = ROOTDEV \<and> b_blockno (bcache s b) = bn) (lru s))"
    by (intro find_link_next) (auto simp: links_ok_def HEAD_def)
  also have "\<dots> = Some (cached s bn)"
    unfolding cached_def using assms
    by (intro arg_cong [where f = Some] find_perm_unique) (auto simp: binv_def links_ok_def)
  finally show ?thesis .
qed

lemma find_victim:
  assumes "links_ok s"
  shows "find_link (Suc NBUF) (b_prev s) P (b_prev s HEAD) = Some (List.find P (rev (lru s)))"
  using assms by (intro find_link_prev) (auto simp: links_ok_def HEAD_def)

lemma binvD:
  assumes "binv s"
  shows "links_ok s" and "i < NBUF \<Longrightarrow> buf_ok s (bcache s i)"
    and "i < NBUF \<Longrightarrow> j < NBUF \<Longrightarrow> b_dev (bcache s i) = ROOTDEV \<Longrightarrow> b_dev (bcache s j) = ROOTDEV \<Longrightarrow>
      b_blockno (bcache s i) = b_blockno (bcache s j) \<Longrightarrow> i = j"
  using assms by (auto simp: binv_def)

text \<open>
  Storing a buffer record \<open>x\<close> for block \<open>bn\<close> in slot \<open>b\<close>, where \<open>b\<close> is the slot of \<open>bn\<close> or, if the
  block is not cached, a slot without references.
\<close>

definition slot_for :: "'x bstate_scheme \<Rightarrow> nat \<Rightarrow> nat \<Rightarrow> bool" where
  "slot_for s bn b \<longleftrightarrow>
     b < NBUF \<and> (cached s bn = Some b \<or> cached s bn = None \<and> b_refcnt (bcache s b) = 0)"

lemma put_buf_inv:
  assumes inv: "binv s" and slot: "slot_for s bn b"
    and x: "b_dev x = ROOTDEV" "b_blockno x = bn" "buf_ok s x"
    and t: "t = s\<lparr>bcache := (bcache s)(b := x)\<rparr>"
  shows "binv t" and "cached t bn = Some b"
proof -
  from slot have b: "b < NBUF" by (simp add: slot_for_def)
  have bt: "bcache t = (bcache s)(b := x)" "disk t = disk s"
    by (simp_all add: t)
  have uniq: "j = b" if "j < NBUF" "b_dev (bcache s j) = ROOTDEV" "b_blockno (bcache s j) = bn" for j
    using slot that cached_iff [OF inv, of bn j] by (auto simp: slot_for_def)
  have ok: "buf_ok t (bcache t i)" if "i < NBUF" for i
    using that x(3) binvD(2) [OF inv] by (auto simp: bt buf_ok_def)
  show tinv: "binv t"
    unfolding binv_def
  proof (intro conjI allI impI)
    show "links_ok t"
      using binvD(1) [OF inv] by (subst links_ok_cong [of t s]) (auto simp: t)
    show "buf_ok t (bcache t i)" if "i < NBUF" for i
      using ok that by simp
    fix i j assume ij: "i < NBUF" "j < NBUF"
      and h: "b_dev (bcache t i) = ROOTDEV \<and> b_dev (bcache t j) = ROOTDEV \<and>
         b_blockno (bcache t i) = b_blockno (bcache t j)"
    consider "i = b" "j = b" | "i = b" "j \<noteq> b" | "i \<noteq> b" "j = b" | "i \<noteq> b" "j \<noteq> b" by blast
    then show "i = j"
    proof cases
      case 2
      with h x ij uniq [of j] show ?thesis by (simp add: bt)
    next
      case 3
      with h x ij uniq [of i] show ?thesis by (simp add: bt)
    next
      case 4
      with h ij binvD(3) [OF inv, of i j] show ?thesis by (simp add: bt)
    qed simp
  qed
  show "cached t bn = Some b"
    using tinv b x by (simp add: cached_iff bt)
qed

text \<open>The other blocks keep their buffer, except the clean one that was recycled.\<close>

lemma put_buf_other:
  assumes inv: "binv s" and tinv: "binv t" and slot: "slot_for s bn b" and x: "b_blockno x = bn"
    and bt: "bcache t = (bcache s)(b := x)" and ne: "bn' \<noteq> bn"
  shows "cached t bn' = cached s bn' \<or>
     cached t bn' = None \<and> cached s bn' = Some b \<and> b_refcnt (bcache s b) = 0"
proof (cases "cached s bn'")
  case None
  then have "cached t bn' = None"
    using ne x by (auto simp: cached_None_iff bt)
  with None show ?thesis by simp
next
  case (Some c)
  then have c: "c < NBUF" "b_dev (bcache s c) = ROOTDEV" "b_blockno (bcache s c) = bn'"
    by (auto simp: cached_iff [OF inv])
  show ?thesis
  proof (cases "c = b")
    case False
    with c have "cached t bn' = Some c"
      by (simp add: cached_iff [OF tinv] bt)
    with Some show ?thesis by simp
  next
    case True
    with c ne slot have free: "b_refcnt (bcache s b) = 0"
      by (auto simp: slot_for_def cached_iff [OF inv])
    have "\<not> (b_dev (bcache t k) = ROOTDEV \<and> b_blockno (bcache t k) = bn')" if k: "k < NBUF" for k
      using k c True ne x binvD(3) [OF inv, of k c] by (auto simp: bt)
    then have "cached t bn' = None" by (simp add: cached_None_iff)
    with Some True free show ?thesis by simp
  qed
qed

lemma put_buf:
  assumes inv: "binv s" and slot: "slot_for s bn b"
    and x: "b_dev x = ROOTDEV" "b_blockno x = bn" "buf_ok s x"
    and t: "t = s\<lparr>bcache := (bcache s)(b := x)\<rparr>"
  shows "binv t" and "cached t bn = Some b"
    and "view t = (if bn < LOGICAL_DISK_SIZE
                   then (view s)(bn := if b_valid x then b_data x else disk s bn) else view s)"
    and "refof t = (refof s)(bn := b_refcnt x)"
proof -
  show tinv: "binv t" and cb: "cached t bn = Some b"
    by (rule put_buf_inv [OF assms])+
  have b: "b < NBUF" using slot by (simp add: slot_for_def)
  have bt: "bcache t = (bcache s)(b := x)" "disk t = disk s" "bcache t b = x"
    by (simp_all add: t)
  note other = put_buf_other [OF inv tinv slot x(2) bt(1)]
  have clean: "b_data (bcache s b) = disk s bn'"
    if "cached s bn' = Some b" "b_refcnt (bcache s b) = 0" "b_valid (bcache s b)" for bn'
    using that binvD(2) [OF inv b] by (auto simp: cached_iff [OF inv] buf_ok_def)
  have unch: "b_data (bcache t c) = b_data (bcache s c) \<and> b_valid (bcache t c) = b_valid (bcache s c)
      \<and> b_refcnt (bcache t c) = b_refcnt (bcache s c)"
    if "cached t bn' = Some c" "bn' \<noteq> bn" for c bn'
    using that x by (auto simp: cached_iff [OF tinv] bt(1) split: if_splits)
  have "view t bn' = view s bn'" if "bn' \<noteq> bn" for bn'
    using other [OF that] clean [of bn'] unch [of bn'] that
    by (auto simp: view_def bt(2) split: option.splits)
  moreover have "view t bn = (if bn < LOGICAL_DISK_SIZE
      then if b_valid x then b_data x else disk s bn else view s bn)"
    by (simp add: view_def cb bt(2,3))
  ultimately have "view t bn' = (if bn < LOGICAL_DISK_SIZE
      then (view s)(bn := if b_valid x then b_data x else disk s bn) else view s) bn'" for bn'
    by (cases "bn' = bn") simp_all
  then show "view t = (if bn < LOGICAL_DISK_SIZE
      then (view s)(bn := if b_valid x then b_data x else disk s bn) else view s)" ..
  show "refof t = (refof s)(bn := b_refcnt x)"
  proof (rule ext)
    fix bn'
    show "refof t bn' = ((refof s)(bn := b_refcnt x)) bn'"
      using other [of bn'] unch [of bn']
      by (cases "bn' = bn") (auto simp: refof_def cb bt(2,3) split: option.splits)
  qed
qed

section \<open>What the operations do under the invariant\<close>

definition avail :: "'x bstate_scheme \<Rightarrow> nat \<Rightarrow> bool" where
  "avail s bn \<longleftrightarrow>
     (case cached s bn of
        Some b \<Rightarrow> \<not> lk_locked (b_lock (bcache s b))
      | None \<Rightarrow> \<exists>b<NBUF. b_refcnt (bcache s b) = 0)"

abbreviation held_buf :: "int \<Rightarrow> nat \<Rightarrow> uint32 \<Rightarrow> block \<Rightarrow> buf" where
  "held_buf pid bn r d \<equiv>
     \<lparr>b_valid = True, b_dev = ROOTDEV, b_blockno = bn, b_lock = held_by pid, b_refcnt = r, b_data = d\<rparr>"

lemma bget_ret:
  assumes inv: "binv s" and av: "avail s bn"
  obtains b x where "slot_for s bn b"
    and "bget ROOTDEV bn s = Ret b (s\<lparr>bcache := (bcache s)(b := x)\<rparr>)"
    and "b_dev x = ROOTDEV" "b_blockno x = bn" "b_lock x = held_by (mypid s)"
    and "b_refcnt x = refof s bn + 1"
    and "b_valid x \<longleftrightarrow> cached s bn = Some b \<and> b_valid (bcache s b)"
    and "b_valid x \<Longrightarrow> b_data x = b_data (bcache s b)"
proof (cases "cached s bn")
  case (Some b)
  let ?x = "(bcache s b)\<lparr>b_refcnt := b_refcnt (bcache s b) + 1, b_lock := held_by (mypid s)\<rparr>"
  from Some av have "\<not> lk_locked (b_lock (bcache s b))"
    by (simp add: avail_def)
  then have "bget ROOTDEV bn s = Ret b (s\<lparr>bcache := (bcache s)(b := ?x)\<rparr>)"
    by (simp add: bget_def find_cached [OF inv] Some upd_buf_def buf_acquiresleep_def)
  moreover have "slot_for s bn b"
    using Some by (auto simp: slot_for_def cached_iff [OF inv])
  moreover have "b_dev (bcache s b) = ROOTDEV" "b_blockno (bcache s b) = bn"
    using Some by (simp_all add: cached_iff [OF inv])
  ultimately show ?thesis
    using Some by (intro that [of b ?x]) (simp_all add: refof_def)
next
  case None
  have "List.find (\<lambda>b. b_refcnt (bcache s b) = 0) (rev (lru s)) \<noteq> None"
    using None av binvD(1) [OF inv] by (auto simp: find_None_iff avail_def links_ok_def)
  then obtain b where f: "List.find (\<lambda>b. b_refcnt (bcache s b) = 0) (rev (lru s)) = Some b"
    by auto
  then have b: "b \<in> set (lru s)" "b_refcnt (bcache s b) = 0"
    using find_SomeD [OF f] by simp_all
  then have slot: "slot_for s bn b"
    using None binvD(1) [OF inv] by (simp add: slot_for_def links_ok_def)
  let ?x = "(bcache s b)\<lparr>b_dev := ROOTDEV, b_blockno := bn, b_valid := False, b_refcnt := 1,
     b_lock := held_by (mypid s)\<rparr>"
  have "\<not> lk_locked (b_lock (bcache s b))"
    using slot b(2) binvD(2) [OF inv, of b] by (auto simp: buf_ok_def slot_for_def)
  then have "bget ROOTDEV bn s = Ret b (s\<lparr>bcache := (bcache s)(b := ?x)\<rparr>)"
    by (simp add: bget_def find_cached [OF inv] None find_victim [OF binvD(1) [OF inv]] f
        upd_buf_def buf_acquiresleep_def)
  with slot show ?thesis
    using None by (intro that [of b ?x]) (auto simp: refof_def)
qed

lemma bread_ret:
  assumes inv: "binv s" and av: "avail s bn" and bn: "bn < LOGICAL_DISK_SIZE"
    and nf: "\<not> use_fallback bn s"
  obtains b where "slot_for s bn b"
    and "bread ROOTDEV bn s =
      Ret b (s\<lparr>bcache := (bcache s)(b := held_buf (mypid s) bn (refof s bn + 1) (view s bn))\<rparr>)"
proof -
  obtain b x where slot: "slot_for s bn b"
    and g: "bget ROOTDEV bn s = Ret b (s\<lparr>bcache := (bcache s)(b := x)\<rparr>)"
    and x: "b_dev x = ROOTDEV" "b_blockno x = bn" "b_lock x = held_by (mypid s)"
      "b_refcnt x = refof s bn + 1"
    and v: "b_valid x \<longleftrightarrow> cached s bn = Some b \<and> b_valid (bcache s b)"
      "b_valid x \<Longrightarrow> b_data x = b_data (bcache s b)"
    using bget_ret [OF inv av] by blast
  have nf': "\<not> use_fallback bn (s\<lparr>bcache := bc\<rparr>)" for bc
    using nf by (simp add: use_fallback_def)
  show ?thesis
  proof (cases "b_valid x")
    case True
    then have "x = held_buf (mypid s) bn (refof s bn + 1) (view s bn)"
           using x v bn by (cases x) (simp add: view_def)
    with True g nf' show ?thesis
      by (intro that [OF slot]) (simp add: bread_def Let_def)
  next
    case False
    have "view s bn = disk s bn"
      using False v(1) slot bn by (auto simp: view_def slot_for_def split: option.splits)
    then have eq: "x\<lparr>b_data := disk s bn, b_valid := True, b_blockno := bn\<rparr> =
        held_buf (mypid s) bn (refof s bn + 1) (view s bn)"
      using x by (cases x) simp
    show ?thesis
      by (rule that [OF slot], unfold eq [symmetric])
         (simp add: bread_def Let_def upd_buf_def disk_rw_def g nf' False x(2))
  qed
qed

lemma bwrite_ret:
  assumes "nofail s" and "bcache s b = held_buf (mypid s) bn r d"
  shows "bwrite b s =
    Ret () (s\<lparr>disk := (disk s)(bn := d, bn + DISK1_START_BLOCK := d),
              dtrace := dtrace s @ [(bn, d), (bn + DISK1_START_BLOCK, d)],
              conslog := conslog s @
                [BW_DIAG (int bn) (int (bn + DISK1_START_BLOCK)) (force_disk_fail_id s) False,
                 BW_ATTEMPT_PBN0 (int bn), BW_ATTEMPT_PBN1 (int (bn + DISK1_START_BLOCK))]\<rparr>)"
  using assms
  by (simp add: bwrite_def Let_def nofail_def bw_print_def upd_buf_def disk_rw_def)
     (rule bstate.equality; simp add: fun_upd_idem)

lemma brelse_ret:
  assumes "links_ok s" and "b < NBUF" and h: "bcache s b = held_buf (mypid s) bn r d"
  obtains nx pv where
    "brelse b s = Ret () (s\<lparr>bcache := (bcache s)(b := (held_buf (mypid s) bn (r - 1) d)\<lparr>b_lock := initsleeplock\<rparr>),
                            b_next := nx, b_prev := pv\<rparr>)"
    and "links_ok (s\<lparr>b_next := nx, b_prev := pv\<rparr>)"
    and "lru (s\<lparr>b_next := nx, b_prev := pv\<rparr>) =
       (if r = 1 then b # remove1 b (lru s) else lru s)"
proof -
  let ?bc = "(bcache s)(b := (held_buf (mypid s) bn (r - 1) d)\<lparr>b_lock := initsleeplock\<rparr>)"
  let ?t = "s\<lparr>bcache := ?bc\<rparr>"
  let ?u = "link_front b (unlink_buf b ?t)"
  have lt: "links_ok ?t" "lru ?t = lru s"
    using assms(1) by (simp_all add: links_ok_def lru_def)
  have u: "?u = s\<lparr>bcache := ?bc, b_next := b_next ?u, b_prev := b_prev ?u\<rparr>"
    by (simp add: link_front_def unlink_buf_def Let_def)
  show ?thesis
  proof (cases "r = 1")
    case True
    have "brelse b s = Ret () ?u"
      using h True by (simp add: brelse_def upd_buf_def releasesleep_eq)
    then have "brelse b s = Ret () (s\<lparr>bcache := ?bc, b_next := b_next ?u, b_prev := b_prev ?u\<rparr>)"
      using u by simp
    moreover have "links_ok ?u" "lru ?u = b # remove1 b (lru ?t)"
      using move_to_front [OF lt(1) assms(2)] by simp_all
    then have "links_ok (s\<lparr>b_next := b_next ?u, b_prev := b_prev ?u\<rparr>)"
      "lru (s\<lparr>b_next := b_next ?u, b_prev := b_prev ?u\<rparr>) = b # remove1 b (lru s)"
      using lt(2) by (simp_all add: links_ok_def lru_def)
    ultimately show ?thesis
      using True by (intro that) auto
  next
    case False
    then have "r - 1 \<noteq> 0" by simp
    then have "brelse b s = Ret () ?t"
      using h by (simp add: brelse_def upd_buf_def releasesleep_eq)
    then show ?thesis
      using assms(1) False by (intro that [where nx = "b_next s" and pv = "b_prev s"]) auto
  qed
qed

section \<open>Held buffers\<close>

text \<open>
  \<open>holds s b bn\<close>: the current process has the buffer \<open>b\<close> of block \<open>bn\<close>, locked and valid, as
  after \<^verbatim>\<open>bread\<close>. \<open>refd s\<close> are the blocks whose buffers are referenced, \<open>lockd s\<close> those whose
  buffers are locked.
\<close>

definition holds :: "'x bstate_scheme \<Rightarrow> nat \<Rightarrow> nat \<Rightarrow> bool" where
  "holds s b bn \<longleftrightarrow>
     b < NBUF \<and> b_valid (bcache s b) \<and> b_dev (bcache s b) = ROOTDEV \<and>
     b_blockno (bcache s b) = bn \<and> b_lock (bcache s b) = held_by (mypid s) \<and>
     b_refcnt (bcache s b) \<noteq> 0"

definition refd :: "'x bstate_scheme \<Rightarrow> nat set" where
  "refd s = {bn. refof s bn \<noteq> 0}"

definition lockd :: "'x bstate_scheme \<Rightarrow> nat set" where
  "lockd s = {b_blockno (bcache s b) | b.
     b < NBUF \<and> b_dev (bcache s b) = ROOTDEV \<and> lk_locked (b_lock (bcache s b))}"

lemma holds_buf:
  assumes "binv s" and "holds s b bn"
  shows "b < NBUF" and "bn < LOGICAL_DISK_SIZE" and "cached s bn = Some b"
    and "bcache s b = held_buf (mypid s) bn (refof s bn) (view s bn)"
    and "refof s bn \<noteq> 0"
proof -
  show b: "b < NBUF" using assms(2) by (simp add: holds_def)
  show c: "cached s bn = Some b"
    using assms by (simp add: cached_iff holds_def)
  show bn: "bn < LOGICAL_DISK_SIZE"
    using assms binvD(2) [OF assms(1) b] by (auto simp: holds_def buf_ok_def)
  show "bcache s b = held_buf (mypid s) bn (refof s bn) (view s bn)"
    using assms(2) c bn by (cases "bcache s b") (simp add: holds_def refof_def view_def)
  show "refof s bn \<noteq> 0"
    using assms(2) c by (simp add: holds_def refof_def)
qed

lemma finite_refd: "finite (refd s)"
proof -
  have "refd s \<subseteq> (\<lambda>b. b_blockno (bcache s b)) ` {..<NBUF}"
  proof
    fix bn assume "bn \<in> refd s"
    then obtain b where "cached s bn = Some b"
      by (auto simp: refd_def refof_def split: option.splits)
    then have "b < NBUF \<and> b_blockno (bcache s b) = bn"
      using find_SomeD unfolding cached_def by fastforce
    then show "bn \<in> (\<lambda>b. b_blockno (bcache s b)) ` {..<NBUF}" by auto
  qed
  then show ?thesis by (rule finite_subset) simp
qed

lemma free_slot:
  assumes inv: "binv s" and "card (refd s) < NBUF"
  shows "\<exists>b<NBUF. b_refcnt (bcache s b) = 0"
proof (rule ccontr)
  assume "\<not> ?thesis"
  then have nz: "b_refcnt (bcache s b) \<noteq> 0" if "b < NBUF" for b
    using that by blast
  then have dev: "b_dev (bcache s b) = ROOTDEV" if "b < NBUF" for b
    using that binvD(2) [OF inv that] by (auto simp: buf_ok_def)
  have inj: "inj_on (\<lambda>b. b_blockno (bcache s b)) {..<NBUF}"
    by (rule inj_onI) (use binvD(3) [OF inv] dev in auto)
  have "(\<lambda>b. b_blockno (bcache s b)) ` {..<NBUF} \<subseteq> refd s"
  proof
    fix bn assume "bn \<in> (\<lambda>b. b_blockno (bcache s b)) ` {..<NBUF}"
    then obtain b where b: "b < NBUF" "bn = b_blockno (bcache s b)" by auto
    then have "cached s bn = Some b" using dev by (simp add: cached_iff [OF inv])
    with nz b show "bn \<in> refd s" by (simp add: refd_def refof_def)
  qed
  then have "card ((\<lambda>b. b_blockno (bcache s b)) ` {..<NBUF}) \<le> card (refd s)"
    by (rule card_mono [OF finite_refd])
  with inj assms(2) show False by (simp add: card_image)
qed

text \<open>When a \<^verbatim>\<open>bread\<close> of the block is sure to return a buffer.\<close>

definition readable :: "'x bstate_scheme \<Rightarrow> nat \<Rightarrow> bool" where
  "readable s bn \<longleftrightarrow>
     bn < LOGICAL_DISK_SIZE \<and> bn \<notin> lockd s \<and> refof s bn \<noteq> - 1 \<and>
     (refof s bn \<noteq> 0 \<or> card (refd s) < NBUF)"

lemma readable_avail:
  assumes inv: "binv s" and "readable s bn"
  shows "avail s bn"
proof (cases "cached s bn")
  case None
  then have "refof s bn = 0" by (simp add: refof_def)
  with assms None show ?thesis
    by (auto simp: avail_def readable_def intro: free_slot)
next
  case (Some b)
  then have "b < NBUF \<and> b_dev (bcache s b) = ROOTDEV \<and> b_blockno (bcache s b) = bn"
    by (simp add: cached_iff [OF inv])
  with assms(2) have "\<not> lk_locked (b_lock (bcache s b))"
    by (auto simp: readable_def lockd_def)
  with Some show ?thesis by (simp add: avail_def)
qed

text \<open>How storing a buffer record changes the derived views of the other buffers.\<close>

lemma put_buf_lockd:
  assumes inv: "binv s" and slot: "slot_for s bn b"
    and x: "b_dev x = ROOTDEV" "b_blockno x = bn"
    and t: "bcache t = (bcache s)(b := x)"
    and free: "cached s bn = None \<Longrightarrow> \<not> lk_locked (b_lock (bcache s b))"
  shows "lockd t = (if lk_locked (b_lock x) then insert bn (lockd s) else lockd s - {bn})"
proof -
  have b: "b < NBUF" using slot by (simp add: slot_for_def)
  have uniq: "j = b"
    if "j < NBUF" "b_dev (bcache s j) = ROOTDEV" "b_blockno (bcache s j) = bn" for j
    using slot that cached_iff [OF inv, of bn j] by (auto simp: slot_for_def)
  have old: "b_blockno (bcache s b) = bn"
    if "b_dev (bcache s b) = ROOTDEV" "lk_locked (b_lock (bcache s b))"
    using slot that free by (auto simp: slot_for_def cached_iff [OF inv])
  show ?thesis
  proof (intro set_eqI iffI)
    fix n assume "n \<in> lockd t"
    then obtain j where j: "j < NBUF" "b_dev (bcache t j) = ROOTDEV"
      "lk_locked (b_lock (bcache t j))" "n = b_blockno (bcache t j)"
      by (auto simp: lockd_def)
    show "n \<in> (if lk_locked (b_lock x) then insert bn (lockd s) else lockd s - {bn})"
    proof (cases "j = b")
      case True
      with j t x show ?thesis by auto
    next
      case False
      with j t have "n \<in> lockd s" by (auto simp: lockd_def)
      moreover have "n \<noteq> bn" using False j t uniq [of j] by auto
      ultimately show ?thesis by auto
    qed
  next
    fix n assume n: "n \<in> (if lk_locked (b_lock x) then insert bn (lockd s) else lockd s - {bn})"
    show "n \<in> lockd t"
    proof (cases "n = bn")
      case True
      with n have "lk_locked (b_lock x)" by (auto split: if_splits)
      with True b x t show ?thesis unfolding lockd_def by (auto intro!: exI [of _ b])
    next
      case False
      with n have "n \<in> lockd s" by (auto split: if_splits)
      then obtain j where j: "j < NBUF" "b_dev (bcache s j) = ROOTDEV"
        "lk_locked (b_lock (bcache s j))" "n = b_blockno (bcache s j)"
        by (auto simp: lockd_def)
      have "j \<noteq> b" using j old False by auto
      with j t show ?thesis unfolding lockd_def by (auto intro!: exI [of _ j])
    qed
  qed
qed

lemma put_buf_holds:
  assumes inv: "binv s" and slot: "slot_for s bn b"
    and t: "bcache t = (bcache s)(b := x)" "mypid t = mypid s"
    and h: "holds s b' bn'" and ne: "bn' \<noteq> bn"
  shows "holds t b' bn'"
proof -
  have "b' \<noteq> b"
  proof
    assume "b' = b"
    with h ne slot show False
      using cached_iff [OF inv, of bn b] by (auto simp: holds_def slot_for_def)
  qed
  with h t show ?thesis by (simp add: holds_def)
qed

section \<open>The laws of the buffer interface\<close>

text \<open>
  Each operation changes only the cache proper (and the medium, for \<^verbatim>\<open>bwrite\<close>): \<open>cache_only s t\<close>
  says that nothing but the buffers and their links differ.
\<close>

definition cache_only :: "'x bstate_scheme \<Rightarrow> 'x bstate_scheme \<Rightarrow> bool" where
  "cache_only s t \<longleftrightarrow> (\<exists>bc nx pv. t = s\<lparr>bcache := bc, b_next := nx, b_prev := pv\<rparr>)"

lemma cached_cong: "bcache t = bcache s \<Longrightarrow> cached t = cached s"
  by (simp add: cached_def fun_eq_iff)

lemma view_cong: "bcache t = bcache s \<Longrightarrow> disk t = disk s \<Longrightarrow> view t = view s"
  by (rule ext) (simp add: view_def cached_cong [of t s] split: option.split)

lemma refof_cong: "bcache t = bcache s \<Longrightarrow> refof t = refof s"
  by (rule ext) (simp add: refof_def cached_cong [of t s] split: option.split)

lemma cache_onlyI: "t = s\<lparr>bcache := bc, b_next := nx, b_prev := pv\<rparr> \<Longrightarrow> cache_only s t"
  by (auto simp: cache_only_def)

lemma cache_only_refl: "cache_only s s"
  by (rule cache_onlyI [where bc = "bcache s" and nx = "b_next s" and pv = "b_prev s"]) simp

lemma cache_only_bcache: "cache_only s (s\<lparr>bcache := bc\<rparr>)"
  by (rule cache_onlyI [where bc = bc and nx = "b_next s" and pv = "b_prev s"]) simp

lemma cache_only_trans: "cache_only s t \<Longrightarrow> cache_only t u \<Longrightarrow> cache_only s u"
  by (auto simp: cache_only_def) (rule exI, rule exI, rule exI, rule refl)

lemma cache_onlyD:
  "cache_only s t \<Longrightarrow> disk t = disk s \<and> dtrace t = dtrace s \<and> mypid t = mypid s \<and>
     conslog t = conslog s \<and> force_disk_fail_id t = force_disk_fail_id s \<and>
     force_read_error_pbn t = force_read_error_pbn s"
  by (auto simp: cache_only_def)

lemma cache_only_nofail: "cache_only s t \<Longrightarrow> nofail t = nofail s"
  by (auto simp: cache_only_def nofail_def)

lemma nofail_no_fallback: "nofail s \<Longrightarrow> \<not> use_fallback bn s"
  by (auto simp: nofail_def use_fallback_def)

lemma slot_unlocked:
  assumes "binv s" and "slot_for s bn b" and "cached s bn = None"
  shows "\<not> lk_locked (b_lock (bcache s b))"
  using assms binvD(2) [OF assms(1), of b] by (auto simp: slot_for_def buf_ok_def)

lemma bread_law:
  assumes inv: "binv s" and r: "readable s bn" and nf: "nofail s"
  obtains b t where "bread ROOTDEV bn s = Ret b t" and "binv t" and "holds t b bn"
    and "view t = view s" and "refof t = (refof s)(bn := refof s bn + 1)"
    and "lockd t = insert bn (lockd s)" and "cache_only s t"
    and "\<And>b' bn'. holds s b' bn' \<Longrightarrow> holds t b' bn'"
proof -
  have bn: "bn < LOGICAL_DISK_SIZE" "bn \<notin> lockd s" and r1: "refof s bn + 1 \<noteq> 0"
    using r by (auto simp: readable_def eq_neg_iff_add_eq_0)
  let ?x = "held_buf (mypid s) bn (refof s bn + 1) (view s bn)"
  obtain b where slot: "slot_for s bn b"
    and br: "bread ROOTDEV bn s = Ret b (s\<lparr>bcache := (bcache s)(b := ?x)\<rparr>)"
    using bread_ret [OF inv readable_avail [OF inv r] bn(1) nofail_no_fallback [OF nf]] .
  let ?t = "s\<lparr>bcache := (bcache s)(b := ?x)\<rparr>"
  have ok: "buf_ok s ?x"
    using bn r1 by (simp add: buf_ok_def)
  note put = put_buf [OF inv slot _ _ ok refl, simplified]
  show ?thesis
  proof (rule that [OF br])
    show "binv ?t" by (rule put)
    show "holds ?t b bn"
      using slot r1 by (simp add: holds_def slot_for_def)
    show "view ?t = view s" using put(3) bn by simp
    show "refof ?t = (refof s)(bn := refof s bn + 1)" by (rule put)
    show "lockd ?t = insert bn (lockd s)"
      by (subst put_buf_lockd [OF inv slot, where x = ?x]) (simp_all add: slot_unlocked [OF inv slot])
    show "cache_only s ?t" by (rule cache_only_bcache)
    fix b' bn' assume h: "holds s b' bn'"
    then have "bn' \<in> lockd s" by (auto simp: holds_def lockd_def)
    with bn have ne: "bn' \<noteq> bn" by auto
    show "holds ?t b' bn'"
      by (rule put_buf_holds [OF inv slot _ _ h ne, where x = ?x]) simp_all
  qed
qed

lemma holds_slot: "binv s \<Longrightarrow> holds s b bn \<Longrightarrow> slot_for s bn b"
  using holds_buf(1,3) [of s b bn] by (simp add: slot_for_def)

text \<open>Any update of the data and of the reference count of a held buffer.\<close>

lemma upd_held_law:
  assumes inv: "binv s" and h: "holds s b bn" and r: "r \<noteq> 0"
    and x: "x = held_buf (mypid s) bn r d"
    and t: "t = s\<lparr>bcache := (bcache s)(b := x)\<rparr>"
  shows "binv t" and "holds t b' bn' = holds s b' bn'" and "view t = (view s)(bn := d)"
    and "refof t = (refof s)(bn := r)" and "lockd t = lockd s" and "cache_only s t"
proof -
  note hb = holds_buf [OF inv h]
  have slot: "slot_for s bn b" by (rule holds_slot [OF inv h])
  have ok: "buf_ok s x"
    using hb r by (simp add: x buf_ok_def)
  have bx: "b_dev x = ROOTDEV" "b_blockno x = bn" by (simp_all add: x)
  note put = put_buf [OF inv slot bx ok t]
  show "binv t" by (rule put)
  show "view t = (view s)(bn := d)" using put(3) hb(2) by (simp add: x)
  show "refof t = (refof s)(bn := r)" using put(4) by (simp add: x)
  have "bn \<in> lockd s" using h by (auto simp: holds_def lockd_def)
  then show "lockd t = lockd s"
    using put_buf_lockd [OF inv slot bx, where t = t] slot_unlocked [OF inv slot]
    by (auto simp: t x)
  show "cache_only s t" unfolding t by (rule cache_only_bcache)
  show "holds t b' bn' = holds s b' bn'"
    using hb(4,5) r hb(1) by (auto simp: holds_def t x)
qed

definition upd_data :: "nat \<Rightarrow> (block \<Rightarrow> block) \<Rightarrow> ('x bstate_scheme, unit) kernel" where
  "upd_data b f = upd_buf b (\<lambda>x. x\<lparr>b_data := f (b_data x)\<rparr>)"

lemma upd_data_law:
  assumes inv: "binv s" and h: "holds s b bn"
  obtains t where "upd_data b f s = Ret () t" and "binv t"
    and "\<And>b' bn'. holds t b' bn' = holds s b' bn'"
    and "view t = (view s)(bn := f (view s bn))" and "refof t = refof s" and "lockd t = lockd s"
    and "cache_only s t"
proof -
  let ?x = "held_buf (mypid s) bn (refof s bn) (f (view s bn))"
  have eq: "upd_data b f s = Ret () (s\<lparr>bcache := (bcache s)(b := ?x)\<rparr>)"
    using holds_buf [OF inv h] by (simp add: upd_data_def upd_buf_def)
  note L = upd_held_law [OF inv h holds_buf(5) [OF inv h] refl refl, of "f (view s bn)"]
  show ?thesis by (rule that [OF eq L(1,2,3) _ L(5,6)]) (use L(4) in simp)
qed

lemma bpin_law:
  assumes inv: "binv s" and h: "holds s b bn" and r: "refof s bn \<noteq> - 1"
  obtains t where "bpin b s = Ret () t" and "binv t"
    and "\<And>b' bn'. holds t b' bn' = holds s b' bn'"
    and "view t = view s" and "refof t = (refof s)(bn := refof s bn + 1)" and "lockd t = lockd s"
    and "cache_only s t"
proof -
  let ?x = "held_buf (mypid s) bn (refof s bn + 1) (view s bn)"
  have r1: "refof s bn + 1 \<noteq> 0" using r by (auto simp: eq_neg_iff_add_eq_0)
  have eq: "bpin b s = Ret () (s\<lparr>bcache := (bcache s)(b := ?x)\<rparr>)"
    using holds_buf [OF inv h] by (simp add: bpin_def upd_buf_def)
  note L = upd_held_law [OF inv h r1 refl refl, of "view s bn"]
  show ?thesis by (rule that [OF eq L(1,2) _ L(4,5,6)]) (use L(3) in simp)
qed

lemma bunpin_law:
  assumes inv: "binv s" and h: "holds s b bn" and r: "refof s bn \<noteq> 1"
  obtains t where "bunpin b s = Ret () t" and "binv t"
    and "\<And>b' bn'. holds t b' bn' = holds s b' bn'"
    and "view t = view s" and "refof t = (refof s)(bn := refof s bn - 1)" and "lockd t = lockd s"
    and "cache_only s t"
proof -
  let ?x = "held_buf (mypid s) bn (refof s bn - 1) (view s bn)"
  have r1: "refof s bn - 1 \<noteq> 0" using r by auto
  have eq: "bunpin b s = Ret () (s\<lparr>bcache := (bcache s)(b := ?x)\<rparr>)"
    using holds_buf [OF inv h] by (simp add: bunpin_def upd_buf_def)
  note L = upd_held_law [OF inv h r1 refl refl, of "view s bn"]
  show ?thesis by (rule that [OF eq L(1,2) _ L(4,5,6)]) (use L(3) in simp)
qed

lemma brelse_law:
  assumes inv: "binv s" and h: "holds s b bn" and c: "refof s bn = 1 \<Longrightarrow> view s bn = disk s bn"
  obtains t where "brelse b s = Ret () t" and "binv t"
    and "\<And>b' bn'. bn' \<noteq> bn \<Longrightarrow> holds s b' bn' \<Longrightarrow> holds t b' bn'"
    and "view t = view s" and "refof t = (refof s)(bn := refof s bn - 1)"
    and "lockd t = lockd s - {bn}" and "cache_only s t" and "cached t bn = Some b"
proof -
  note hb = holds_buf [OF inv h]
  let ?x = "(held_buf (mypid s) bn (refof s bn - 1) (view s bn))\<lparr>b_lock := initsleeplock\<rparr>"
  let ?u = "s\<lparr>bcache := (bcache s)(b := ?x)\<rparr>"
  have slot: "slot_for s bn b" by (rule holds_slot [OF inv h])
  have ok: "buf_ok s ?x"
    using c hb by (auto simp: buf_ok_def)
  obtain nx pv where br: "brelse b s = Ret () (?u\<lparr>b_next := nx, b_prev := pv\<rparr>)"
    and lk: "links_ok (s\<lparr>b_next := nx, b_prev := pv\<rparr>)"
    by (rule brelse_ret [OF binvD(1) [OF inv] hb(1) hb(4)]) (rule that)
  let ?t = "?u\<lparr>b_next := nx, b_prev := pv\<rparr>"
  note put = put_buf [OF inv slot _ _ ok refl, simplified]
  show ?thesis
  proof (rule that [OF br])
    show "binv ?t"
      using put(1) lk by (simp add: binv_def buf_ok_def links_ok_def lru_def)
    have "view ?t = view ?u" by (rule view_cong) simp_all
    then show "view ?t = view s" using put(3) hb(2) by simp
    have "refof ?t = refof ?u" by (rule refof_cong) simp
    then show "refof ?t = (refof s)(bn := refof s bn - 1)" using put(4) by simp
    show "lockd ?t = lockd s - {bn}"
      by (subst put_buf_lockd [OF inv slot, where x = ?x]) (simp_all add: slot_unlocked [OF inv slot])
    show "cache_only s ?t" by (rule cache_onlyI) simp
    have "cached ?t = cached ?u" by (rule cached_cong) simp
    then show "cached ?t bn = Some b" using put(2) by simp
    show "holds ?t b' bn'" if "bn' \<noteq> bn" "holds s b' bn'" for b' bn'
      by (rule put_buf_holds [OF inv slot _ _ that(2,1), where x = ?x]) simp_all
  qed
qed

definition bframe :: "'x bstate_scheme \<Rightarrow> 'x bstate_scheme \<Rightarrow> bool" where
  "bframe s t \<longleftrightarrow> (\<exists>bc nx pv dk tr cl. t = s\<lparr>bcache := bc, b_next := nx, b_prev := pv,
     disk := dk, dtrace := tr, conslog := cl\<rparr>)"

lemma bframe_trans: "bframe s t \<Longrightarrow> bframe t u \<Longrightarrow> bframe s u"
  by (auto simp: bframe_def) (rule exI, rule exI, rule exI, rule exI, rule exI, rule exI, rule refl)

lemma bframeI: "bframe s (s\<lparr>disk := dk, dtrace := tr, conslog := cl\<rparr>)"
proof -
  have "s\<lparr>disk := dk, dtrace := tr, conslog := cl\<rparr> =
     s\<lparr>bcache := bcache s, b_next := b_next s, b_prev := b_prev s, disk := dk, dtrace := tr, conslog := cl\<rparr>"
    by simp
  then show ?thesis unfolding bframe_def by blast
qed

lemma cache_only_bframe: "cache_only s t \<Longrightarrow> bframe s t"
proof -
  assume "cache_only s t"
  then obtain bc nx pv where t: "t = s\<lparr>bcache := bc, b_next := nx, b_prev := pv\<rparr>"
    by (auto simp: cache_only_def)
  have "t = s\<lparr>bcache := bc, b_next := nx, b_prev := pv,
     disk := disk s, dtrace := dtrace s, conslog := conslog s\<rparr>" by (simp add: t)
  then show "bframe s t" unfolding bframe_def by blast
qed

lemma bwrite_law:
  assumes inv: "binv s" and nf: "nofail s" and h: "holds s b bn"
  obtains t where "bwrite b s = Ret () t" and "binv t" and "nofail t"
    and "\<And>b' bn'. holds t b' bn' = holds s b' bn'"
    and "view t = view s" and "refof t = refof s" and "lockd t = lockd s"
    and "disk t = (disk s)(bn := view s bn, bn + DISK1_START_BLOCK := view s bn)"
    and "dtrace t = dtrace s @ [(bn, view s bn), (bn + DISK1_START_BLOCK, view s bn)]"
    and "bframe s t"
proof -
  note hb = holds_buf [OF inv h]
  let ?d = "view s bn"
  obtain t cl where br: "bwrite b s = Ret () t"
    and tt: "t = s\<lparr>disk := (disk s)(bn := ?d, bn + DISK1_START_BLOCK := ?d),
      dtrace := dtrace s @ [(bn, ?d), (bn + DISK1_START_BLOCK, ?d)], conslog := cl\<rparr>"
    by (rule that) (rule bwrite_ret [OF nf hb(4)], rule refl)
  then have t: "bcache t = bcache s" "b_next t = b_next s" "b_prev t = b_prev s" "mypid t = mypid s"
      "disk t = (disk s)(bn := ?d, bn + DISK1_START_BLOCK := ?d)"
      "dtrace t = dtrace s @ [(bn, ?d), (bn + DISK1_START_BLOCK, ?d)]" "nofail t" "bframe s t"
    using nf by (simp_all add: nofail_def bframeI)
  have low: "disk t n = (if n = bn then ?d else disk s n)" if "n < LOGICAL_DISK_SIZE" for n
    using that hb(2) by (simp add: t kconsts)
  have c: "cached t = cached s" by (rule cached_cong [OF t(1)])
  have vw: "view t = view s"
  proof
    fix n
    have "view t bn = b_data (bcache s b)"
      using hb(2,3,4) by (simp add: view_def [of t] c t(1))
    moreover have "n \<noteq> bn \<Longrightarrow> view t n = view s n"
      using low [of n] by (simp add: view_def c t(1) split: option.split)
    ultimately show "view t n = view s n" using hb(4) by (cases "n = bn") simp_all
  qed
  show ?thesis
  proof (rule that [OF br _ t(7) _ vw _ _ t(5,6,8)])
    have own: "bn = b_blockno (bcache s j) \<longrightarrow> b_data (bcache s j) = ?d"
      if "j < NBUF" "b_dev (bcache s j) = ROOTDEV" for j
    proof
      assume "bn = b_blockno (bcache s j)"
      with that have "cached s bn = Some j" by (simp add: cached_iff [OF inv])
      with hb(3,4) show "b_data (bcache s j) = ?d" by simp
    qed
    show "binv t"
      using inv own unfolding binv_def
      by (auto simp: buf_ok_def links_ok_cong [OF t(2,3)] t(1) low)
    show "\<And>b' bn'. holds t b' bn' = holds s b' bn'" by (simp add: holds_def t(1,4))
    show "refof t = refof s" by (rule refof_cong [OF t(1)])
    show "lockd t = lockd s" by (simp add: lockd_def t(1))
  qed
qed


lemma view_clean:
  assumes "binv s" and "bn < LOGICAL_DISK_SIZE" and "refof s bn = 0"
  shows "view s bn = disk s bn"
proof (cases "cached s bn")
  case None
  with assms(2) show ?thesis by (simp add: view_def)
next
  case (Some b)
  then have b: "b < NBUF" "b_blockno (bcache s b) = bn" by (simp_all add: cached_iff [OF assms(1)])
  have "b_refcnt (bcache s b) = 0" using Some assms(3) by (simp add: refof_def)
  with binvD(2) [OF assms(1) b(1)] b(2) Some assms(2) show ?thesis
    by (simp add: view_def buf_ok_def)
qed

text \<open>The buffer cache provides the interface of \<open>block_cache\<close> while no failure is injected.\<close>

lemma refd_eq: "{n. refof s n \<noteq> 0} = refd s"
  by (simp add: refd_def)

lemmas bcache_laws = cache_onlyD cache_only_nofail cache_only_bframe refd_eq

interpretation bio: block_cache "bread ROOTDEV" upd_data bwrite bpin bunpin brelse
  "\<lambda>s b. b_data (bcache s b)" "\<lambda>s. binv s \<and> nofail s" holds view refof lockd disk dtrace bframe
  LOGICAL_DISK_SIZE NBUF DISK1_START_BLOCK
proof (unfold_locales, goal_cases rd upd wr pin unpin rel dat hold clean fin trans mir)
  case (rd s bn)
  then have "readable s bn" by (simp add: readable_def refd_eq)
  with rd show ?case
    by (elim conjE) (erule bread_law, assumption, assumption, metis bcache_laws)
next
  case (upd s b bn f)
  then show ?case
    by (elim conjE) (erule upd_data_law [where f = f], assumption, metis bcache_laws)
next
  case (wr s b bn)
  then show ?case
    by (elim conjE) (erule bwrite_law, assumption, assumption, metis)
next
  case (pin s b bn)
  then show ?case
    by (elim conjE) (erule bpin_law, assumption, assumption, metis bcache_laws)
next
  case (unpin s b bn)
  then show ?case
    by (elim conjE) (erule bunpin_law, assumption, assumption, metis bcache_laws)
next
  case (rel s b bn)
  then obtain t where "brelse b s = Ret () t" "binv t"
    "\<And>b' bn'. bn' \<noteq> bn \<Longrightarrow> holds s b' bn' \<Longrightarrow> holds t b' bn'"
    "view t = view s" "refof t = (refof s)(bn := refof s bn - 1)"
    "lockd t = lockd s - {bn}" "cache_only s t"
    using brelse_law [of s b bn] by metis
  with rel(1) show ?case by (metis bcache_laws)
next
  case (dat s b bn)
  then show ?case using holds_buf(4) [of s b bn] by simp
next
  case (hold s b bn)
  then show ?case
    using holds_buf(2,5) [of s b bn] by (auto simp: holds_def lockd_def)
next
  case (clean s bn)
  then show ?case by (simp add: view_clean)
next
  case (fin s)
  then show ?case using finite_refd [of s] by (simp add: refd_def)
next
  case (trans s t u)
  then show ?case by (rule bframe_trans)
next
  case mir
  then show ?case by (simp add: kconsts)
qed

section \<open>Reads while disk 0 or the block fails\<close>

lemma bread_fallback_ret:
  assumes inv: "binv s" and av: "avail s bn" and f: "use_fallback bn s"
  obtains b where "slot_for s bn b"
    and "bread ROOTDEV bn s =
      Ret b (s\<lparr>bcache := (bcache s)(b := held_buf (mypid s) bn (refof s bn + 1) (disk s (bn + DISK1_START_BLOCK)))\<rparr>)"
proof -
  obtain b x where slot: "slot_for s bn b"
    and g: "bget ROOTDEV bn s = Ret b (s\<lparr>bcache := (bcache s)(b := x)\<rparr>)"
    and x: "b_dev x = ROOTDEV" "b_blockno x = bn" "b_lock x = held_by (mypid s)"
      "b_refcnt x = refof s bn + 1"
    using bget_ret [OF inv av] by blast
  have f': "use_fallback bn (s\<lparr>bcache := bc\<rparr>)" for bc
    using f by (simp add: use_fallback_def)
  have eq: "x\<lparr>b_data := disk s (bn + DISK1_START_BLOCK), b_valid := True, b_blockno := bn\<rparr> =
      held_buf (mypid s) bn (refof s bn + 1) (disk s (bn + DISK1_START_BLOCK))"
    using x by (cases x) simp
  show ?thesis
    by (rule that [OF slot], unfold eq [symmetric])
       (simp add: bread_def Let_def upd_buf_def disk_rw_def g f' x(2))
qed

section \<open>A concrete cache\<close>

definition zero_bstate :: bstate where
  "zero_bstate =
     \<lparr>mypid = 1,
      bcache = (\<lambda>_. \<lparr>b_valid = False, b_dev = 0, b_blockno = 0, b_lock = initsleeplock,
                     b_refcnt = 0, b_data = (\<lambda>_. 0)\<rparr>),
      b_next = (\<lambda>_. 0), b_prev = (\<lambda>_. 0), disk = (\<lambda>bn _. word_of_nat bn), dtrace = [],
      force_read_error_pbn = - 1, force_disk_fail_id = - 1, conslog = []\<rparr>"

lemma nofail_binit_loop [simp]: "nofail (binit_loop b n s) = nofail s"
  by (induction n arbitrary: b s) (simp_all add: nofail_def link_front_def)

lemma zero_binv: "binv (binit zero_bstate)" "nofail (binit zero_bstate)" "cached (binit zero_bstate) bn = None"
  "refof (binit zero_bstate) bn = 0" "lockd (binit zero_bstate) = {}"
  "disk (binit zero_bstate) = (\<lambda>bn _. word_of_nat bn)" "b_refcnt (bcache (binit zero_bstate) b) = 0"
proof -
  let ?s = "binit zero_bstate"
  have bc: "b_dev (bcache ?s k) = 0 \<and> \<not> b_valid (bcache ?s k) \<and> b_refcnt (bcache ?s k) = 0 \<and>
      b_lock (bcache ?s k) = initsleeplock" for k
    by (simp add: binit_def binit_loop_bcache zero_bstate_def)
  show "binv ?s"
    using binit_lru(1) [of zero_bstate] bc by (simp add: binv_def buf_ok_def kconsts)
  show "nofail ?s" by (simp add: binit_def) (simp add: nofail_def zero_bstate_def)
  show c: "cached ?s bn = None" using bc by (simp add: cached_None_iff kconsts)
  show "refof ?s bn = 0" by (simp add: refof_def c)
  show "lockd ?s = {}" using bc by (simp add: lockd_def kconsts)
  show "disk ?s = (\<lambda>bn _. word_of_nat bn)" by (simp add: binit_def) (simp add: zero_bstate_def)
  show "b_refcnt (bcache ?s b) = 0" using bc by blast
qed

section \<open>Properties\<close>


text \<open>
  C8. Reading in degraded mode: when disk 0 or the block is failed, \<^verbatim>\<open>bread\<close> returns a locked buffer
  with the contents of the mirror block, counted once more. It does so even when the cache holds
  the block, so contents that were changed but not yet written are replaced by the mirror's.
\<close>

theorem bread_degraded:
  assumes "binv s" and "avail s bn" and "use_fallback bn s"
  shows "\<exists>b t. bread ROOTDEV bn s = Ret b t \<and> b < NBUF \<and>
     bcache t b = held_buf (mypid s) bn (refof s bn + 1) (disk s (bn + DISK1_START_BLOCK)) \<and>
     (\<forall>c. c \<noteq> b \<longrightarrow> bcache t c = bcache s c) \<and> disk t = disk s"
  by (rule bread_fallback_ret [OF assms]) (auto simp: slot_for_def)

theorem bread_degraded_witness:
  "use_fallback 5 ((binit zero_bstate)\<lparr>force_disk_fail_id := 0\<rparr>) \<and>
   (\<exists>b t. bread ROOTDEV 5 ((binit zero_bstate)\<lparr>force_disk_fail_id := 0\<rparr>) = Ret b t \<and>
      b_data (bcache t b) 0 = word_of_nat (5 + DISK1_START_BLOCK))"
proof -
  let ?s = "(binit zero_bstate)\<lparr>force_disk_fail_id := 0\<rparr>"
  have i: "binv ?s" using zero_binv(1) by (simp add: binv_def buf_ok_def links_ok_def lru_def)
  have "cached ?s 5 = None" using zero_binv(3) [of 5] by (simp add: cached_def)
  then have a: "avail ?s 5" using zero_binv(7) by (simp add: avail_def kconsts) (rule exI [of _ 0], simp)
  have f: "use_fallback 5 ?s" by (simp add: use_fallback_def)
  from bread_degraded [OF i a f] obtain b t where "bread ROOTDEV 5 ?s = Ret b t"
    "bcache t b = held_buf (mypid ?s) 5 (refof ?s 5 + 1) (disk ?s (5 + DISK1_START_BLOCK))" by blast
  with f show ?thesis by (simp add: zero_binv(6))
qed

text \<open>
  C6. Mirroring works: after a \<^verbatim>\<open>bwrite\<close> and \<^verbatim>\<open>brelse\<close> with both disks healthy, a \<^verbatim>\<open>bread\<close> of the block
  returns what was written, also when in the meantime disk 0 or the block has been failed.
\<close>

theorem mirrored_write_survives:
  assumes "binv s" and "nofail s" and "holds s b bn"
  shows "\<exists>t u. bwrite b s = Ret () t \<and> brelse b t = Ret () u \<and>
     (\<forall>fd fe. \<exists>c v. bread ROOTDEV bn (u\<lparr>force_disk_fail_id := fd, force_read_error_pbn := fe\<rparr>) = Ret c v \<and>
        b_data (bcache v c) = view s bn)"
proof -
  have bn: "bn < LOGICAL_DISK_SIZE" by (rule holds_buf(2) [OF assms(1,3)])
  obtain t where t: "bwrite b s = Ret () t" "binv t" "\<And>b' bn'. holds t b' bn' = holds s b' bn'"
    "view t = view s" "disk t = (disk s)(bn := view s bn, bn + DISK1_START_BLOCK := view s bn)"
    by (rule bwrite_law [OF assms]) (rule that; assumption)
  have "view t bn = disk t bn" using t(4,5) bn by (simp add: kconsts)
  then obtain u where u: "brelse b t = Ret () u" "binv u" "view u = view t" "lockd u = lockd t - {bn}"
      "cache_only t u" "cached u bn = Some b"
    using brelse_law [OF t(2), of b bn] t(3) assms(3) by metis
  have du: "disk u (bn + DISK1_START_BLOCK) = view s bn" "view u bn = view s bn"
    using cache_onlyD [OF u(5)] t(4,5) u(3) by simp_all
  have "\<exists>c v. bread ROOTDEV bn (u\<lparr>force_disk_fail_id := fd, force_read_error_pbn := fe\<rparr>) = Ret c v \<and>
        b_data (bcache v c) = view s bn" for fd fe
  proof -
    let ?u = "u\<lparr>force_disk_fail_id := fd, force_read_error_pbn := fe\<rparr>"
    have i: "binv ?u" using u(2) by (simp add: binv_def buf_ok_def links_ok_def lru_def)
    have c: "cached ?u = cached u" by (rule cached_cong) simp
    have v: "view ?u = view u" by (rule view_cong) simp_all
    have "\<not> lk_locked (b_lock (bcache u b))"
      using u(2,4,6) by (auto simp: cached_iff lockd_def)
    then have av: "avail ?u bn" using u(6) by (simp add: avail_def c)
    show ?thesis
    proof (cases "use_fallback bn ?u")
      case True
      show ?thesis by (rule bread_fallback_ret [OF i av True]) (use du in simp)
    next
      case False
      show ?thesis by (rule bread_ret [OF i av bn False]) (use du v in simp)
    qed
  qed
  with t(1) u(1) show ?thesis by blast
qed

text \<open>A buffer held after a \<^verbatim>\<open>bread\<close> of block 5 in a fresh cache.\<close>

definition sample_held :: bstate where
  "sample_held = (case bread ROOTDEV 5 (binit zero_bstate) of Ret b t \<Rightarrow> t | _ \<Rightarrow> binit zero_bstate)"

lemma sample_held: "\<exists>b. bread ROOTDEV 5 (binit zero_bstate) = Ret b sample_held \<and> binv sample_held \<and>
   nofail sample_held \<and> holds sample_held b 5 \<and> view sample_held 5 = (\<lambda>_. 5) \<and> refof sample_held 5 = 1"
proof -
  have "readable (binit zero_bstate) 5"
    by (simp add: readable_def zero_binv refd_def kconsts)
  then obtain b t where t: "bread ROOTDEV 5 (binit zero_bstate) = Ret b t" "binv t" "holds t b 5"
    "view t = view (binit zero_bstate)" "refof t = (refof (binit zero_bstate))(5 := refof (binit zero_bstate) 5 + 1)"
    "cache_only (binit zero_bstate) t"
    using bread_law [OF zero_binv(1) _ zero_binv(2)] by metis
  moreover have "view (binit zero_bstate) 5 = (\<lambda>_. 5)" by (simp add: view_def zero_binv kconsts)
  ultimately show ?thesis
    using cache_only_nofail [OF t(6)] by (auto simp: sample_held_def zero_binv)
qed

theorem mirrored_write_survives_witness:
  "\<exists>b. holds sample_held b 5 \<and>
     (\<exists>t u. bwrite b sample_held = Ret () t \<and> brelse b t = Ret () u \<and>
       (\<exists>c v. bread ROOTDEV 5 (u\<lparr>force_disk_fail_id := 0, force_read_error_pbn := - 1\<rparr>) = Ret c v \<and>
          b_data (bcache v c) = (\<lambda>_. 5)))"
proof -
  obtain b where b: "binv sample_held" "nofail sample_held" "holds sample_held b 5"
    "view sample_held 5 = (\<lambda>_. 5)" using sample_held by blast
  from mirrored_write_survives [OF b(1-3)] b(3,4) show ?thesis by metis
qed

text \<open>
  C7. A \<^verbatim>\<open>bread\<close> with both disks healthy is a read of the logical disk: it returns a locked buffer
  with the block's current contents (the cached ones if the cache has them), counts one more
  reference, keeps the cache invariant and changes neither the contents of any block nor the
  disks.
\<close>

theorem bread_correct:
  assumes "binv s" and "nofail s" and "readable s bn"
  shows "\<exists>b t. bread ROOTDEV bn s = Ret b t \<and> binv t \<and> holds t b bn \<and> b_data (bcache t b) = view s bn \<and>
     view t = view s \<and> refof t = (refof s)(bn := refof s bn + 1) \<and> disk t = disk s \<and> dtrace t = dtrace s"
proof (rule bread_law [OF assms(1,3,2)])
  fix b t
  assume "bread ROOTDEV bn s = Ret b t" "binv t" "holds t b bn" "view t = view s"
    "refof t = (refof s)(bn := refof s bn + 1)" "cache_only s t"
  then show ?thesis using holds_buf(4) [of t b bn] cache_onlyD [of s t] by auto
qed

theorem bread_correct_witness:
  "readable (binit zero_bstate) 5 \<and>
   (\<exists>b t. bread ROOTDEV 5 (binit zero_bstate) = Ret b t \<and> b_data (bcache t b) = (\<lambda>_. 5))"
proof -
  have r: "readable (binit zero_bstate) 5"
    by (simp add: readable_def zero_binv refd_def kconsts)
  have "view (binit zero_bstate) 5 = (\<lambda>_. 5)" by (simp add: view_def zero_binv kconsts)
  with bread_correct [OF zero_binv(1,2) r] r show ?thesis by auto
qed

text \<open>
  C9. Replacement is least recently used: a \<^verbatim>\<open>bget\<close> of a block that is not cached takes, of the
  buffers without references, the one at the far end of the list that \<^verbatim>\<open>brelse\<close> keeps (it moves a
  buffer to the front when the last reference is dropped), and panics when every buffer is
  referenced.
\<close>

theorem bget_takes_lru:
  assumes "binv s" and "cached s bn = None"
  shows "bget ROOTDEV bn s =
     (case List.find (\<lambda>b. b_refcnt (bcache s b) = 0) (rev (lru s)) of
        None \<Rightarrow> Panic ''bget: no buffers''
      | Some b \<Rightarrow> Ret b (s\<lparr>bcache := (bcache s)(b := (bcache s b)\<lparr>b_dev := ROOTDEV, b_blockno := bn,
          b_valid := False, b_refcnt := 1, b_lock := held_by (mypid s)\<rparr>)\<rparr>))"
proof (cases "List.find (\<lambda>b. b_refcnt (bcache s b) = 0) (rev (lru s))")
  case None
  then show ?thesis
    by (simp add: bget_def find_cached [OF assms(1)] assms(2) find_victim [OF binvD(1) [OF assms(1)]])
next
  case (Some b)
  then have "b < NBUF" "b_refcnt (bcache s b) = 0"
    using find_SomeD [OF Some] binvD(1) [OF assms(1)] by (auto simp: links_ok_def)
  then have "\<not> lk_locked (b_lock (bcache s b))"
    using binvD(2) [OF assms(1), of b] by (auto simp: buf_ok_def)
  with Some show ?thesis
    by (simp add: bget_def find_cached [OF assms(1)] assms(2) find_victim [OF binvD(1) [OF assms(1)]]
        upd_buf_def buf_acquiresleep_def)
qed

theorem bget_takes_lru_witness:
  "cached (binit zero_bstate) 5 = None \<and> (\<exists>t. bget ROOTDEV 5 (binit zero_bstate) = Ret 0 t)"
proof -
  have "rev (lru (binit zero_bstate)) = 0 # [1..<NBUF]" by (simp add: binit_lru(2) kconsts upt_conv_Cons)
  with bget_takes_lru [OF zero_binv(1,3), of 5] show ?thesis by (simp add: zero_binv)
qed

text \<open>
  C10. \<^verbatim>\<open>brelse\<close> of a held buffer releases its lock and drops one reference; the circular list stays
  well formed, and the buffer moves to its front exactly when that was the last reference.
\<close>

theorem brelse_moves_to_front:
  assumes "links_ok s" and "b < NBUF" and "bcache s b = held_buf (mypid s) bn r d"
  shows "\<exists>t. brelse b s = Ret () t \<and> links_ok t \<and> lru t = (if r = 1 then b # remove1 b (lru s) else lru s) \<and>
     b_refcnt (bcache t b) = r - 1 \<and> \<not> lk_locked (b_lock (bcache t b)) \<and> b_data (bcache t b) = d \<and>
     (\<forall>c. c \<noteq> b \<longrightarrow> bcache t c = bcache s c)"
  by (rule brelse_ret [OF assms]) (auto simp: links_ok_def lru_def)

theorem brelse_moves_to_front_witness:
  "\<exists>b t. holds sample_held b 5 \<and> brelse b sample_held = Ret () t \<and> hd (lru t) = b"
proof -
  obtain b where b: "binv sample_held" "holds sample_held b 5" "refof sample_held 5 = 1"
    using sample_held by blast
  note h = holds_buf [OF b(1,2)]
  from brelse_moves_to_front [OF binvD(1) [OF b(1)] h(1,4)] b show ?thesis by auto
qed

end
