(* ===== verification/Log.thy ===== *)
theory Log
  imports Bcache
begin

text \<open>
  The write-ahead log of \<^verbatim>\<open>kernel/log.c\<close>. \<open>lstate\<close> adds \<^verbatim>\<open>struct log\<close> to the state of the buffer
  cache. A process that would sleep in \<^verbatim>\<open>begin_op\<close> gives the outcome \<^const>\<open>Sleep\<close>: it runs the
  test again when it is woken. The \<^verbatim>\<open>wakeup\<close> calls change the process table only.
\<close>

definition MAXOPBLOCKS :: nat where [kconsts]: "MAXOPBLOCKS = 10"
definition LOGSIZE :: nat where "LOGSIZE = MAXOPBLOCKS * 3"

lemma LOGSIZE_val [kconsts]: "LOGSIZE = 30"
  by (simp add: LOGSIZE_def MAXOPBLOCKS_def)

record log =
  l_start :: nat
  l_size :: nat
  l_outstanding :: int
  l_committing :: bool
  l_dev :: nat
  lh_n :: int
  lh_block :: "nat \<Rightarrow> nat"

record lstate = bstate +
  log :: log

text \<open>A 32-bit pattern read as a C \<^verbatim>\<open>int\<close>.\<close>

definition as_int :: "nat \<Rightarrow> int" where
  "as_int v = (if v < 2 ^ 31 then int v else int v - 2 ^ 32)"

definition upd_log :: "(log \<Rightarrow> log) \<Rightarrow> ('x lstate_scheme, unit) kernel" where
  "upd_log f = kmod (\<lambda>s. s\<lparr>log := f (log s)\<rparr>)"

definition install_step :: "nat \<Rightarrow> ('x lstate_scheme, unit) kernel" where
  "install_step tail s =
     kbind (bread (l_dev (log s)) (l_start (log s) + tail + 1)) (\<lambda>lbuf.
     kbind (bread (l_dev (log s)) (lh_block (log s) tail)) (\<lambda>dbuf.
     kthen (\<lambda>s. upd_data dbuf (\<lambda>_. b_data (bcache s lbuf)) s)
    (kthen (bwrite dbuf)
    (kthen (bunpin dbuf)
    (kthen (brelse lbuf)
           (brelse dbuf)))))) s"

definition install_trans :: "('x lstate_scheme, unit) kernel" where
  "install_trans s = kfor 0 (nat (lh_n (log s))) install_step s"

definition read_head :: "('x lstate_scheme, unit) kernel" where
  "read_head s =
     kbind (bread (l_dev (log s)) (l_start (log s))) (\<lambda>b.
     kthen (\<lambda>s. upd_log (\<lambda>l. l\<lparr>lh_n := as_int (rd32 (b_data (bcache s b)) 0)\<rparr>) s)
    (kthen (\<lambda>s. kfor 0 (nat (lh_n (log s)))
              (\<lambda>i s. upd_log (\<lambda>l. l\<lparr>lh_block := (lh_block l)(i := rd32 (b_data (bcache s b)) (4 + 4 * i))\<rparr>) s) s)
           (brelse b))) s"

text \<open>What \<^verbatim>\<open>write_head\<close> stores into the header block's data.\<close>

definition put_head :: "log \<Rightarrow> block \<Rightarrow> block" where
  "put_head l d =
     wr_uints 4 (map (lh_block l) [0..<nat (lh_n l)]) (wr32 0 (nat (lh_n l mod 2 ^ 32)) d)"

definition write_head :: "('x lstate_scheme, unit) kernel" where
  "write_head s =
     kbind (bread (l_dev (log s)) (l_start (log s))) (\<lambda>b.
     kthen (upd_data b (put_head (log s)))
    (kthen (bwrite b)
           (brelse b))) s"

definition recover_from_log :: "('x lstate_scheme, unit) kernel" where
  "recover_from_log =
     kthen read_head
    (kthen install_trans
    (kthen (upd_log (\<lambda>l. l\<lparr>lh_n := 0\<rparr>))
           write_head))"

text \<open>
  \<^verbatim>\<open>sizeof(struct logheader)\<close> is \<open>4 + 4 * LOGSIZE\<close>; the superblock's \<^verbatim>\<open>logstart\<close> and \<^verbatim>\<open>nlog\<close> are
  the arguments.
\<close>

definition initlog :: "nat \<Rightarrow> nat \<Rightarrow> nat \<Rightarrow> ('x lstate_scheme, unit) kernel" where
  "initlog dev logstart nlog =
     (if 4 + 4 * LOGSIZE \<ge> BSIZE then kpanic ''initlog: too big logheader''
      else kthen (upd_log (\<lambda>l. l\<lparr>l_start := logstart, l_size := nlog, l_dev := dev\<rparr>))
                 recover_from_log)"

definition begin_op :: "('x lstate_scheme, unit) kernel" where
  "begin_op s =
     (if l_committing (log s) then Sleep ''log''
      else if lh_n (log s) + (l_outstanding (log s) + 1) * int MAXOPBLOCKS > int LOGSIZE
      then Sleep ''log''
      else upd_log (\<lambda>l. l\<lparr>l_outstanding := l_outstanding l + 1\<rparr>) s)"

definition write_log_step :: "nat \<Rightarrow> ('x lstate_scheme, unit) kernel" where
  "write_log_step tail s =
     kbind (bread (l_dev (log s)) (l_start (log s) + tail + 1)) (\<lambda>to.
     kbind (bread (l_dev (log s)) (lh_block (log s) tail)) (\<lambda>from.
     kthen (\<lambda>s. upd_data to (\<lambda>_. b_data (bcache s from)) s)
    (kthen (bwrite to)
    (kthen (brelse from)
           (brelse to))))) s"

definition write_log :: "('x lstate_scheme, unit) kernel" where
  "write_log s = kfor 0 (nat (lh_n (log s))) write_log_step s"

definition commit :: "('x lstate_scheme, unit) kernel" where
  "commit s =
     (if lh_n (log s) > 0
      then kthen write_log
          (kthen write_head
          (kthen install_trans
          (kthen (upd_log (\<lambda>l. l\<lparr>lh_n := 0\<rparr>))
                 write_head))) s
      else Ret () s)"

definition end_op :: "('x lstate_scheme, unit) kernel" where
  "end_op =
     kthen (upd_log (\<lambda>l. l\<lparr>l_outstanding := l_outstanding l - 1\<rparr>))
    (\<lambda>s. if l_committing (log s) then Panic ''log.committing''
         else if l_outstanding (log s) = 0
         then kthen (upd_log (\<lambda>l. l\<lparr>l_committing := True\<rparr>))
             (kthen commit
                    (upd_log (\<lambda>l. l\<lparr>l_committing := False\<rparr>))) s
         else Ret () s)"

text \<open>The search of \<^verbatim>\<open>log_write\<close> for a block already in the transaction.\<close>

primrec absorb :: "(nat \<Rightarrow> nat) \<Rightarrow> nat \<Rightarrow> nat \<Rightarrow> nat \<Rightarrow> nat" where
  "absorb blk blockno i 0 = i"
| "absorb blk blockno i (Suc k) = (if blk i = blockno then i else absorb blk blockno (Suc i) k)"

definition log_write :: "nat \<Rightarrow> ('x lstate_scheme, unit) kernel" where
  "log_write b s =
     (if lh_n (log s) \<ge> int LOGSIZE \<or> lh_n (log s) \<ge> int (l_size (log s)) - 1
      then Panic ''too big a transaction''
      else if l_outstanding (log s) < 1 then Panic ''log_write outside of trans''
      else
        let blockno = b_blockno (bcache s b);
            i = absorb (lh_block (log s)) blockno 0 (nat (lh_n (log s)))
        in kthen (upd_log (\<lambda>l. l\<lparr>lh_block := (lh_block l)(i := blockno)\<rparr>))
                 (if int i = lh_n (log s)
                  then kthen (bpin b) (upd_log (\<lambda>l. l\<lparr>lh_n := lh_n l + 1\<rparr>))
                  else kret ()) s)"

section \<open>The invariant of the log\<close>

definition logged :: "'x lstate_scheme \<Rightarrow> nat list" where
  "logged s = map (lh_block (log s)) [0..<nat (lh_n (log s))]"

definition log_area :: "'x lstate_scheme \<Rightarrow> nat set" where
  "log_area s = {l_start (log s)..<l_start (log s) + l_size (log s)}"

text \<open>
  The shape of the in-memory log: it fits the log area, and the blocks of the transaction are
  distinct blocks of the logical disk outside the log area.
\<close>

definition log_ok :: "'x lstate_scheme \<Rightarrow> bool" where
  "log_ok s \<longleftrightarrow>
     l_dev (log s) = ROOTDEV \<and> l_size (log s) \<le> LOGSIZE \<and>
     l_start (log s) + l_size (log s) \<le> LOGICAL_DISK_SIZE \<and>
     0 \<le> lh_n (log s) \<and> lh_n (log s) < int (l_size (log s)) \<and>
     distinct (logged s) \<and> (\<forall>bn\<in>set (logged s). bn < LOGICAL_DISK_SIZE \<and> bn \<notin> log_area s)"

text \<open>
  The blocks of the transaction are pinned: a block's buffer has one reference for the
  transaction and one for the process that holds it.
\<close>

definition pins_ok :: "'x lstate_scheme \<Rightarrow> bool" where
  "pins_ok s \<longleftrightarrow> (\<forall>bn. refof s bn =
     (if bn \<in> set (logged s) then 1 else 0) + (if bn \<in> lockd s then 1 else 0))"

definition linv :: "'x lstate_scheme \<Rightarrow> bool" where
  "linv s \<longleftrightarrow> binv s \<and> nofail s \<and> log_ok s \<and> pins_ok s"

text \<open>No buffer is held: the states between file system calls, and those in which \<^verbatim>\<open>commit\<close> runs.\<close>

definition quiet :: "'x lstate_scheme \<Rightarrow> bool" where
  "quiet s \<longleftrightarrow> linv s \<and> lockd s = {}"

lemma bframe_log [simp]: "bframe s t \<Longrightarrow> log (t :: 'x lstate_scheme) = log s"
  by (auto simp: bframe_def)

lemma bframe_logged [simp]: "bframe s t \<Longrightarrow> logged (t :: 'x lstate_scheme) = logged s"
  by (simp add: logged_def)

lemma bframe_log_ok: "bframe s t \<Longrightarrow> log_ok (t :: 'x lstate_scheme) = log_ok s"
  by (simp add: log_ok_def log_area_def)

lemma length_logged [simp]: "length (logged s) = nat (lh_n (log s))"
  by (simp add: logged_def)

lemma nth_logged: "i < nat (lh_n (log s)) \<Longrightarrow> logged s ! i = lh_block (log s) i"
  by (simp add: logged_def)

lemma lh_block_logged: "i < nat (lh_n (log s)) \<Longrightarrow> lh_block (log s) i \<in> set (logged s)"
  by (auto simp: logged_def)

lemma quietD:
  assumes "quiet s"
  shows "bio.idle s" and "log_ok s" and "refof s bn = (if bn \<in> set (logged s) then 1 else 0)"
    and "{bn. refof s bn \<noteq> 0} = set (logged s)"
  using assms by (auto simp: quiet_def linv_def bio.idle_def pins_ok_def)

lemma quietI:
  assumes "bio.idle t" and "log_ok t"
    and "\<And>bn. refof t bn = (if bn \<in> set (logged t) then 1 else 0)"
  shows "quiet t"
  using assms by (auto simp: quiet_def linv_def bio.idle_def pins_ok_def)

text \<open>
  With the transaction's blocks pinned there is still a buffer for one block of the log area:
  the log holds at most \<open>LOGSIZE - 1\<close> blocks and there are \<open>NBUF = LOGSIZE\<close> buffers.
\<close>

lemma quiet_room:
  assumes "log_ok s" and "{n. refof s n \<noteq> 0} \<subseteq> set (logged s)" and "\<And>n. n \<in> A \<Longrightarrow> refof s n \<noteq> - 1"
    and "A \<subseteq> insert bn (set (logged s))" and "bn < LOGICAL_DISK_SIZE"
  shows "bio.room s A"
proof -
  have n: "card (set (logged s)) \<le> 29" "\<forall>n\<in>set (logged s). n < LOGICAL_DISK_SIZE"
    using assms(1) card_length [of "logged s"] by (auto simp: log_ok_def kconsts)
  have "card (insert bn (set (logged s))) \<le> 30"
    using n(1) card_insert_le_m1 [of 30 "set (logged s)" bn] by simp
  moreover have "card (A \<union> {n. refof s n \<noteq> 0}) \<le> card (insert bn (set (logged s)))"
    using assms(2,4) by (intro card_mono) auto
  ultimately have "card (A \<union> {n. refof s n \<noteq> 0}) \<le> NBUF" by (simp add: kconsts)
  moreover have "finite A" using assms(4) by (rule finite_subset) simp
  ultimately show ?thesis
    using assms(3,4,5) n(2) by (auto simp: bio.room_def)
qed

section \<open>Traces of writes\<close>

definition apply_trace :: "(nat \<times> block) list \<Rightarrow> (nat \<Rightarrow> block) \<Rightarrow> (nat \<Rightarrow> block)" where
  "apply_trace ws d = fold (\<lambda>(bn, x) d. d(bn := x)) ws d"

definition mirrored :: "(nat \<times> block) list \<Rightarrow> (nat \<times> block) list" where
  "mirrored ws = concat (map (\<lambda>(bn, x). [(bn, x), (bn + DISK1_START_BLOCK, x)]) ws)"

lemma apply_trace_simps [simp]:
  "apply_trace [] d = d"
  "apply_trace ((bn, x) # ws) d = apply_trace ws (d(bn := x))"
  "apply_trace (ws @ vs) d = apply_trace vs (apply_trace ws d)"
  by (simp_all add: apply_trace_def)

lemma mirrored_simps [simp]:
  "mirrored [] = []"
  "mirrored ((bn, x) # ws) = (bn, x) # (bn + DISK1_START_BLOCK, x) # mirrored ws"
  "mirrored (ws @ vs) = mirrored ws @ mirrored vs"
  by (simp_all add: mirrored_def)

lemma apply_trace_other: "bn \<notin> fst ` set ws \<Longrightarrow> apply_trace ws d bn = d bn"
  by (induction ws arbitrary: d) auto

lemma fst_mirrored:
  "fst ` set (mirrored ws) = fst ` set ws \<union> (\<lambda>bn. bn + DISK1_START_BLOCK) ` fst ` set ws"
proof (induction ws)
  case (Cons w ws)
  then show ?case by (cases w) (simp add: insert_commute)
qed simp

lemma apply_trace_in:
  assumes "distinct (map fst ws)" and "(bn, x) \<in> set ws"
  shows "apply_trace ws d bn = x"
  using assms
proof (induction ws arbitrary: d)
  case (Cons w ws)
  then show ?case
    by (cases w) (auto simp: apply_trace_other rev_image_eqI)
qed simp

lemma distinct_mirrored:
  assumes "distinct (map fst ws)" and "\<forall>w\<in>set ws. fst w < LOGICAL_DISK_SIZE"
  shows "distinct (map fst (mirrored ws))"
  using assms
proof (induction ws)
  case (Cons w ws)
  define F where "F = fst ` set ws"
  have F: "fst w \<notin> F" "\<forall>bn\<in>F. bn < LOGICAL_DISK_SIZE" "fst w < LOGICAL_DISK_SIZE"
    using Cons.prems by (auto simp: F_def)
  have "fst ` set (mirrored ws) = F \<union> (\<lambda>bn. bn + DISK1_START_BLOCK) ` F"
    by (simp add: fst_mirrored F_def)
  with F have "fst w \<notin> fst ` set (mirrored ws)" "fst w + DISK1_START_BLOCK \<notin> fst ` set (mirrored ws)"
    by (auto simp: kconsts)
  with Cons show ?case by (cases w) (simp add: kconsts)
qed simp

lemma apply_mirrored:
  assumes "distinct (map fst ws)" and "\<forall>w\<in>set ws. fst w < LOGICAL_DISK_SIZE" and "(bn, x) \<in> set ws"
  shows "apply_trace (mirrored ws) d bn = x"
    and "apply_trace (mirrored ws) d (bn + DISK1_START_BLOCK) = x"
proof -
  have "(bn, x) \<in> set (mirrored ws)" "(bn + DISK1_START_BLOCK, x) \<in> set (mirrored ws)"
    using assms(3) by (induction ws) auto
  with apply_trace_in [OF distinct_mirrored [OF assms(1,2)]]
  show "apply_trace (mirrored ws) d bn = x"
    and "apply_trace (mirrored ws) d (bn + DISK1_START_BLOCK) = x" by blast+
qed

lemma apply_mirrored_other:
  assumes "bn \<notin> fst ` set ws" and "bn < LOGICAL_DISK_SIZE"
  shows "apply_trace (mirrored ws) d bn = d bn"
proof -
  have "bn \<notin> fst ` set (mirrored ws)"
    using assms by (auto simp: fst_mirrored kconsts)
  then show ?thesis by (rule apply_trace_other)
qed

section \<open>The phases of a commit\<close>

definition log_writes :: "'x lstate_scheme \<Rightarrow> nat \<Rightarrow> (nat \<times> block) list" where
  "log_writes s lo = map (\<lambda>i. (l_start (log s) + i + 1, view s (lh_block (log s) i))) [lo..<nat (lh_n (log s))]"

definition home_writes :: "'x lstate_scheme \<Rightarrow> (nat \<Rightarrow> block) \<Rightarrow> nat \<Rightarrow> (nat \<times> block) list" where
  "home_writes s v lo = map (\<lambda>i. (lh_block (log s) i, v i)) [lo..<nat (lh_n (log s))]"

text \<open>What a phase that performs the (unmirrored) writes \<open>ws\<close> leaves.\<close>

definition wrote :: "(nat \<times> block) list \<Rightarrow> 'x lstate_scheme \<Rightarrow> 'x lstate_scheme \<Rightarrow> bool" where
  "wrote ws s t \<longleftrightarrow> bio.idle t \<and> bframe s t \<and> view t = apply_trace ws (view s) \<and>
     disk t = apply_trace (mirrored ws) (disk s) \<and> dtrace t = dtrace s @ mirrored ws"

lemma wrote_trans: "wrote ws s t \<Longrightarrow> wrote vs t u \<Longrightarrow> wrote (ws @ vs) s u"
  by (auto simp: wrote_def intro: bframe_trans)

lemma wrote_Cons: "wrote [w] s t \<Longrightarrow> wrote vs t u \<Longrightarrow> wrote (w # vs) s u"
  using wrote_trans [of "[w]"] by simp

lemma wrote_Nil: "bio.idle s \<Longrightarrow> wrote [] s s"
  by (simp add: wrote_def cache_only_bframe cache_only_refl)

lemma log_okD:
  assumes "log_ok s" and "i < nat (lh_n (log s))"
  shows "lh_block (log s) i < LOGICAL_DISK_SIZE" and "lh_block (log s) i \<notin> log_area s"
    and "l_start (log s) + i + 1 \<in> log_area s" and "l_start (log s) + i + 1 < LOGICAL_DISK_SIZE"
    and "lh_block (log s) i \<noteq> l_start (log s) + i + 1" and "l_dev (log s) = ROOTDEV"
    and "l_start (log s) < LOGICAL_DISK_SIZE" and "l_start (log s) \<in> log_area s"
    and "lh_block (log s) i \<noteq> l_start (log s)"
proof -
  show h: "lh_block (log s) i < LOGICAL_DISK_SIZE" "lh_block (log s) i \<notin> log_area s"
    using assms lh_block_logged [OF assms(2)] by (auto simp: log_ok_def)
  show a: "l_start (log s) + i + 1 \<in> log_area s" "l_start (log s) \<in> log_area s"
    using assms by (auto simp: log_ok_def log_area_def)
  then show "l_start (log s) + i + 1 < LOGICAL_DISK_SIZE" "l_start (log s) < LOGICAL_DISK_SIZE"
    using assms(1) by (auto simp: log_ok_def log_area_def)
  show "lh_block (log s) i \<noteq> l_start (log s) + i + 1" "lh_block (log s) i \<noteq> l_start (log s)"
    using h a by auto
  show "l_dev (log s) = ROOTDEV" using assms(1) by (simp add: log_ok_def)
qed

lemma pinned_room:
  assumes "log_ok s" and r: "\<And>bn. refof s bn = (if bn \<in> B then 1 else 0)" and "B \<subseteq> set (logged s)"
    and "bn < LOGICAL_DISK_SIZE" and "n \<in> set (logged s)"
  shows "bio.room s {bn, n}" and "bio.room s {n, bn}"
proof -
  have "{n. refof s n \<noteq> 0} = B" by (auto simp: r)
  moreover have "refof s n \<noteq> - 1" for n by (simp add: r)
  ultimately show "bio.room s {bn, n}" "bio.room s {n, bn}"
    using assms(1,3,4,5) by (auto intro!: quiet_room [where bn = bn])
qed

lemma write_log_loop:
  assumes "bio.idle s" and "log_ok s" and "\<And>bn. refof s bn = (if bn \<in> set (logged s) then 1 else 0)"
    and "lo + k = nat (lh_n (log s))"
  shows "\<exists>t. kfor lo k write_log_step s = Ret () t \<and> wrote (log_writes s lo) s t \<and> refof t = refof s"
  using assms
proof (induction k arbitrary: lo s)
  case 0
  show ?case using wrote_Nil [OF 0(1)] 0(4) by (simp add: log_writes_def)
next
  case (Suc k)
  let ?l = "log s"
  have lo: "lo < nat (lh_n ?l)" using Suc.prems(4) by simp
  note ok = log_okD [OF Suc.prems(2) lo]
  have pin: "lh_block ?l lo \<in> set (logged s)" by (rule lh_block_logged [OF lo])
  have rm: "bio.room s {l_start ?l + lo + 1, lh_block ?l lo}"
    by (rule pinned_room(1) [OF Suc.prems(2,3) order_refl ok(4) pin])
  obtain t where t: "write_log_step lo s = Ret () t" "bio.idle t"
    "view t = (view s)(l_start ?l + lo + 1 := view s (lh_block ?l lo))" "refof t = refof s"
    "disk t = (disk s)(l_start ?l + lo + 1 := view s (lh_block ?l lo),
      l_start ?l + lo + 1 + DISK1_START_BLOCK := view s (lh_block ?l lo))"
    "dtrace t = dtrace s @ [(l_start ?l + lo + 1, view s (lh_block ?l lo)),
      (l_start ?l + lo + 1 + DISK1_START_BLOCK, view s (lh_block ?l lo))]" "bframe s t"
    by (rule bio.copy_to_log [OF Suc.prems(1) ok(5) [symmetric] rm])
      (rule that; simp add: write_log_step_def ok(6))
  then have w1: "wrote [(l_start ?l + lo + 1, view s (lh_block ?l lo))] s t"
    by (simp add: wrote_def)
  have "view t (lh_block ?l i) = view s (lh_block ?l i)" if "i < nat (lh_n ?l)" for i
    using t(3) ok(3) log_okD(2) [OF Suc.prems(2) that] by auto
  then have "log_writes t (Suc lo) = log_writes s (Suc lo)"
    using t(7) by (simp add: log_writes_def)
  moreover have "\<exists>u. kfor (Suc lo) k write_log_step t = Ret () u \<and> wrote (log_writes t (Suc lo)) t u \<and>
      refof u = refof t"
    by (rule Suc.IH) (use Suc.prems t in \<open>simp_all add: bframe_log_ok\<close>)
  ultimately obtain u where u: "kfor (Suc lo) k write_log_step t = Ret () u"
    "wrote (log_writes s (Suc lo)) t u" "refof u = refof t" by auto
  have "log_writes s lo = (l_start ?l + lo + 1, view s (lh_block ?l lo)) # log_writes s (Suc lo)"
    using lo by (simp add: log_writes_def upt_conv_Cons)
  with wrote_Cons [OF w1 u(2)] t u show ?case by simp
qed

lemma write_head_ret:
  assumes "bio.idle s" and "log_ok s" and "bio.room s {l_start (log s)}"
  shows "\<exists>t. write_head s = Ret () t \<and>
    wrote [(l_start (log s), put_head (log s) (view s (l_start (log s))))] s t \<and> refof t = refof s"
proof -
  have "l_dev (log s) = ROOTDEV" using assms(2) by (simp add: log_ok_def)
  then show ?thesis
    by (rule_tac bio.write_session [OF assms(1,3), of "put_head (log s)"])
      (simp add: write_head_def wrote_def)
qed

text \<open>
  Installing, with every destination still pinned: the blocks of the log area go to their home
  locations, and each pin is dropped.
\<close>

lemma install_loop:
  assumes "bio.idle s" and "log_ok s"
    and "\<And>bn. refof s bn = (if bn \<in> set (drop lo (logged s)) then 1 else 0)"
    and "\<And>i. i < nat (lh_n (log s)) \<Longrightarrow> view s (l_start (log s) + i + 1) = v i"
    and "lo + k = nat (lh_n (log s))"
  shows "\<exists>t. kfor lo k install_step s = Ret () t \<and> wrote (home_writes s v lo) s t \<and> refof t = (\<lambda>_. 0)"
  using assms
proof (induction k arbitrary: lo s)
  case 0
  have "refof s = (\<lambda>_. 0)" using 0(3,5) by (intro ext) simp
  then show ?case using wrote_Nil [OF 0(1)] 0(5) by (simp add: home_writes_def)
next
  case (Suc k)
  let ?l = "log s" and ?b = "lh_block (log s) lo"
  have lo: "lo < nat (lh_n ?l)" using Suc.prems(5) by simp
  note ok = log_okD [OF Suc.prems(2) lo]
  have drop: "drop lo (logged s) = ?b # drop (Suc lo) (logged s)"
    using lo by (metis Cons_nth_drop_Suc length_logged nth_logged)
  have "distinct (drop lo (logged s))" using Suc.prems(2) by (simp add: log_ok_def)
  then have nd: "?b \<notin> set (drop (Suc lo) (logged s))" by (simp add: drop)
  have sub: "set (drop lo (logged s)) \<subseteq> set (logged s)" by (rule set_drop_subset)
  have rm: "bio.room s {?b, l_start ?l + lo + 1}"
    by (rule pinned_room(2) [OF Suc.prems(2,3) sub ok(4) lh_block_logged [OF lo]])
  have pin: "refof s ?b \<noteq> 0" using Suc.prems(3) drop by simp
  obtain t where t: "install_step lo s = Ret () t" "bio.idle t"
    "view t = (view s)(?b := view s (l_start ?l + lo + 1))" "refof t = (refof s)(?b := refof s ?b - 1)"
    "disk t = (disk s)(?b := view s (l_start ?l + lo + 1),
      ?b + DISK1_START_BLOCK := view s (l_start ?l + lo + 1))"
    "dtrace t = dtrace s @ [(?b, view s (l_start ?l + lo + 1)),
      (?b + DISK1_START_BLOCK, view s (l_start ?l + lo + 1))]" "bframe s t"
    by (rule bio.copy_home [OF Suc.prems(1) ok(5) rm pin])
      (rule that; simp add: install_step_def ok(6))
  then have w1: "wrote [(?b, v lo)] s t"
    using Suc.prems(4) [OF lo] by (simp add: wrote_def)
  have "home_writes t v (Suc lo) = home_writes s v (Suc lo)"
    using t(7) by (simp add: home_writes_def)
  moreover have "\<exists>u. kfor (Suc lo) k install_step t = Ret () u \<and> wrote (home_writes t v (Suc lo)) t u \<and>
      refof u = (\<lambda>_. 0)"
  proof (rule Suc.IH)
    show "refof t bn = (if bn \<in> set (drop (Suc lo) (logged t)) then 1 else 0)" for bn
      using t(4,7) Suc.prems(3) nd by (simp add: drop)
    show "view t (l_start (log t) + i + 1) = v i" if "i < nat (lh_n (log t))" for i
      using that t(3,7) Suc.prems(4) ok(2) log_okD(3) [OF Suc.prems(2), of i] by auto
  qed (use Suc.prems t in \<open>simp_all add: bframe_log_ok\<close>)
  ultimately obtain u where u: "kfor (Suc lo) k install_step t = Ret () u"
    "wrote (home_writes s v (Suc lo)) t u" "refof u = (\<lambda>_. 0)" by auto
  have "home_writes s v lo = (?b, v lo) # home_writes s v (Suc lo)"
    using lo by (simp add: home_writes_def upt_conv_Cons)
  with wrote_Cons [OF w1 u(2)] t u show ?case by simp
qed

lemma log_upd_simps [simp]:
  fixes s :: "'x lstate_scheme"
  shows "view (s\<lparr>log := l\<rparr>) = view s" and "refof (s\<lparr>log := l\<rparr>) = refof s"
    and "lockd (s\<lparr>log := l\<rparr>) = lockd s" and "binv (s\<lparr>log := l\<rparr>) = binv s"
    and "nofail (s\<lparr>log := l\<rparr>) = nofail s" and "bio.idle (s\<lparr>log := l\<rparr>) = bio.idle s"
    and "holds (s\<lparr>log := l\<rparr>) b bn = holds s b bn"
proof -
  show v: "view (s\<lparr>log := l\<rparr>) = view s" by (rule view_cong) simp_all
  show r: "refof (s\<lparr>log := l\<rparr>) = refof s" by (rule refof_cong) simp
  show k: "lockd (s\<lparr>log := l\<rparr>) = lockd s" by (simp add: lockd_def)
  show b: "binv (s\<lparr>log := l\<rparr>) = binv s"
    by (simp add: binv_def buf_ok_def links_ok_def lru_def)
  show n: "nofail (s\<lparr>log := l\<rparr>) = nofail s" by (simp add: nofail_def)
  show "bio.idle (s\<lparr>log := l\<rparr>) = bio.idle s" by (simp add: bio.idle_def k b n)
  show "holds (s\<lparr>log := l\<rparr>) b bn = holds s b bn" by (simp add: holds_def)
qed

lemma upd_log_app [simp]: "upd_log f s = Ret () (s\<lparr>log := f (log s)\<rparr>)"
  by (simp add: upd_log_def)

lemma logged_clear [simp]: "logged (s\<lparr>log := (log s)\<lparr>lh_n := 0\<rparr>\<rparr>) = []"
  by (simp add: logged_def)

lemma log_ok_clear: "log_ok s \<Longrightarrow> log_ok (s\<lparr>log := (log s)\<lparr>lh_n := 0\<rparr>\<rparr>)"
  by (simp add: log_ok_def)

definition commit_writes :: "'x lstate_scheme \<Rightarrow> (nat \<times> block) list" where
  "commit_writes s =
     (let hb = put_head (log s) (view s (l_start (log s)))
      in log_writes s 0 @ [(l_start (log s), hb)] @
         home_writes s (\<lambda>i. view s (lh_block (log s) i)) 0 @
         [(l_start (log s), put_head ((log s)\<lparr>lh_n := 0\<rparr>) hb)])"

lemma fst_log_writes: "fst ` set (log_writes s lo) = {l_start (log s) + i + 1 | i. lo \<le> i \<and> i < nat (lh_n (log s))}"
  by (auto simp: log_writes_def image_iff)

lemma fst_home_writes: "lo = 0 \<Longrightarrow> fst ` set (home_writes s v lo) = set (logged s)"
  by (force simp: home_writes_def logged_def image_iff)

lemma log_writes_at:
  assumes "i < nat (lh_n (log s))"
  shows "apply_trace (log_writes s 0) d (Suc (l_start (log s) + i)) = view s (lh_block (log s) i)"
  by (rule apply_trace_in)
    (use assms in \<open>auto simp: log_writes_def distinct_map inj_on_def image_iff\<close>)

lemma log_writes_head: "apply_trace (log_writes s lo) d (l_start (log s)) = d (l_start (log s))"
  by (rule apply_trace_other) (simp add: fst_log_writes)

lemma home_writes_log:
  assumes "log_ok s" and "bn \<in> log_area s"
  shows "apply_trace (home_writes s v 0) d bn = d bn"
  by (rule apply_trace_other) (use assms in \<open>auto simp: fst_home_writes log_ok_def\<close>)

lemma clear_room:
  assumes "log_ok s" and "\<And>bn. refof s bn = 0"
  shows "bio.room s {l_start (log s)}"
proof -
  have "l_start (log s) < LOGICAL_DISK_SIZE" using assms(1) by (auto simp: log_ok_def)
  then show ?thesis unfolding bio.room_def by (simp add: assms(2) kconsts)
qed

lemma wrote_upd_log:
  assumes "wrote ws (s\<lparr>log := l\<rparr>) t"
  shows "wrote ws s (t\<lparr>log := log s\<rparr>)" and "log t = l"
proof -
  from assms have f: "bframe (s\<lparr>log := l\<rparr>) t" by (simp add: wrote_def)
  then show "log t = l" by simp
  from f obtain bc nx pv dk tr cl where "t = s\<lparr>log := l, bcache := bc, b_next := nx, b_prev := pv,
      disk := dk, dtrace := tr, conslog := cl\<rparr>" by (auto simp: bframe_def)
  then have "t\<lparr>log := log s\<rparr> = s\<lparr>bcache := bc, b_next := nx, b_prev := pv,
      disk := dk, dtrace := tr, conslog := cl\<rparr>" by simp
  then have "bframe s (t\<lparr>log := log s\<rparr>)" unfolding bframe_def by blast
  with assms show "wrote ws s (t\<lparr>log := log s\<rparr>)" by (simp add: wrote_def)
qed

text \<open>Up to the commit point: the log blocks and the header are on the disk.\<close>

lemma commit_point_ret:
  assumes q: "quiet s" and n: "0 < lh_n (log s)"
  shows "\<exists>t. kthen write_log write_head s = Ret () t \<and> refof t = refof s \<and>
     wrote (log_writes s 0 @ [(l_start (log s), put_head (log s) (view s (l_start (log s))))]) s t"
proof -
  note ok = quietD(2) [OF q]
  let ?l = "log s" and ?hb = "put_head (log s) (view s (l_start (log s)))"
  obtain t1 where t1: "write_log s = Ret () t1" "wrote (log_writes s 0) s t1" "refof t1 = refof s"
    using write_log_loop [OF quietD(1-3) [OF q], of 0] by (auto simp: write_log_def)
  then have f1: "bframe s t1" "bio.idle t1" "log t1 = ?l" "logged t1 = logged s"
      "view t1 = apply_trace (log_writes s 0) (view s)" by (auto simp: wrote_def)
  have ok1: "log_ok t1" using ok f1(1) by (simp add: bframe_log_ok)
  have r1: "refof t1 bn = (if bn \<in> set (logged s) then 1 else 0)" for bn
    using t1(3) quietD(3) [OF q] by simp
  have "l_start ?l < LOGICAL_DISK_SIZE" "lh_block ?l 0 \<in> set (logged s)"
    using ok n by (auto simp: log_ok_def intro!: lh_block_logged)
  then have "bio.room t1 {l_start ?l, lh_block ?l 0}"
    using pinned_room(1) [OF ok1 r1] f1(4) by simp
  then have "bio.room t1 {l_start (log t1)}"
    using f1(3) bio.room_mono [of t1 "{l_start ?l, lh_block ?l 0}"] by simp
  then obtain t2 where "write_head t1 = Ret () t2" "wrote [(l_start ?l, ?hb)] t1 t2" "refof t2 = refof t1"
    using write_head_ret [OF f1(2) ok1] by (auto simp: f1 log_writes_head)
  then show ?thesis using t1 wrote_trans [OF t1(2)] by auto
qed

lemma install_trans_ret:
  assumes q: "quiet s" and v: "\<And>i. i < nat (lh_n (log s)) \<Longrightarrow> view s (Suc (l_start (log s) + i)) = v i"
  shows "\<exists>t. install_trans s = Ret () t \<and> refof t = (\<lambda>_. 0) \<and> wrote (home_writes s v 0) s t"
  using install_loop [OF quietD(1,2) [OF q], of 0 v] quietD(3) [OF q] v
  by (auto simp: install_trans_def)

text \<open>Erasing the transaction once it is installed.\<close>

lemma erase_head_ret:
  assumes i: "bio.idle s" and ok: "log_ok s" and rm: "bio.room s {l_start (log s)}"
  shows "\<exists>t. kthen (upd_log (\<lambda>l. l\<lparr>lh_n := 0\<rparr>)) write_head s = Ret () (t\<lparr>log := (log s)\<lparr>lh_n := 0\<rparr>\<rparr>) \<and>
     wrote [(l_start (log s), put_head ((log s)\<lparr>lh_n := 0\<rparr>) (view s (l_start (log s))))] s t \<and> refof t = refof s"
proof -
  let ?l = "(log s)\<lparr>lh_n := 0\<rparr>"
  let ?c = "s\<lparr>log := ?l\<rparr>"
  have okc: "log_ok ?c" by (rule log_ok_clear [OF ok])
  have "bio.room ?c {l_start (log ?c)}" using rm bio.room_cong [of ?c s] by simp
  then obtain t where t: "write_head ?c = Ret () t" "refof t = refof s"
      "wrote [(l_start (log s), put_head ?l (view s (l_start (log s))))] ?c t"
    using write_head_ret [of ?c] okc i by auto
  then show ?thesis
    using wrote_upd_log [OF t(3)] by (intro exI [of _ "t\<lparr>log := log s\<rparr>"]) simp
qed

lemma commit_ret:
  assumes q: "quiet s" and n: "0 < lh_n (log s)"
  shows "\<exists>t. commit s = Ret () (t\<lparr>log := (log s)\<lparr>lh_n := 0\<rparr>\<rparr>) \<and>
     wrote (commit_writes s) s t \<and> refof t = (\<lambda>_. 0)"
proof -
  note ok = quietD(2) [OF q]
  let ?l = "log s" and ?hb = "put_head (log s) (view s (l_start (log s)))"
  obtain t1 where t1: "kthen write_log write_head s = Ret () t1" "refof t1 = refof s"
      "wrote (log_writes s 0 @ [(l_start ?l, ?hb)]) s t1"
    using commit_point_ret [OF assms] by blast
  then have f1: "bframe s t1" "bio.idle t1" "log t1 = ?l" "logged t1 = logged s"
      "view t1 = (apply_trace (log_writes s 0) (view s))(l_start ?l := ?hb)" by (auto simp: wrote_def)
  have q1: "quiet t1"
    by (rule quietI) (use f1 ok t1(2) quietD(3) [OF q] in \<open>simp_all add: bframe_log_ok\<close>)
  let ?v = "\<lambda>i. view s (lh_block ?l i)"
  obtain t2 where t2: "install_trans t1 = Ret () t2" "refof t2 = (\<lambda>_. 0)" "wrote (home_writes s ?v 0) t1 t2"
    using install_trans_ret [OF q1, of ?v] f1(3,5) by (auto simp: log_writes_at home_writes_def)
  then have f2: "bframe t1 t2" "bio.idle t2" "log t2 = ?l" "view t2 (l_start ?l) = ?hb"
    using f1 home_writes_log [OF ok] ok by (auto simp: wrote_def log_ok_def log_area_def)
  then have ok2: "log_ok t2" using f1(1) ok by (simp add: bframe_log_ok)
  then have "bio.room t2 {l_start (log t2)}" by (rule clear_room) (simp add: t2(2))
  from erase_head_ret [OF f2(2) ok2 this] obtain t3 where
    t3: "kthen (upd_log (\<lambda>l. l\<lparr>lh_n := 0\<rparr>)) write_head t2 = Ret () (t3\<lparr>log := ?l\<lparr>lh_n := 0\<rparr>\<rparr>)"
      "wrote [(l_start ?l, put_head (?l\<lparr>lh_n := 0\<rparr>) ?hb)] t2 t3" "refof t3 = (\<lambda>_. 0)"
    by (auto simp: f2 t2(2))
  have "wrote (commit_writes s) s t3"
    using wrote_trans [OF t1(3) wrote_trans [OF t2(3) t3(2)]] by (simp add: commit_writes_def Let_def)
  moreover have "commit s = Ret () (t3\<lparr>log := ?l\<lparr>lh_n := 0\<rparr>\<rparr>)"
    using n t1(1) t2(1) t3(1) by (auto simp: commit_def elim!: kthen_RetE)
  ultimately show ?thesis using t3(3) by blast
qed

section \<open>Recovery\<close>

text \<open>
  In \<^verbatim>\<open>recover_from_log\<close> the destination buffer has the reference of the \<^verbatim>\<open>bread\<close> only. The
  \<^verbatim>\<open>bunpin\<close> takes that one, and \<^verbatim>\<open>brelse\<close> then decrements a count of zero.
\<close>

abbreviation free_buf :: "nat \<Rightarrow> uint32 \<Rightarrow> block \<Rightarrow> buf" where
  "free_buf bn r d \<equiv> \<lparr>b_valid = True, b_dev = ROOTDEV, b_blockno = bn, b_lock = initsleeplock,
     b_refcnt = r, b_data = d\<rparr>"

lemma release_unpinned_ret:
  fixes s :: "'x bstate_scheme"
  assumes inv: "binv s" and hb: "holds s b dst" and hc: "holds s c src" and ne: "dst \<noteq> src"
    and rb: "refof s dst = 1" and rc: "refof s src = 1"
  obtains nx pv where "kthen (bunpin b) (kthen (brelse c) (brelse b)) s =
      Ret () (s\<lparr>bcache := (bcache s)(c := free_buf src 0 (view s src), b := free_buf dst (- 1) (view s dst)),
                b_next := nx, b_prev := pv\<rparr>)"
    and "links_ok (s\<lparr>b_next := nx, b_prev := pv\<rparr>)" and "b \<noteq> c"
proof -
  note B = holds_buf [OF inv hb] and C = holds_buf [OF inv hc]
  have bc: "b \<noteq> c" using B(3) C(3) ne cached_iff [OF inv] by auto
  let ?x = "free_buf src 0 (view s src)" and ?y = "free_buf dst (- 1) (view s dst)"
  let ?s1 = "s\<lparr>bcache := (bcache s)(b := held_buf (mypid s) dst 0 (view s dst))\<rparr>"
  have s1: "bunpin b s = Ret () ?s1" using B(4) rb by (simp add: bunpin_def upd_buf_def)
  have l1: "links_ok ?s1" using binvD(1) [OF inv] by (simp add: links_ok_def lru_def)
  have c1: "bcache ?s1 c = held_buf (mypid ?s1) src 1 (view s src)" using bc C(4) rc by simp
  obtain nx pv where s2: "brelse c ?s1 = Ret () (?s1\<lparr>bcache := (bcache ?s1)(c := ?x), b_next := nx, b_prev := pv\<rparr>)"
    and l2: "links_ok (?s1\<lparr>b_next := nx, b_prev := pv\<rparr>)"
    by (rule brelse_ret [OF l1 C(1) c1]) (rule that; simp)
  let ?s2 = "?s1\<lparr>bcache := (bcache ?s1)(c := ?x), b_next := nx, b_prev := pv\<rparr>"
  have l2': "links_ok ?s2" using l2 by (simp add: links_ok_def lru_def)
  have b2: "bcache ?s2 b = held_buf (mypid ?s2) dst 0 (view s dst)" using bc by simp
  obtain nx' pv' where s3: "brelse b ?s2 = Ret () (?s2\<lparr>bcache := (bcache ?s2)(b := ?y), b_next := nx', b_prev := pv'\<rparr>)"
    and l3: "links_ok (?s2\<lparr>b_next := nx', b_prev := pv'\<rparr>)"
    by (rule brelse_ret [OF l2' B(1) b2]) (rule that; simp)
  let ?s3 = "?s2\<lparr>bcache := (bcache ?s2)(b := ?y), b_next := nx', b_prev := pv'\<rparr>"
  have "kthen (bunpin b) (kthen (brelse c) (brelse b)) s = Ret () ?s3"
    using s1 s2 s3 by (simp only: kthen_Ret)
  moreover have "?s3 = s\<lparr>bcache := (bcache s)(c := ?x, b := ?y), b_next := nx', b_prev := pv'\<rparr>"
    using bc by (simp add: fun_upd_twist)
  moreover have "links_ok (s\<lparr>b_next := nx', b_prev := pv'\<rparr>)"
    using l3 by (simp add: links_ok_def lru_def)
  ultimately show ?thesis using bc by (intro that [where nx = nx' and pv = pv']) simp_all
qed

lemma release_unpinned:
  fixes s :: "'x bstate_scheme"
  assumes inv: "binv s" and hb: "holds s b dst" and hc: "holds s c src" and ne: "dst \<noteq> src"
    and rb: "refof s dst = 1" and rc: "refof s src = 1"
    and cl: "view s src = disk s src"
  obtains u where "kthen (bunpin b) (kthen (brelse c) (brelse b)) s = Ret () u" and "binv u"
    and "view u = view s" and "refof u = (refof s)(src := 0, dst := - 1)"
    and "lockd u = lockd s - {src, dst}" and "cache_only s u"
proof -
  note B = holds_buf [OF inv hb] and C = holds_buf [OF inv hc]
  let ?x = "free_buf src 0 (view s src)" and ?y = "free_buf dst (- 1) (view s dst)"
  let ?m = "s\<lparr>bcache := (bcache s)(c := ?x)\<rparr>"
  let ?w = "?m\<lparr>bcache := (bcache ?m)(b := ?y)\<rparr>"
  obtain nx pv u where
    ret: "kthen (bunpin b) (kthen (brelse c) (brelse b)) s = Ret () u"
    and u: "u = s\<lparr>bcache := (bcache s)(c := ?x, b := ?y), b_next := nx, b_prev := pv\<rparr>"
    and l: "links_ok (s\<lparr>b_next := nx, b_prev := pv\<rparr>)" and bc: "b \<noteq> c"
    by (rule release_unpinned_ret [OF inv hb hc ne rb rc]) (rule that [OF _ refl]; assumption)
  have okx: "buf_ok s ?x" using C(2) cl by (simp add: buf_ok_def)
  note pc = put_buf [OF inv holds_slot [OF inv hc] _ _ okx refl, simplified]
  have cm: "cached ?m dst = Some b"
    using pc(1) B(1) bc hb by (simp add: cached_iff holds_def)
  then have slot: "slot_for ?m dst b" using B(1) by (simp add: slot_for_def)
  have oky: "buf_ok ?m ?y" using B(2) by (simp add: buf_ok_def)
  note pb = put_buf [OF pc(1) slot _ _ oky refl, simplified]
  have ub: "bcache u = bcache ?w" "disk u = disk ?w" by (simp_all add: u)
  have vm: "view ?m = view s" using pc(3) C(2) by simp
  show ?thesis
  proof (rule that [OF ret])
    show "binv u" using pb(1) l ub by (simp add: u binv_def buf_ok_def links_ok_def lru_def)
    have "view ?w = view s" using pb(3) B(2) vm by simp
    then show "view u = view s" using view_cong [OF ub] by simp
    show "refof u = (refof s)(src := 0, dst := - 1)" using refof_cong [OF ub(1)] pb(4) pc(4) by simp
    have "lockd ?m = lockd s - {src}"
      by (subst put_buf_lockd [OF inv holds_slot [OF inv hc], where x = ?x])
        (simp_all add: slot_unlocked [OF inv holds_slot [OF inv hc]])
    moreover have "lockd ?w = lockd ?m - {dst}"
      by (subst put_buf_lockd [OF pc(1) slot, where x = ?y]) (simp_all add: cm)
    moreover have "lockd u = lockd ?w" using ub(1) by (simp add: lockd_def)
    ultimately show "lockd u = lockd s - {src, dst}" by auto
    show "cache_only s u" by (rule cache_onlyI [OF u])
  qed
qed

lemma install_step_unpinned:
  assumes i: "bio.idle s" and ok: "l_dev (log s) = ROOTDEV"
    and dst: "dst = lh_block (log s) k" and src: "src = l_start (log s) + k + 1" and ne: "dst \<noteq> src"
    and rm: "bio.room s {dst, src}" and r: "refof s dst = 0" "refof s src = 0"
  shows "\<exists>u. install_step k s = Ret () u \<and> wrote [(dst, view s src)] s u \<and>
    refof u = (refof s)(dst := - 1)"
proof -
  have "bio.room s {src, dst}" using rm by (simp add: insert_commute)
  then obtain c t b w where rd: "bread ROOTDEV src s = Ret c t" "bread ROOTDEV dst t = Ret b w"
    by (rule bio.open_two [OF i ne [symmetric]]) (rule that; assumption)
  obtain x where x: "kthen (\<lambda>s. upd_data b (\<lambda>_. b_data (bcache s c)) s) (bwrite b) w = Ret () x"
    "binv x \<and> nofail x" "holds x b dst" "holds x c src" "view x = (view s)(dst := view s src)"
    "refof x = (refof s)(dst := refof s dst + 1, src := refof s src + 1)" "lockd x = {dst, src}"
    "disk x = (disk s)(dst := view s src, dst + DISK1_START_BLOCK := view s src)"
    "dtrace x = dtrace s @ [(dst, view s src), (dst + DISK1_START_BLOCK, view s src)]" "bframe s x"
    "refof s src = 0 \<Longrightarrow> view x src = disk x src"
    by (rule bio.copy_block [OF i ne rm disjI2 [OF conjI [OF rd]]]) (rule that; assumption)
  have rx: "refof x dst = 1" "refof x src = 1" using x(6) r ne by simp_all
  obtain u where u: "kthen (bunpin b) (kthen (brelse c) (brelse b)) x = Ret () u" "binv u"
    "view u = view x" "refof u = (refof x)(src := 0, dst := - 1)"
    "lockd u = lockd x - {src, dst}" "cache_only x u"
    by (rule release_unpinned [OF conjunct1 [OF x(2)] x(3,4) ne rx x(11) [OF r(2)]]) (rule that; assumption)
  have "install_step k s = Ret () u"
    using rd x(1) u(1) by (auto simp: install_step_def ok dst src elim!: kthen_RetE)
  moreover have "wrote [(dst, view s src)] s u"
    using u x cache_onlyD [OF u(6)] cache_only_nofail [OF u(6)]
      bframe_trans [OF x(10) cache_only_bframe [OF u(6)]]
    by (auto simp: wrote_def bio.idle_def)
  moreover have "refof u = (refof s)(dst := - 1)" using u(4) x(6) r by auto
  ultimately show ?thesis by blast
qed

text \<open>The in-memory header after reading the header block \<open>d\<close>.\<close>

definition decode_head :: "block \<Rightarrow> log \<Rightarrow> log" where
  "decode_head d l = l\<lparr>lh_n := as_int (rd32 d 0),
     lh_block := (\<lambda>i. if i < nat (as_int (rd32 d 0)) then rd32 d (4 + 4 * i) else lh_block l i)\<rparr>"

lemma read_head_loop:
  "kfor lo k (\<lambda>i s. Ret () (s\<lparr>log := (log s)\<lparr>lh_block := (lh_block (log s))(i := rd32 (b_data (bcache s b)) (4 + 4 * i))\<rparr>\<rparr>)) s =
     Ret () (s\<lparr>log := (log s)\<lparr>lh_block :=
       (\<lambda>i. if lo \<le> i \<and> i < lo + k then rd32 (b_data (bcache s b)) (4 + 4 * i) else lh_block (log s) i)\<rparr>\<rparr>)"
proof (induction k arbitrary: lo s)
  case 0
  have "(\<lambda>i. if lo \<le> i \<and> i < lo + 0 then x i else y i) = y" for x y :: "nat \<Rightarrow> nat"
    by (rule ext) simp
  then show ?case by (simp del: add_0_right)
next
  case (Suc k)
  have "(\<lambda>i. if Suc lo \<le> i \<and> i < Suc lo + k then rd32 d (4 + 4 * i)
            else ((lh_block (log s))(lo := rd32 d (4 + 4 * lo))) i) =
        (\<lambda>i. if lo \<le> i \<and> i < lo + Suc k then rd32 d (4 + 4 * i) else lh_block (log s) i)" for d
    by (rule ext) auto
  with Suc show ?case by (simp cong: if_cong)
qed

lemma read_head_ret:
  assumes i: "bio.idle s" and dev: "l_dev (log s) = ROOTDEV" and rm: "bio.room s {l_start (log s)}"
  shows "\<exists>t. read_head s = Ret () (t\<lparr>log := decode_head (view s (l_start (log s))) (log s)\<rparr>) \<and>
     wrote [] s t \<and> refof t = refof s"
proof -
  let ?n = "l_start (log s)" and ?d = "view s (l_start (log s))"
  have i': "binv s \<and> nofail s" "?n \<notin> lockd s" "lockd s = {}" using i by (simp_all add: bio.idle_def)
  obtain b t where t: "bread ROOTDEV ?n s = Ret b t" "binv t \<and> nofail t" "holds t b ?n"
    "b_data (bcache t b) = ?d" "view t = view s" "refof t = (refof s)(?n := refof s ?n + 1)"
    "lockd t = insert ?n (lockd s)" "disk t = disk s" "dtrace t = dtrace s" "bframe s t"
    by (rule bio.open_one [OF i'(1,2) rm]) (rule that; assumption)
  let ?l = "decode_head ?d (log s)"
  let ?t = "t\<lparr>log := ?l\<rparr>"
  have "?n < LOGICAL_DISK_SIZE" using rm by (simp add: bio.room_def)
  then have "refof ?t ?n = 1 \<Longrightarrow> view ?t ?n = disk ?t ?n"
    using t(5,6,8) view_clean [of s ?n] i' by simp
  moreover have "binv ?t \<and> nofail ?t" "holds ?t b ?n" using t by simp_all
  ultimately obtain u where u: "brelse b ?t = Ret () u" "binv u \<and> nofail u" "view u = view t"
    "refof u = (refof t)(?n := refof t ?n - 1)" "lockd u = lockd t - {?n}" "disk u = disk t"
    "dtrace u = dtrace t" "bframe ?t u"
    using bio.rel_law [of ?t b ?n] by auto
  have "read_head s = Ret () u"
    using t u(1) by (simp add: read_head_def dev read_head_loop decode_head_def cong: if_cong)
  moreover have "wrote [] ?t u" using u t i'(3) by (simp add: wrote_def bio.idle_def)
  moreover have "wrote [] s (u\<lparr>log := log s\<rparr>)"
    using wrote_upd_log [OF \<open>wrote [] ?t u\<close>] t i'(3)
    by (auto simp: wrote_def intro: bframe_trans)
  moreover have "u = u\<lparr>log := log s\<rparr>\<lparr>log := ?l\<rparr>" using u(8) by simp
  moreover have "refof u = refof s" using u(4) t(6) by simp
  ultimately show ?thesis by (metis log_upd_simps(2))
qed

lemma recover_loop:
  assumes "bio.idle s" and "log_ok s"
    and "\<And>bn. refof s bn = (if bn \<in> set (take lo (logged s)) then - 1 else 0)"
    and "\<And>i. i < nat (lh_n (log s)) \<Longrightarrow> view s (Suc (l_start (log s) + i)) = v i"
    and "lo + k = nat (lh_n (log s))"
  shows "\<exists>t. kfor lo k install_step s = Ret () t \<and> wrote (home_writes s v lo) s t \<and>
     refof t = (\<lambda>bn. if bn \<in> set (logged s) then - 1 else 0)"
  using assms
proof (induction k arbitrary: lo s)
  case 0
  have "refof s = (\<lambda>bn. if bn \<in> set (logged s) then - 1 else 0)" using 0(3,5) by (intro ext) simp
  then show ?case using wrote_Nil [OF 0(1)] 0(5) by (simp add: home_writes_def)
next
  case (Suc k)
  let ?l = "log s" and ?b = "lh_block (log s) lo" and ?s = "l_start (log s) + lo + 1"
  have lo: "lo < nat (lh_n ?l)" using Suc.prems(5) by simp
  note ok = log_okD [OF Suc.prems(2) lo]
  have tk: "take (Suc lo) (logged s) = take lo (logged s) @ [?b]"
    using lo by (simp add: take_Suc_conv_app_nth nth_logged)
  have "distinct (take (Suc lo) (logged s))" using Suc.prems(2) by (simp add: log_ok_def)
  then have nd: "?b \<notin> set (take lo (logged s))" by (simp add: tk)
  have sub: "set (take lo (logged s)) \<subseteq> set (logged s)" by (rule set_take_subset)
  then have ns: "?s \<notin> set (take lo (logged s))" using ok(3) Suc.prems(2) by (auto simp: log_ok_def)
  have r: "refof s ?b = 0" "refof s ?s = 0" using Suc.prems(3) nd ns by simp_all
  have rm: "bio.room s {?b, ?s}"
    by (rule quiet_room [OF Suc.prems(2), where bn = ?s])
      (use r ok(4) sub lh_block_logged [OF lo] Suc.prems(3) in \<open>auto split: if_splits\<close>)
  obtain t where t: "install_step lo s = Ret () t" "wrote [(?b, v lo)] s t" "refof t = (refof s)(?b := - 1)"
    using install_step_unpinned [OF Suc.prems(1) ok(6) refl refl ok(5) rm r] Suc.prems(4) [OF lo] by auto
  then have f: "bframe s t" "bio.idle t" "view t = (view s)(?b := v lo)" by (simp_all add: wrote_def)
  have "home_writes t v (Suc lo) = home_writes s v (Suc lo)" using f(1) by (simp add: home_writes_def)
  moreover have "\<exists>u. kfor (Suc lo) k install_step t = Ret () u \<and> wrote (home_writes t v (Suc lo)) t u \<and>
      refof u = (\<lambda>bn. if bn \<in> set (logged t) then - 1 else 0)"
  proof (rule Suc.IH)
    show "refof t bn = (if bn \<in> set (take (Suc lo) (logged t)) then - 1 else 0)" for bn
      using t(3) f(1) Suc.prems(3) by (simp add: tk)
    show "view t (Suc (l_start (log t) + i)) = v i" if "i < nat (lh_n (log t))" for i
      using that f Suc.prems(4) ok(2) log_okD(3) [OF Suc.prems(2), of i] by auto
  qed (use Suc.prems f in \<open>simp_all add: bframe_log_ok\<close>)
  ultimately obtain u where u: "kfor (Suc lo) k install_step t = Ret () u"
    "wrote (home_writes s v (Suc lo)) t u" "refof u = (\<lambda>bn. if bn \<in> set (logged s) then - 1 else 0)"
    using f(1) by auto
  have "home_writes s v lo = (?b, v lo) # home_writes s v (Suc lo)"
    using lo by (simp add: home_writes_def upt_conv_Cons)
  with wrote_Cons [OF t(2) u(2)] t u show ?case by simp
qed

lemma recover_ret:
  fixes s :: "'x lstate_scheme"
  assumes i: "bio.idle s" and r0: "refof s = (\<lambda>_. 0)"
    and L: "L = decode_head (view s (l_start (log s))) (log s)" and ok: "log_ok (s\<lparr>log := L\<rparr>)"
  shows "\<exists>t. recover_from_log s = Ret () (t\<lparr>log := L\<lparr>lh_n := 0\<rparr>\<rparr>) \<and>
     wrote (home_writes (s\<lparr>log := L\<rparr>) (\<lambda>i. view s (Suc (l_start L + i))) 0 @
       [(l_start L, put_head (L\<lparr>lh_n := 0\<rparr>) (view s (l_start L)))]) s t \<and>
     refof t = (\<lambda>bn. if bn \<in> set (logged (s\<lparr>log := L\<rparr>)) then - 1 else 0)"
proof -
  let ?v = "\<lambda>i. view s (Suc (l_start L + i))" and ?ls = "logged (s\<lparr>log := L\<rparr>)"
  have st: "l_start (log s) = l_start L" "l_dev (log s) = l_dev L" by (simp_all add: L decode_head_def)
  have a: "l_start L \<in> log_area (s\<lparr>log := L\<rparr>)" using ok by (simp add: log_ok_def log_area_def)
  then have dev: "l_dev (log s) = ROOTDEV" "l_start L < LOGICAL_DISK_SIZE" "l_start L \<notin> set ?ls"
    using ok by (auto simp: log_ok_def log_area_def st(2))
  have rm: "bio.room s {l_start (log s)}"
    using dev(2) st unfolding bio.room_def by (simp add: r0 kconsts)
  obtain t where t: "read_head s = Ret () (t\<lparr>log := L\<rparr>)" "wrote [] s t" "refof t = refof s"
    using read_head_ret [OF i dev(1) rm] L by blast
  let ?t = "t\<lparr>log := L\<rparr>"
  have f: "bframe s t" "bio.idle t" "view t = view s" using t(2) by (simp_all add: wrote_def)
  have ls: "logged ?t = ?ls" "log_area ?t = log_area (s\<lparr>log := L\<rparr>)"
    by (simp_all add: logged_def log_area_def)
  then have okt: "log_ok ?t" using ok by (simp add: log_ok_def)
  have hw: "home_writes ?t ?v 0 = home_writes (s\<lparr>log := L\<rparr>) ?v 0" by (simp add: home_writes_def)
  have "\<exists>u. kfor 0 (nat (lh_n (log ?t))) install_step ?t = Ret () u \<and> wrote (home_writes ?t ?v 0) ?t u \<and>
      refof u = (\<lambda>bn. if bn \<in> set (logged ?t) then - 1 else 0)"
    by (rule recover_loop) (use okt f t(3) r0 in simp_all)
  then obtain u where u: "install_trans ?t = Ret () u" "wrote (home_writes (s\<lparr>log := L\<rparr>) ?v 0) ?t u"
      "refof u = (\<lambda>bn. if bn \<in> set ?ls then - 1 else 0)"
    using ls hw by (auto simp: install_trans_def)
  then have g: "bframe ?t u" "bio.idle u" "log u = L" by (auto simp: wrote_def)
  then have oku: "log_ok u" "logged u = ?ls" using okt ls by (simp_all add: bframe_log_ok)
  have vu: "view u (l_start L) = view s (l_start L)"
    using u(2) f(3) home_writes_log [OF ok, of "l_start L"] ok
    by (simp add: wrote_def log_area_def log_ok_def)
  have "bio.room u {l_start (log u)}"
    by (rule quiet_room [OF oku(1), where bn = "l_start L"]) (use dev g u(3) oku(2) in auto)
  from erase_head_ret [OF g(2) oku(1) this] obtain w where
    w: "kthen (upd_log (\<lambda>l. l\<lparr>lh_n := 0\<rparr>)) write_head u = Ret () (w\<lparr>log := L\<lparr>lh_n := 0\<rparr>\<rparr>)"
      "wrote [(l_start L, put_head (L\<lparr>lh_n := 0\<rparr>) (view s (l_start L)))] u w" "refof w = refof u"
    by (auto simp: g vu)
  let ?w = "w\<lparr>log := log s\<rparr>"
  have "wrote (home_writes (s\<lparr>log := L\<rparr>) ?v 0 @
       [(l_start L, put_head (L\<lparr>lh_n := 0\<rparr>) (view s (l_start L)))]) s ?w"
    using wrote_trans [OF t(2) wrote_upd_log(1) [OF wrote_trans [OF u(2) w(2)]]] f(1) by simp
  moreover have "recover_from_log s = Ret () (?w\<lparr>log := L\<lparr>lh_n := 0\<rparr>\<rparr>)"
    using t(1) u(1) w(1) by (simp add: recover_from_log_def)
  ultimately show ?thesis using w(3) u(3) by (intro exI [of _ ?w]) simp
qed

section \<open>Crashes\<close>

text \<open>
  The machine after a power-on with the medium \<open>d\<close>: static data is zero, the failure simulation
  is off, and \<^verbatim>\<open>main\<close> has run \<^verbatim>\<open>binit\<close>.
\<close>

definition power_on :: "(nat \<Rightarrow> block) \<Rightarrow> lstate" where
  "power_on d =
     \<lparr>mypid = 1,
      bcache = (\<lambda>_. \<lparr>b_valid = False, b_dev = 0, b_blockno = 0, b_lock = initsleeplock,
                     b_refcnt = 0, b_data = (\<lambda>_. 0)\<rparr>),
      b_next = (\<lambda>_. 0), b_prev = (\<lambda>_. 0), disk = d, dtrace = [],
      force_read_error_pbn = - 1, force_disk_fail_id = - 1, conslog = [],
      log = \<lparr>l_start = 0, l_size = 0, l_outstanding = 0, l_committing = False, l_dev = 0,
             lh_n = 0, lh_block = (\<lambda>_. 0)\<rparr>\<rparr>"

definition boot :: "nat \<Rightarrow> nat \<Rightarrow> (nat \<Rightarrow> block) \<Rightarrow> (unit, lstate) outcome" where
  "boot logstart nlog d = initlog ROOTDEV logstart nlog (binit (power_on d))"

lemma binit_loop_more [simp]:
  "nofail (binit_loop b n s) = nofail s"
  "log (binit_loop b n (t :: 'x lstate_scheme)) = log t"
  by (induction n arbitrary: b s t) (simp_all add: nofail_def link_front_def)

lemma binit_power_on:
  fixes d defines "s \<equiv> binit (power_on d)"
  shows "bio.idle s" and "refof s = (\<lambda>_. 0)" and "bn < LOGICAL_DISK_SIZE \<Longrightarrow> view s bn = d bn"
    and "disk s = d" and "log s = log (power_on d)"
proof -
  have bc: "b_dev (bcache s k) = 0 \<and> \<not> b_valid (bcache s k) \<and> b_refcnt (bcache s k) = 0 \<and>
      b_lock (bcache s k) = initsleeplock" for k
    by (simp add: s_def binit_def binit_loop_bcache power_on_def)
  then have c: "cached s bn = None" for bn
    by (simp add: cached_None_iff kconsts)
  have "binv s"
    using binit_lru(1) [of "power_on d"] bc by (simp add: binv_def buf_ok_def s_def [symmetric] kconsts)
  moreover have "nofail s" by (simp add: s_def binit_def) (simp add: nofail_def power_on_def)
  moreover have "lockd s = {}" using bc by (simp add: lockd_def kconsts)
  ultimately show "bio.idle s" by (simp add: bio.idle_def)
  show "refof s = (\<lambda>_. 0)" by (rule ext) (simp add: refof_def c)
  show d: "disk s = d" by (simp add: s_def binit_def) (simp add: power_on_def)
  show "bn < LOGICAL_DISK_SIZE \<Longrightarrow> view s bn = d bn" by (simp add: view_def c d)
  show "log s = log (power_on d)" by (simp add: s_def binit_def)
qed

text \<open>
  What the header block on the medium \<open>d\<close> says, and that it describes a transaction the log
  can have written.
\<close>

definition head_n :: "nat \<Rightarrow> (nat \<Rightarrow> block) \<Rightarrow> nat" where
  "head_n st d = rd32 (d st) 0"

definition head_blk :: "nat \<Rightarrow> (nat \<Rightarrow> block) \<Rightarrow> nat \<Rightarrow> nat" where
  "head_blk st d i = rd32 (d st) (4 + 4 * i)"

definition head_ok :: "nat \<Rightarrow> nat \<Rightarrow> (nat \<Rightarrow> block) \<Rightarrow> bool" where
  "head_ok st sz d \<longleftrightarrow> sz \<le> LOGSIZE \<and> st + sz \<le> LOGICAL_DISK_SIZE \<and> head_n st d < sz \<and>
     inj_on (head_blk st d) {..<head_n st d} \<and>
     (\<forall>i<head_n st d. head_blk st d i < LOGICAL_DISK_SIZE \<and> head_blk st d i \<notin> {st..<st + sz})"

lemma recover_head:
  fixes s :: "'x lstate_scheme"
  assumes i: "bio.idle s" and r: "refof s = (\<lambda>_. 0)" and d: "disk s = d"
    and l: "l_start (log s) = st" "l_size (log s) = sz" "l_dev (log s) = ROOTDEV"
    and ok: "head_ok st sz d"
  obtains u C where "recover_from_log s = Ret () u"
    and "disk u = (apply_trace (mirrored (map (\<lambda>i. (head_blk st d i, d (Suc (st + i)))) [0..<head_n st d])) d)
           (st := C, st + DISK1_START_BLOCK := C)"
    and "rd32 C 0 = 0" and "bio.idle u"
    and "refof u = (\<lambda>bn. if bn \<in> head_blk st d ` {..<head_n st d} then - 1 else 0)"
proof -
  define L where "L = decode_head (view s (l_start (log s))) (log s)"
  let ?n = "head_n st d" and ?b = "head_blk st d"
  have st: "st < LOGICAL_DISK_SIZE" "?n < 30" using ok by (auto simp: head_ok_def kconsts)
  have vs: "view s bn = d bn" if "bn < LOGICAL_DISK_SIZE" for bn
    using view_clean [of s bn] that i r d by (simp add: bio.idle_def)
  have "as_int (rd32 (d st) 0) = int ?n" using st(2) by (simp add: as_int_def head_n_def)
  then have L: "l_start L = st" "l_size L = sz" "l_dev L = ROOTDEV" "lh_n L = int ?n"
      "\<And>i. i < ?n \<Longrightarrow> lh_block L i = ?b i"
    using vs [OF st(1)] l by (simp_all add: L_def decode_head_def head_blk_def)
  have lg: "logged (s\<lparr>log := L\<rparr>) = map ?b [0..<?n]" using L by (simp add: logged_def)
  have okL: "log_ok (s\<lparr>log := L\<rparr>)"
    using ok L(1-4) by (auto simp: log_ok_def lg log_area_def head_ok_def distinct_map atLeast0LessThan)
  let ?H = "home_writes (s\<lparr>log := L\<rparr>) (\<lambda>i. view s (Suc (l_start L + i))) 0"
  let ?C = "put_head (L\<lparr>lh_n := 0\<rparr>) (view s st)"
  have H: "?H = map (\<lambda>i. (?b i, d (Suc (st + i)))) [0..<?n]"
    using L vs ok by (auto simp: home_writes_def head_ok_def)
  obtain t where t: "recover_from_log s = Ret () (t\<lparr>log := L\<lparr>lh_n := 0\<rparr>\<rparr>)"
      "wrote (?H @ [(st, ?C)]) s t" "refof t = (\<lambda>bn. if bn \<in> ?b ` {..<?n} then - 1 else 0)"
    using recover_ret [OF i r L_def okL] by (auto simp: lg L(1) atLeast0LessThan)
  have "rd32 ?C 0 = 0" by (simp add: put_head_def)
  then show ?thesis
    using t d H by (intro that [OF t(1)]) (simp_all add: wrote_def)
qed

lemma boot_ret:
  assumes ok: "head_ok st sz d"
  obtains u where "boot st sz d = Ret () u"
    and "\<And>i. i < head_n st d \<Longrightarrow> disk u (head_blk st d i) = d (Suc (st + i)) \<and>
           disk u (head_blk st d i + DISK1_START_BLOCK) = d (Suc (st + i))"
    and "\<And>bn. bn < LOGICAL_DISK_SIZE \<Longrightarrow> bn \<notin> {st..<st + sz} \<Longrightarrow> bn \<notin> head_blk st d ` {..<head_n st d} \<Longrightarrow>
           disk u bn = d bn"
    and "refof u = (\<lambda>bn. if bn \<in> head_blk st d ` {..<head_n st d} then - 1 else 0)"
    and "head_n st (disk u) = 0" and "bio.idle u"
proof -
  let ?s = "(binit (power_on d))\<lparr>log := (log (binit (power_on d)))\<lparr>l_start := st, l_size := sz, l_dev := ROOTDEV\<rparr>\<rparr>"
  let ?n = "head_n st d" and ?b = "head_blk st d"
  let ?H = "map (\<lambda>i. (?b i, d (Suc (st + i)))) [0..<?n]"
  have b: "i < ?n \<Longrightarrow> ?b i < LOGICAL_DISK_SIZE \<and> ?b i \<notin> {st..<st + sz}" for i
    using ok by (simp add: head_ok_def)
  have st: "st < LOGICAL_DISK_SIZE" "st \<in> {st..<st + sz}" using ok by (auto simp: head_ok_def)
  have dH: "distinct (map fst ?H)" "\<forall>w\<in>set ?H. fst w < LOGICAL_DISK_SIZE"
    using ok by (auto simp: head_ok_def distinct_map atLeast0LessThan inj_on_def comp_def)
  obtain u C where u: "recover_from_log ?s = Ret () u"
      "disk u = (apply_trace (mirrored ?H) d)(st := C, st + DISK1_START_BLOCK := C)" "rd32 C 0 = 0"
      "bio.idle u" "refof u = (\<lambda>bn. if bn \<in> ?b ` {..<?n} then - 1 else 0)"
    by (rule recover_head [where s = ?s, OF _ _ _ _ _ _ ok])
      (simp_all add: binit_power_on)
  show ?thesis
  proof (rule that)
    show "boot st sz d = Ret () u" using u(1) by (simp add: boot_def initlog_def kconsts)
    show "refof u = (\<lambda>bn. if bn \<in> ?b ` {..<?n} then - 1 else 0)" by (rule u(5))
    show "bio.idle u" by (rule u(4))
    show "head_n st (disk u) = 0" using u(2,3) by (simp add: head_n_def kconsts)
    show "disk u (?b i) = d (Suc (st + i)) \<and> disk u (?b i + DISK1_START_BLOCK) = d (Suc (st + i))"
      if "i < ?n" for i
      using apply_mirrored [OF dH, of "?b i" "d (Suc (st + i))"] b [OF that] that st
      by (auto simp: u(2) kconsts)
    show "disk u bn = d bn"
      if "bn < LOGICAL_DISK_SIZE" "bn \<notin> {st..<st + sz}" "bn \<notin> ?b ` {..<?n}" for bn
    proof -
      have "bn \<notin> fst ` set ?H" using that(3) by (auto simp: image_iff)
      from apply_mirrored_other [OF this that(1)] that st show ?thesis by (auto simp: u(2) kconsts)
    qed
  qed
qed

text \<open>The three stages of a commit as seen on the medium.\<close>

lemma mirrored_length [simp]: "length (mirrored ws) = 2 * length ws"
proof (induction ws)
  case (Cons w ws)
  then show ?case by (cases w) simp
qed simp

lemma put_head_count:
  assumes "0 \<le> lh_n l" and "lh_n l < 2 ^ 32"
  shows "rd32 (put_head l d) 0 = nat (lh_n l)"
  using assms by (simp add: put_head_def rd32_wr_uints_other nat_less_iff)

lemma put_head_blk:
  assumes "i < nat (lh_n l)" and "lh_block l i < 2 ^ 32"
  shows "rd32 (put_head l d) (4 + 4 * i) = lh_block l i"
  using assms rd32_wr_uints [of i "map (lh_block l) [0..<nat (lh_n l)]" 4] by (simp add: put_head_def)

lemma apply_take_other:
  "bn \<notin> fst ` set ws \<Longrightarrow> apply_trace (take k ws) d bn = d bn"
  by (rule apply_trace_other) (meson image_mono in_mono set_take_subset)

lemma take_mirrored_other:
  assumes "bn \<notin> fst ` set ws" and "bn < LOGICAL_DISK_SIZE"
  shows "apply_trace (take k (mirrored ws)) d bn = d bn"
  by (rule apply_take_other) (use assms in \<open>auto simp: fst_mirrored kconsts\<close>)

lemma log_writes_area:
  assumes "log_ok s" and "bn \<notin> log_area s \<or> bn = l_start (log s)"
  shows "bn \<notin> fst ` set (log_writes s lo)"
proof
  assume "bn \<in> fst ` set (log_writes s lo)"
  then obtain i where i: "bn = l_start (log s) + i + 1" "i < nat (lh_n (log s))"
    by (auto simp: fst_log_writes)
  with log_okD(3) [OF assms(1) i(2)] assms(2) show False by simp
qed

definition commit_head :: "'x lstate_scheme \<Rightarrow> block" where
  "commit_head s = put_head (log s) (view s (l_start (log s)))"

text \<open>Before the header is written: header and home blocks are as before the commit.\<close>

lemma crash_early:
  fixes s :: "'x lstate_scheme"
  assumes q: "quiet s" and k: "k \<le> 2 * nat (lh_n (log s))"
    and d: "d = apply_trace (take k (mirrored (commit_writes s))) (disk s)"
    and bn: "bn < LOGICAL_DISK_SIZE" "bn \<notin> log_area s \<or> bn = l_start (log s)"
  shows "d bn = disk s bn"
proof -
  have "take k (mirrored (commit_writes s)) = take k (mirrored (log_writes s 0))"
    using k by (simp add: commit_writes_def Let_def log_writes_def)
  with take_mirrored_other [OF log_writes_area [OF quietD(2) [OF q] bn(2)] bn(1)] d show ?thesis by simp
qed

text \<open>Once the header is written, the log blocks and the header describe the transaction.\<close>

lemma crash_late:
  fixes s :: "'x lstate_scheme"
  assumes q: "quiet s" and k: "2 * nat (lh_n (log s)) < k" "k \<le> 4 * nat (lh_n (log s)) + 2"
    and d: "d = apply_trace (take k (mirrored (commit_writes s))) (disk s)"
  shows "d (l_start (log s)) = commit_head s"
    and "i < nat (lh_n (log s)) \<Longrightarrow> d (Suc (l_start (log s) + i)) = view s (lh_block (log s) i)"
    and "bn < LOGICAL_DISK_SIZE \<Longrightarrow> bn \<notin> log_area s \<Longrightarrow> bn \<notin> set (logged s) \<Longrightarrow> d bn = disk s bn"
proof -
  note ok = quietD(2) [OF q]
  let ?n = "nat (lh_n (log s))" and ?st = "l_start (log s)"
  let ?H = "home_writes s (\<lambda>i. view s (lh_block (log s) i)) 0"
  obtain j where j: "k = Suc (2 * ?n + j)" using k(1) less_iff_Suc_add by auto
  define e where "e = apply_trace (mirrored (log_writes s 0)) (disk s)"
  define f where "f = apply_trace (take j [(?st + DISK1_START_BLOCK, commit_head s)]) (e(?st := commit_head s))"
  have len: "length (log_writes s 0) = ?n" "length ?H = ?n" by (simp_all add: log_writes_def home_writes_def)
  have df: "d = apply_trace (take (j - 1) (mirrored ?H)) f"
    unfolding d j commit_writes_def f_def e_def commit_head_def Let_def
    using k(2) j len by (cases j) (simp_all)
  have st: "?st < LOGICAL_DISK_SIZE" "?st \<in> log_area s" using ok by (auto simp: log_ok_def log_area_def)
  have fe: "f bn = (if bn = ?st then commit_head s else e bn)" if "bn < LOGICAL_DISK_SIZE" for bn
    using that by (cases j) (auto simp: f_def kconsts)
  have dH: "d bn = f bn" if "bn < LOGICAL_DISK_SIZE" "bn \<notin> set (logged s)" for bn
    unfolding df by (rule take_mirrored_other) (use that in \<open>simp_all add: fst_home_writes\<close>)
  have area: "bn \<notin> set (logged s)" if "bn \<in> log_area s" for bn
    using that ok by (auto simp: log_ok_def)
  show "d ?st = commit_head s" using dH [OF st(1) area [OF st(2)]] fe [OF st(1)] by simp
  show "d (Suc (?st + i)) = view s (lh_block (log s) i)" if "i < ?n"
  proof -
    note ok' = log_okD [OF ok that]
    have "e (Suc (?st + i)) = view s (lh_block (log s) i)"
      unfolding e_def
    proof (rule apply_mirrored(1))
      show "distinct (map fst (log_writes s 0))" by (simp add: log_writes_def distinct_map inj_on_def)
      show "\<forall>w\<in>set (log_writes s 0). fst w < LOGICAL_DISK_SIZE"
        by (auto simp: log_writes_def dest!: log_okD(4) [OF ok, simplified])
      show "(Suc (?st + i), view s (lh_block (log s) i)) \<in> set (log_writes s 0)"
        using that by (auto simp: log_writes_def)
    qed
    with dH [OF ok'(4) area [OF ok'(3)]] fe [OF ok'(4)] show ?thesis by simp
  qed
  show "d bn = disk s bn" if "bn < LOGICAL_DISK_SIZE" "bn \<notin> log_area s" "bn \<notin> set (logged s)"
  proof -
    have "e bn = disk s bn"
      unfolding e_def by (rule apply_mirrored_other [OF log_writes_area [OF ok] that(1)]) (use that in simp)
    with dH [OF that(1,3)] fe [OF that(1)] that(2) st(2) show ?thesis by auto
  qed
qed

text \<open>After the header is erased: the home blocks hold the transaction.\<close>

lemma home_writes_at:
  assumes ok: "log_ok s" and bn: "bn \<in> set (logged s)"
  shows "apply_trace (mirrored (home_writes s (\<lambda>i. view s (lh_block (log s) i)) 0)) d bn = view s bn"
    and "apply_trace (mirrored (home_writes s (\<lambda>i. view s (lh_block (log s) i)) 0)) d
           (bn + DISK1_START_BLOCK) = view s bn"
proof -
  let ?H = "home_writes s (\<lambda>i. view s (lh_block (log s) i)) 0"
  have "map fst ?H = logged s" by (simp add: home_writes_def logged_def comp_def)
  moreover from this have "\<forall>w\<in>set ?H. fst w < LOGICAL_DISK_SIZE"
    using ok by (metis (no_types, lifting) image_eqI list.set_map log_ok_def)
  moreover have "(bn, view s bn) \<in> set ?H" using bn by (auto simp: home_writes_def logged_def)
  ultimately show "apply_trace (mirrored ?H) d bn = view s bn"
    "apply_trace (mirrored ?H) d (bn + DISK1_START_BLOCK) = view s bn"
    using apply_mirrored [of ?H bn "view s bn" d] ok by (simp_all add: log_ok_def)
qed

lemma crash_done:
  fixes s :: "'x lstate_scheme"
  assumes q: "quiet s" and k: "4 * nat (lh_n (log s)) + 2 < k"
    and d: "d = apply_trace (take k (mirrored (commit_writes s))) (disk s)"
  shows "rd32 (d (l_start (log s))) 0 = 0"
    and "bn < LOGICAL_DISK_SIZE \<Longrightarrow> bn \<notin> log_area s \<Longrightarrow> d bn = view s bn"
proof -
  note ok = quietD(2) [OF q]
  let ?n = "nat (lh_n (log s))" and ?st = "l_start (log s)"
  let ?H = "home_writes s (\<lambda>i. view s (lh_block (log s) i)) 0"
  let ?W = "log_writes s 0 @ [(?st, commit_head s)]" and ?C = "put_head ((log s)\<lparr>lh_n := 0\<rparr>) (commit_head s)"
  obtain j where j: "k = Suc (4 * ?n + 2 + j)" using k less_iff_Suc_add by auto
  define e where "e = apply_trace (mirrored ?H) (apply_trace (mirrored ?W) (disk s))"
  have len: "length (log_writes s 0) = ?n" "length ?H = ?n" by (simp_all add: log_writes_def home_writes_def)
  have eq: "mirrored (commit_writes s) =
      (mirrored ?W @ mirrored ?H) @ [(?st, ?C), (?st + DISK1_START_BLOCK, ?C)]"
    by (simp add: commit_writes_def commit_head_def Let_def)
  have "take k (mirrored (commit_writes s)) =
      (mirrored ?W @ mirrored ?H) @ (?st, ?C) # take j [(?st + DISK1_START_BLOCK, ?C)]"
    unfolding eq using j len by (simp add: take_Cons')
  then have de: "d = apply_trace (take j [(?st + DISK1_START_BLOCK, ?C)]) (e(?st := ?C))"
    by (simp add: d e_def)
  have st: "?st < LOGICAL_DISK_SIZE" "?st \<in> log_area s" using ok by (auto simp: log_ok_def log_area_def)
  have low: "d bn = (if bn = ?st then ?C else e bn)" if "bn < LOGICAL_DISK_SIZE" for bn
    using that by (cases j) (auto simp: de kconsts)
  show "rd32 (d ?st) 0 = 0" using low [OF st(1)] by (simp add: put_head_def)
  show "d bn = view s bn" if bn: "bn < LOGICAL_DISK_SIZE" "bn \<notin> log_area s"
  proof (cases "bn \<in> set (logged s)")
    case True
    with low [OF bn(1)] bn(2) st(2) home_writes_at(1) [OF ok True] show ?thesis by (auto simp: e_def)
  next
    case False
    then have "refof s bn = 0" using quietD(3) [OF q] by simp
    then have v: "view s bn = disk s bn"
      using q bn(1) by (simp add: view_clean quiet_def linv_def)
    have "bn \<notin> fst ` set ?W" "bn \<notin> fst ` set ?H"
      using log_writes_area [OF ok, of bn 0] bn(2) st(2) False by (auto simp: fst_home_writes)
    then have "e bn = disk s bn"
      unfolding e_def using apply_mirrored_other [OF _ bn(1)] by metis
    with v low [OF bn(1)] bn(2) st(2) show ?thesis by auto
  qed
qed

text \<open>
  If the home blocks of the medium hold \<open>w\<close>, once the blocks of the log replace those the header
  names, then booting leaves \<open>w\<close> in them.
\<close>

lemma boot_home:
  assumes ok: "head_ok st sz d"
    and l: "\<And>i. i < head_n st d \<Longrightarrow> d (Suc (st + i)) = w (head_blk st d i)"
    and h: "\<And>bn. bn < LOGICAL_DISK_SIZE \<Longrightarrow> bn \<notin> {st..<st + sz} \<Longrightarrow>
          bn \<notin> head_blk st d ` {..<head_n st d} \<Longrightarrow> d bn = w bn"
  shows "\<exists>u. boot st sz d = Ret () u \<and> (\<forall>bn<LOGICAL_DISK_SIZE. bn \<notin> {st..<st + sz} \<longrightarrow> disk u bn = w bn)"
proof (rule boot_ret [OF ok])
  fix u
  assume u: "boot st sz d = Ret () u"
    "\<And>i. i < head_n st d \<Longrightarrow> disk u (head_blk st d i) = d (Suc (st + i)) \<and>
           disk u (head_blk st d i + DISK1_START_BLOCK) = d (Suc (st + i))"
    "\<And>bn. bn < LOGICAL_DISK_SIZE \<Longrightarrow> bn \<notin> {st..<st + sz} \<Longrightarrow> bn \<notin> head_blk st d ` {..<head_n st d} \<Longrightarrow>
           disk u bn = d bn"
  have "disk u bn = w bn" if "bn < LOGICAL_DISK_SIZE" "bn \<notin> {st..<st + sz}" for bn
  proof (cases "bn \<in> head_blk st d ` {..<head_n st d}")
    case True
    with u(2) l show ?thesis by auto
  next
    case False
    with u(3) h that show ?thesis by metis
  qed
  with u(1) show ?thesis by blast
qed

lemma commit_head_decode:
  assumes ok: "log_ok s" and d: "d (l_start (log s)) = commit_head s"
  shows "head_n (l_start (log s)) d = nat (lh_n (log s))"
    and "i < nat (lh_n (log s)) \<Longrightarrow> head_blk (l_start (log s)) d i = lh_block (log s) i"
    and "head_blk (l_start (log s)) d ` {..<nat (lh_n (log s))} = set (logged s)"
    and "head_ok (l_start (log s)) (l_size (log s)) d"
proof -
  have n: "0 \<le> lh_n (log s)" "lh_n (log s) < 2 ^ 32" using ok by (auto simp: log_ok_def kconsts)
  show hn: "head_n (l_start (log s)) d = nat (lh_n (log s))"
    using put_head_count [OF n] by (simp add: head_n_def d commit_head_def)
  show hb: "head_blk (l_start (log s)) d i = lh_block (log s) i" if "i < nat (lh_n (log s))" for i
    using log_okD(1) [OF ok that] put_head_blk [OF that] by (simp add: head_blk_def d commit_head_def kconsts)
  then show im: "head_blk (l_start (log s)) d ` {..<nat (lh_n (log s))} = set (logged s)"
    by (auto simp: logged_def image_iff)
  have "inj_on (lh_block (log s)) {..<nat (lh_n (log s))}"
    using ok by (simp add: log_ok_def logged_def distinct_map atLeast0LessThan)
  then have "inj_on (head_blk (l_start (log s)) d) {..<nat (lh_n (log s))}"
    using hb by (simp add: inj_on_def)
  then show "head_ok (l_start (log s)) (l_size (log s)) d"
    using ok hn hb log_okD(1,2) [OF ok] by (auto simp: head_ok_def log_ok_def log_area_def)
qed

text \<open>
  Booting from the medium left by a crash at any point of the commit: the home blocks are all
  as before the transaction when the header was not yet written, and all as after it otherwise.
\<close>

lemma crash_boot:
  fixes s :: "'x lstate_scheme"
  assumes q: "quiet s" and h: "head_n (l_start (log s)) (disk s) = 0"
    and d: "d = apply_trace (take k (mirrored (commit_writes s))) (disk s)"
    and w: "w = (if k \<le> 2 * nat (lh_n (log s)) then disk s else view s)"
  shows "\<exists>u. boot (l_start (log s)) (l_size (log s)) d = Ret () u \<and>
     (\<forall>bn<LOGICAL_DISK_SIZE. bn \<notin> log_area s \<longrightarrow> disk u bn = w bn)"
proof -
  note ok = quietD(2) [OF q]
  let ?n = "nat (lh_n (log s))" and ?st = "l_start (log s)"
  have st: "?st < LOGICAL_DISK_SIZE" and sz: "head_n ?st d = 0 \<Longrightarrow> head_ok ?st (l_size (log s)) d"
    using ok by (auto simp: log_ok_def head_ok_def)
  consider "k \<le> 2 * ?n" | "2 * ?n < k" "k \<le> 4 * ?n + 2" | "4 * ?n + 2 < k" by linarith
  then show ?thesis
    unfolding log_area_def
  proof cases
    case 1
    note e = crash_early [OF q 1 d]
    have "head_n ?st d = 0" using h e [OF st] by (simp add: head_n_def)
    then show "\<exists>u. boot ?st (l_size (log s)) d = Ret () u \<and>
        (\<forall>bn<LOGICAL_DISK_SIZE. bn \<notin> {?st..<?st + l_size (log s)} \<longrightarrow> disk u bn = w bn)"
      by (intro boot_home) (use sz e 1 w in \<open>auto simp: log_area_def\<close>)
  next
    case 2
    note e = crash_late [OF q 2 d]
    note c = commit_head_decode [where d = d, OF ok e(1)]
    have "disk s bn = view s bn" if "bn < LOGICAL_DISK_SIZE" "bn \<notin> set (logged s)" for bn
      using that q quietD(3) [OF q, of bn] by (simp add: view_clean quiet_def linv_def)
    then show "\<exists>u. boot ?st (l_size (log s)) d = Ret () u \<and>
        (\<forall>bn<LOGICAL_DISK_SIZE. bn \<notin> {?st..<?st + l_size (log s)} \<longrightarrow> disk u bn = w bn)"
      by (intro boot_home [OF c(4)]) (use c e 2 w in \<open>simp_all add: log_area_def\<close>)
  next
    case 3
    note e = crash_done [OF q 3 d]
    have "head_n ?st d = 0" using e(1) by (simp add: head_n_def)
    then show "\<exists>u. boot ?st (l_size (log s)) d = Ret () u \<and>
        (\<forall>bn<LOGICAL_DISK_SIZE. bn \<notin> {?st..<?st + l_size (log s)} \<longrightarrow> disk u bn = w bn)"
      by (intro boot_home) (use sz e(2) 3 w in \<open>auto simp: log_area_def\<close>)
  qed
qed

section \<open>Writing through the log\<close>

lemma absorb_bounds: "i \<le> absorb blk bn i k \<and> absorb blk bn i k \<le> i + k"
  by (induction k arbitrary: i) (auto intro: Suc_leD, metis add_Suc_shift add_Suc_right)

lemma absorb_hit: "absorb blk bn i k < i + k \<Longrightarrow> blk (absorb blk bn i k) = bn"
  by (induction k arbitrary: i) (auto split: if_splits)

lemma absorb_miss: "absorb blk bn i k = i + k \<longleftrightarrow> bn \<notin> blk ` {i..<i + k}"
proof (induction k arbitrary: i)
  case (Suc k)
  have "{i..<i + Suc k} = insert i {Suc i..<Suc i + k}" by auto
  with Suc [of "Suc i"] show ?case by auto
qed simp

lemma logged_image: "lh_block (log s) ` {0..<nat (lh_n (log s))} = set (logged s)"
  by (simp add: logged_def)

text \<open>The transaction after a \<^verbatim>\<open>log_write\<close> of block \<open>bn\<close>.\<close>

definition absorbed :: "nat \<Rightarrow> nat list \<Rightarrow> nat list" where
  "absorbed bn bs = (if bn \<in> set bs then bs else bs @ [bn])"

lemma bframe_upd_log:
  fixes s :: "'x lstate_scheme"
  assumes "bframe s t"
  shows "bframe (s\<lparr>log := l\<rparr>) (t\<lparr>log := l\<rparr>)"
proof -
  obtain bc nx pv dk tr cl where "t = s\<lparr>bcache := bc, b_next := nx, b_prev := pv,
      disk := dk, dtrace := tr, conslog := cl\<rparr>" using assms by (auto simp: bframe_def)
  then have "t\<lparr>log := l\<rparr> = s\<lparr>log := l, bcache := bc, b_next := nx, b_prev := pv,
      disk := dk, dtrace := tr, conslog := cl\<rparr>" by simp
  then show ?thesis unfolding bframe_def by blast
qed

lemma log_write_app:
  assumes "log_ok s" and "lh_n (log s) < int (l_size (log s)) - 1" and "1 \<le> l_outstanding (log s)"
    and "b_blockno (bcache s b) = bn"
  shows "log_write b s =
     (if bn \<in> set (logged s) then Ret () s
      else kthen (bpin b) (upd_log (\<lambda>l. l\<lparr>lh_n := lh_n l + 1\<rparr>))
             (s\<lparr>log := (log s)\<lparr>lh_block := (lh_block (log s))(nat (lh_n (log s)) := bn)\<rparr>\<rparr>))"
proof -
  let ?n = "nat (lh_n (log s))"
  let ?i = "absorb (lh_block (log s)) bn 0 ?n"
  have n: "0 \<le> lh_n (log s)" "lh_n (log s) < int LOGSIZE" using assms(1,2) by (auto simp: log_ok_def)
  have miss: "?i = ?n \<longleftrightarrow> bn \<notin> set (logged s)"
    using absorb_miss [of "lh_block (log s)" bn 0 ?n] by (simp add: logged_image)
  have lw: "log_write b s =
      (if int ?i = lh_n (log s) then kthen (bpin b) (upd_log (\<lambda>l. l\<lparr>lh_n := lh_n l + 1\<rparr>)) else kret ())
        (s\<lparr>log := (log s)\<lparr>lh_block := (lh_block (log s))(?i := bn)\<rparr>\<rparr>)"
    using n assms(2-4) by (simp add: log_write_def Let_def)
  show ?thesis
  proof (cases "bn \<in> set (logged s)")
    case True
    then have lt: "?i < ?n" using miss absorb_bounds [of 0 "lh_block (log s)" bn ?n] by auto
    then have "lh_block (log s) ?i = bn" using absorb_hit [of "lh_block (log s)" bn 0 ?n] by simp
    then have "(lh_block (log s))(?i := bn) = lh_block (log s)" by (rule fun_upd_idem)
    moreover have "int ?i \<noteq> lh_n (log s)" using lt by linarith
    ultimately show ?thesis unfolding lw using True by simp
  next
    case False
    then have "?i = ?n" "int ?i = lh_n (log s)" using miss n(1) by simp_all
    then show ?thesis unfolding lw using False by (simp only: if_False if_True refl simp_thms)
  qed
qed

lemma log_write_law:
  fixes s :: "'x lstate_scheme"
  assumes inv: "linv s" and h: "holds s b bn" and a: "bn \<notin> log_area s"
    and cap: "lh_n (log s) < int (l_size (log s)) - 1" and out: "1 \<le> l_outstanding (log s)"
  obtains t where "log_write b s = Ret () t" and "linv t" and "logged t = absorbed bn (logged s)"
    and "view t = view s" and "lockd t = lockd s" and "disk t = disk s" and "dtrace t = dtrace s"
    and "\<And>b' bn'. holds s b' bn' \<Longrightarrow> holds t b' bn'"
    and "refof t = (if bn \<in> set (logged s) then refof s else (refof s)(bn := refof s bn + 1))"
    and "\<exists>l. bframe (s\<lparr>log := l\<rparr>) t" and "l_start (log t) = l_start (log s)"
    and "l_size (log t) = l_size (log s)" and "l_outstanding (log t) = l_outstanding (log s)"
    and "l_committing (log t) = l_committing (log s)"
proof -
  have inv': "binv s" "nofail s" "log_ok s" "pins_ok s" using inv by (auto simp: linv_def)
  have bn: "b_blockno (bcache s b) = bn" "bn \<in> lockd s"
    using h by (auto simp: holds_def lockd_def)
  have lt: "bn < LOGICAL_DISK_SIZE" by (rule holds_buf(2) [OF inv'(1) h])
  note lw = log_write_app [OF inv'(3) cap out bn(1)]
  show ?thesis
  proof (cases "bn \<in> set (logged s)")
    case True
    have "\<exists>l. bframe (s\<lparr>log := l\<rparr>) s"
      by (rule exI [of _ "log s"]) (simp add: cache_only_bframe cache_only_refl)
    from that [OF _ inv _ _ _ _ _ _ _ this] True lw show ?thesis by (simp add: absorbed_def)
  next
    case False
    let ?l = "(log s)\<lparr>lh_block := (lh_block (log s))(nat (lh_n (log s)) := bn)\<rparr>"
    let ?s = "s\<lparr>log := ?l\<rparr>"
    have r: "refof s bn = 1" using inv'(4) False bn(2) by (simp add: pins_ok_def)
    obtain t where t: "bpin b ?s = Ret () t" "binv t" "\<And>b' bn'. holds t b' bn' = holds ?s b' bn'"
      "view t = view ?s" "refof t = (refof ?s)(bn := refof ?s bn + 1)" "lockd t = lockd ?s" "cache_only ?s t"
      using bpin_law [of ?s b bn] inv' h r by auto
    have lt': "log t = ?l" "nofail t" "bframe ?s t" "disk t = disk s" "dtrace t = dtrace s"
      using cache_only_bframe [OF t(7)] cache_only_nofail [OF t(7)] cache_onlyD [OF t(7)] inv'(2) by auto
    let ?u = "t\<lparr>log := ?l\<lparr>lh_n := lh_n ?l + 1\<rparr>\<rparr>"
    have n0: "0 \<le> lh_n (log s)" using inv'(3) by (simp add: log_ok_def)
    have lg: "logged ?u = logged s @ [bn]" "log_area ?u = log_area s"
      using n0 by (simp_all add: logged_def nat_add_distrib log_area_def)
    have "log_ok ?u"
      using inv'(3) False a lt cap lg by (auto simp: log_ok_def)
    moreover have "pins_ok ?u"
      using inv'(4) False bn(2) lg(1) t(5,6) by (auto simp: pins_ok_def)
    ultimately have "linv ?u" using t(2) lt'(2) by (simp add: linv_def)
    moreover have "bframe (s\<lparr>log := ?l\<lparr>lh_n := lh_n ?l + 1\<rparr>\<rparr>) ?u"
      using bframe_upd_log [OF lt'(3), of "?l\<lparr>lh_n := lh_n ?l + 1\<rparr>"] by simp
    moreover have "log_write b s = Ret () ?u" using lw False t(1) lt'(1) by simp
    ultimately show ?thesis
      using False t lg lt' by (intro that [of ?u]) (auto simp: absorbed_def)
  qed
qed

lemma quiet_room1:
  assumes "quiet s" and "bn < LOGICAL_DISK_SIZE"
  shows "bio.room s {bn}"
  by (rule quiet_room [OF quietD(2) [OF assms(1)], where bn = bn])
    (use assms quietD(3,4) [OF assms(1)] in auto)

text \<open>
  The idiom of every update of the file system: \<^verbatim>\<open>bp = bread(dev, bn); change bp->data;
  log_write(bp); brelse(bp)\<close>. The logical contents change, the medium does not.
\<close>

lemma txn_update:
  fixes s :: "'x lstate_scheme"
  assumes q: "quiet s" and bn: "bn < LOGICAL_DISK_SIZE" "bn \<notin> log_area s"
    and cap: "lh_n (log s) < int (l_size (log s)) - 1" and out: "1 \<le> l_outstanding (log s)"
  obtains t where
    "kbind (bread ROOTDEV bn) (\<lambda>b. kthen (upd_data b f) (kthen (log_write b) (brelse b))) s = Ret () t"
    and "quiet t" and "logged t = absorbed bn (logged s)" and "view t = (view s)(bn := f (view s bn))"
    and "disk t = disk s" and "dtrace t = dtrace s" and "\<exists>l. bframe (s\<lparr>log := l\<rparr>) t"
    and "l_start (log t) = l_start (log s)"
    and "l_size (log t) = l_size (log s)" and "l_outstanding (log t) = l_outstanding (log s)"
    and "l_committing (log t) = l_committing (log s)"
proof -
  from q have i: "binv s \<and> nofail s" "bn \<notin> lockd s" "lockd s = {}" "log_ok s"
    by (simp_all add: quiet_def linv_def)
  obtain b t where t: "bread ROOTDEV bn s = Ret b t" "binv t \<and> nofail t" "holds t b bn"
    "view t = view s" "refof t = (refof s)(bn := refof s bn + 1)"
    "lockd t = insert bn (lockd s)" "disk t = disk s" "dtrace t = dtrace s" "bframe s t"
    by (rule bio.open_one [OF i(1,2) quiet_room1 [OF q bn(1)]]) (rule that; assumption)
  obtain v where v: "upd_data b f t = Ret () v" "binv v \<and> nofail v" "holds v b bn"
    "view v = (view t)(bn := f (view t bn))" "refof v = refof t" "lockd v = lockd t" "disk v = disk t"
    "dtrace v = dtrace t" "bframe t v"
    using bio.upd_law [OF t(2,3), of f] t(3) by blast
  have fv: "bframe s v" using t(9) v(9) by (rule bframe_trans)
  have lv: "linv v" 
    unfolding linv_def
  proof (intro conjI)
    show "binv v" "nofail v" using v(2) by simp_all
    show "log_ok v" using i(4) fv by (simp add: bframe_log_ok)
    show "pins_ok v" using fv v(5,6) t(5,6) quietD(3) [OF q] i(3) by (auto simp: pins_ok_def)
  qed
  have av: "bn \<notin> log_area v" "lh_n (log v) < int (l_size (log v)) - 1" "1 \<le> l_outstanding (log v)"
    using bn(2) cap out fv by (simp_all add: log_area_def)
  obtain w where w: "log_write b v = Ret () w" "linv w" "logged w = absorbed bn (logged v)"
    "view w = view v" "lockd w = lockd v" "disk w = disk v" "dtrace w = dtrace v" "holds w b bn"
    "\<exists>l. bframe (v\<lparr>log := l\<rparr>) w" "l_start (log w) = l_start (log v)" "l_size (log w) = l_size (log v)"
    "l_outstanding (log w) = l_outstanding (log v)" "l_committing (log w) = l_committing (log v)"
    by (rule log_write_law [OF lv v(3) av]) (rule that; (assumption | use v(3) in blast))
  have rw: "refof w bn \<noteq> 1"
    using w(2,3,5) v(6) t(6) by (simp add: linv_def pins_ok_def absorbed_def)
  obtain u where u: "brelse b w = Ret () u" "binv u \<and> nofail u" "view u = view w"
    "refof u = (refof w)(bn := refof w bn - 1)" "lockd u = lockd w - {bn}" "disk u = disk w"
    "dtrace u = dtrace w" "bframe w u"
    using bio.rel_law [of w b bn] w(2,8) rw by (auto simp: linv_def)
  have lk: "lockd w = {bn}" "lockd u = {}" using u(5) w(5) v(6) t(6) i(3) by auto
  have "quiet u"
  proof (rule quietI)
    show "bio.idle u" using u(2) lk(2) by (simp add: bio.idle_def)
    show "log_ok u" using w(2) u(8) by (simp add: bframe_log_ok linv_def)
    show "refof u n = (if n \<in> set (logged u) then 1 else 0)" for n
      using w(2) u(4,8) lk(1) by (auto simp: linv_def pins_ok_def)
  qed
  moreover have "\<exists>l. bframe (s\<lparr>log := l\<rparr>) u"
    using w(9) bframe_upd_log [OF fv] u(8) by (blast intro: bframe_trans)
  ultimately show ?thesis
    using t v w u fv by (intro that [of u]) simp_all
qed

section \<open>Parts of the state an operation keeps\<close>

definition keeps :: "('s \<Rightarrow> 'c) \<Rightarrow> ('s, 'a) kernel \<Rightarrow> bool" where
  "keeps f m \<longleftrightarrow> (\<forall>s a t. m s = Ret a t \<longrightarrow> f t = f s)"

lemma keepsD: "keeps f m \<Longrightarrow> m s = Ret a t \<Longrightarrow> f t = f s"
  by (simp add: keeps_def)

lemma keeps_bind: "keeps f m \<Longrightarrow> (\<And>a. keeps f (n a)) \<Longrightarrow> keeps f (kbind m n)"
  unfolding keeps_def by (metis kbind_RetE)

lemma keeps_then: "keeps f m \<Longrightarrow> keeps f n \<Longrightarrow> keeps f (kthen m n)"
  unfolding keeps_def by (metis kthen_RetE)

lemma keepsI: "(\<And>s a t. m s = Ret a t \<Longrightarrow> f t = f s) \<Longrightarrow> keeps f m"
  unfolding keeps_def by blast

lemma keeps_kfor: "(\<And>i. keeps f (body i)) \<Longrightarrow> keeps f (kfor lo n body)"
  by (induction n arbitrary: lo) (simp_all add: keeps_then, simp add: keeps_def)

lemma keeps_ret: "keeps f (kret a)"
  by (simp add: keeps_def)

lemma keeps_prim:
  "keeps log (upd_buf b g)" "keeps log (upd_data b h)" "keeps log (disk_rw b w)"
  "keeps log (bpin b)" "keeps log (bunpin b)" "keeps log (bw_print m)" "keeps log (buf_acquiresleep b)"
  by (auto simp: keeps_def upd_buf_def upd_data_def disk_rw_def bpin_def bunpin_def bw_print_def
      buf_acquiresleep_def Let_def split: option.splits if_splits)

lemmas keeps_intros = keeps_bind keeps_then keeps_kfor keeps_ret keeps_prim

lemma keeps_bget: "keeps log (bget dev bn)"
proof (unfold keeps_def, intro allI impI)
  fix s :: "'a lstate_scheme" and b t
  assume "bget dev bn s = Ret b t"
  then show "log t = log s"
    by (auto simp: bget_def split: option.splits
        dest!: keepsD [OF keeps_then [OF keeps_prim(1) keeps_prim(7)]])
qed

lemma keeps_bread: "keeps log (bread dev bn)"
  unfolding bread_def
proof (rule keeps_bind [OF keeps_bget])
  fix b
  show "keeps log (\<lambda>s :: 'a lstate_scheme. let pbn0 = bn; pbn1 = pbn0 + DISK1_START_BLOCK;
            fallback = use_fallback bn s
        in if \<not> b_valid (bcache s b) \<or> fallback
           then (let original_blockno = b_blockno (bcache s b) in
                 kthen (upd_buf b (\<lambda>x. x\<lparr>b_blockno := (if fallback then pbn1 else pbn0)\<rparr>))
                (kthen (disk_rw b False)
                (kthen (upd_buf b (\<lambda>x. x\<lparr>b_valid := True\<rparr>))
                (kthen (upd_buf b (\<lambda>x. x\<lparr>b_blockno := original_blockno\<rparr>))
                       (kret b)))) s)
           else Ret b s)"
    by (auto simp: keeps_def Let_def upd_buf_def disk_rw_def)
qed

lemma keeps_bwrite: "keeps log (bwrite b)"
proof (unfold keeps_def, intro allI impI)
  fix s :: "'a lstate_scheme" and r t
  assume "bwrite b s = Ret r t"
  then show "log t = log s"
    by (auto simp: bwrite_def Let_def upd_buf_def disk_rw_def bw_print_def split: if_splits)
qed

lemma keeps_relink:
  "keeps log (\<lambda>t. if b_refcnt (bcache t b) = 0 then Ret () (link_front b (unlink_buf b t)) else Ret () t)"
  by (simp add: keeps_def link_front_def unlink_buf_def Let_def)

lemma keeps_guard: "keeps f m \<Longrightarrow> keeps f (\<lambda>s. if c s then Panic e else m s)"
  unfolding keeps_def by (metis outcome.distinct(1))

lemma keeps_brelse: "keeps log (brelse b)"
  unfolding brelse_def [abs_def]
  by (rule keeps_guard, rule keeps_then [OF keeps_prim(1) keeps_then [OF keeps_prim(1) keeps_relink]])

lemmas keeps_log = keeps_intros keeps_bread keeps_bwrite keeps_brelse

lemma keeps_copy: "keeps log (\<lambda>s. upd_data b (\<lambda>_. b_data (bcache s c)) s)"
  by (rule keepsI) (erule keepsD [OF keeps_prim(2)])

lemma keeps_install_step: "keeps log (install_step i)"
  by (rule keepsI, unfold install_step_def, erule keepsD [rotated], intro keeps_log keeps_copy)

lemma keeps_write_log_step: "keeps log (write_log_step i)"
  by (rule keepsI, unfold write_log_step_def, erule keepsD [rotated], intro keeps_log keeps_copy)

lemma keeps_write_head: "keeps log write_head"
  by (rule keepsI, unfold write_head_def, erule keepsD [rotated], intro keeps_log keeps_copy)

lemma keeps_install_trans: "keeps log install_trans"
  by (rule keepsI, unfold install_trans_def, erule keepsD [rotated], intro keeps_kfor keeps_install_step)

lemma keeps_write_log: "keeps log write_log"
  by (rule keepsI, unfold write_log_def, erule keepsD [rotated], intro keeps_kfor keeps_write_log_step)

lemmas keeps_log_steps = keeps_install_step keeps_write_log_step keeps_write_head
  keeps_install_trans keeps_write_log

lemma commit_log:
  assumes "commit s = Ret () t"
  shows "log t = (if 0 < lh_n (log s) then (log s)\<lparr>lh_n := 0\<rparr> else log s)"
proof (cases "0 < lh_n (log s)")
  case True
  with assms obtain a b c where a: "write_log s = Ret () a" "write_head a = Ret () b"
    "install_trans b = Ret () c" "write_head (c\<lparr>log := (log c)\<lparr>lh_n := 0\<rparr>\<rparr>) = Ret () t"
    by (auto simp: commit_def elim!: kthen_RetE)
  with True show ?thesis using keepsD [OF keeps_log_steps(3) a(4)] keepsD [OF keeps_log_steps(5) a(1)]
      keepsD [OF keeps_log_steps(3) a(2)] keepsD [OF keeps_log_steps(4) a(3)] by simp
qed (use assms in \<open>simp add: commit_def\<close>)

section \<open>Admission of concurrent system calls\<close>

text \<open>
  The calls that several processes make between \<^verbatim>\<open>begin_op\<close> and \<^verbatim>\<open>end_op\<close>, in any order. The map
  gives each process inside a transaction the number of blocks it may still add to the log;
  each starts with \<open>MAXOPBLOCKS\<close>. A \<^verbatim>\<open>begin_op\<close> that sleeps makes no step.
\<close>

inductive log_step ::
  "'x lstate_scheme \<times> (nat \<rightharpoonup> nat) \<Rightarrow> 'x lstate_scheme \<times> (nat \<rightharpoonup> nat) \<Rightarrow> bool"
where
  step_begin: "r p = None \<Longrightarrow> begin_op s = Ret () t \<Longrightarrow> log_step (s, r) (t, r(p \<mapsto> MAXOPBLOCKS))"
| step_write: "r p = Some k \<Longrightarrow> log_write b s = Ret () t \<Longrightarrow>
     lh_n (log t) = lh_n (log s) + int j \<Longrightarrow> j \<le> k \<Longrightarrow> log_step (s, r) (t, r(p \<mapsto> k - j))"
| step_end: "r p = Some k \<Longrightarrow> end_op s = Ret () t \<Longrightarrow> log_step (s, r) (t, r(p := None))"

definition reserved :: "(nat \<rightharpoonup> nat) \<Rightarrow> nat" where
  "reserved r = (\<Sum>p\<in>dom r. the (r p))"

definition adm_inv :: "'x lstate_scheme \<times> (nat \<rightharpoonup> nat) \<Rightarrow> bool" where
  "adm_inv c \<longleftrightarrow> (case c of (s, r) \<Rightarrow>
     finite (dom r) \<and> l_outstanding (log s) = int (card (dom r)) \<and> \<not> l_committing (log s) \<and>
     0 \<le> lh_n (log s) \<and> (\<forall>p\<in>dom r. the (r p) \<le> MAXOPBLOCKS) \<and>
     lh_n (log s) + int (reserved r) \<le> int LOGSIZE)"

lemma reserved_new: "finite (dom r) \<Longrightarrow> r p = None \<Longrightarrow> reserved (r(p \<mapsto> k)) = reserved r + k"
proof -
  assume f: "finite (dom r)" and p: "r p = None"
  have "(\<Sum>q\<in>dom r. the ((r(p \<mapsto> k)) q)) = (\<Sum>q\<in>dom r. the (r q))"
    by (rule sum.cong) (use p in auto)
  with f p show ?thesis by (simp add: reserved_def domIff)
qed

lemma reserved_drop:
  assumes "finite (dom r)" and "r p = Some k"
  shows "reserved r = reserved (r(p := None)) + k"
proof -
  have "r = (r(p := None))(p \<mapsto> k)" using assms(2) by auto
  with reserved_new [of "r(p := None)" p k] assms(1) show ?thesis by simp
qed

lemma reserved_upd:
  assumes "finite (dom r)" and "r p = Some k" and "j \<le> k"
  shows "reserved (r(p \<mapsto> k - j)) + j = reserved r"
  using reserved_drop [OF assms(1,2)] reserved_new [of "r(p := None)" p "k - j"] assms by simp

lemma reserved_bound:
  assumes "finite (dom r)" and "\<forall>p\<in>dom r. the (r p) \<le> MAXOPBLOCKS"
  shows "reserved r \<le> card (dom r) * MAXOPBLOCKS"
  using sum_mono [of "dom r" "\<lambda>p. the (r p)" "\<lambda>_. MAXOPBLOCKS"] assms(2) by (simp add: reserved_def)

lemma adm_step:
  assumes "log_step c c'" and "adm_inv c"
  shows "adm_inv c'"
  using assms
proof (induction rule: log_step.induct)
  case (step_begin r p s t)
  then have b: "log t = (log s)\<lparr>l_outstanding := l_outstanding (log s) + 1\<rparr>"
    "lh_n (log s) + (l_outstanding (log s) + 1) * int MAXOPBLOCKS \<le> int LOGSIZE"
    by (auto simp: begin_op_def split: if_splits)
  have i: "finite (dom r)" "l_outstanding (log s) = int (card (dom r))"
    "\<forall>p\<in>dom r. the (r p) \<le> MAXOPBLOCKS" using step_begin by (auto simp: adm_inv_def)
  have "card (dom (r(p \<mapsto> MAXOPBLOCKS))) = card (dom r) + 1"
    using i(1) step_begin.hyps(1) by (simp add: card_insert_if domIff)
  moreover have "reserved (r(p \<mapsto> MAXOPBLOCKS)) = reserved r + MAXOPBLOCKS"
    using reserved_new i(1) step_begin.hyps(1) by blast
  moreover have "int (reserved r) \<le> l_outstanding (log s) * int MAXOPBLOCKS"
    using reserved_bound [OF i(1,3)] i(2) by (metis of_nat_le_iff of_nat_mult)
  ultimately show ?case
    using b step_begin i by (auto simp: adm_inv_def algebra_simps)
next
  case (step_write r p k b s t j)
  have "l_outstanding (log t) = l_outstanding (log s)" "l_committing (log t) = l_committing (log s)"
    using step_write.hyps(2)
    by (auto simp: log_write_def Let_def bpin_def upd_buf_def split: if_splits)
  moreover have "dom (r(p \<mapsto> k - j)) = dom r" using step_write.hyps(1) by auto
  moreover have "k \<le> MAXOPBLOCKS"
    using step_write.hyps(1) step_write.prems by (force simp: adm_inv_def dom_def)
  ultimately show ?case
    using step_write reserved_upd [of r p k j] by (auto simp: adm_inv_def)
next
  case (step_end r p k s t)
  have l: "l_outstanding (log t) = l_outstanding (log s) - 1" "\<not> l_committing (log t)"
      "0 \<le> lh_n (log t)" "lh_n (log t) \<le> lh_n (log s)"
    using step_end
    by (auto simp: end_op_def adm_inv_def split: if_splits elim!: kthen_RetE dest!: commit_log)
  have "card (dom (r(p := None))) = card (dom r) - 1" "card (dom r) > 0"
    using step_end by (auto simp: adm_inv_def card_gt_0_iff card_Diff_singleton domI)
  with l step_end reserved_drop [of r p k] show ?case
    by (auto simp: adm_inv_def of_nat_diff)
qed

section \<open>A concrete transaction\<close>

text \<open>
  The state after booting from an all-zero medium with the log of \<^verbatim>\<open>mkfs\<close> (header at block 2, 30
  blocks), a \<^verbatim>\<open>begin_op\<close> and one logged update of block 70.
\<close>

definition sample_boot :: lstate where
  "sample_boot = (binit (power_on (\<lambda>_ _. 0)))
     \<lparr>log := \<lparr>l_start = 2, l_size = 30, l_outstanding = 1, l_committing = False, l_dev = ROOTDEV,
              lh_n = 0, lh_block = (\<lambda>_. 0)\<rparr>\<rparr>"

definition sample_txn :: lstate where
  "sample_txn =
     (case kbind (bread ROOTDEV 70) (\<lambda>b. kthen (upd_data b (\<lambda>d. d(0 := 7))) (kthen (log_write b) (brelse b)))
             sample_boot of
        Ret _ t \<Rightarrow> t
      | _ \<Rightarrow> sample_boot)"

lemma sample_boot_quiet: "quiet sample_boot"
proof (rule quietI)
  show "bio.idle sample_boot" by (simp add: sample_boot_def binit_power_on)
  show "log_ok sample_boot" by (simp add: sample_boot_def log_ok_def logged_def kconsts)
  show "refof sample_boot bn = (if bn \<in> set (logged sample_boot) then 1 else 0)" for bn
    by (simp add: sample_boot_def binit_power_on logged_def)
qed

lemma sample_txn_quiet:
  "quiet sample_txn" "logged sample_txn = [70]" "disk sample_txn = (\<lambda>_ _. 0)"
  "l_start (log sample_txn) = 2" "l_size (log sample_txn) = 30" "lh_n (log sample_txn) = 1"
  "view sample_txn 70 0 = 7"
proof -
  obtain t where t:
    "kbind (bread ROOTDEV 70) (\<lambda>b. kthen (upd_data b (\<lambda>d. d(0 := 7))) (kthen (log_write b) (brelse b)))
       sample_boot = Ret () t" "quiet t" "logged t = absorbed 70 (logged sample_boot)"
    "view t = (view sample_boot)(70 := (view sample_boot 70)(0 := 7))"
    "disk t = disk sample_boot" "l_start (log t) = l_start (log sample_boot)"
    "l_size (log t) = l_size (log sample_boot)"
    by (rule txn_update [OF sample_boot_quiet, of 70 "\<lambda>d. d(0 := 7)"])
      (simp_all add: sample_boot_def log_area_def kconsts)
  then have s: "sample_txn = t" by (simp add: sample_txn_def)
  show "quiet sample_txn" using t s by simp
  show lg: "logged sample_txn = [70]" using t s by (simp add: sample_boot_def logged_def absorbed_def)
  show "disk sample_txn = (\<lambda>_ _. 0)" using t s by (simp add: sample_boot_def binit_power_on)
  show "l_start (log sample_txn) = 2" "l_size (log sample_txn) = 30"
    using t s by (simp_all add: sample_boot_def)
  have "nat (lh_n (log sample_txn)) = 1" using lg length_logged [of sample_txn] by simp
  then show "lh_n (log sample_txn) = 1" by simp
  show "view sample_txn 70 0 = 7" using t s by simp
qed

section \<open>Properties\<close>

text \<open>
  C2. \<^verbatim>\<open>commit\<close> makes the transaction durable: from every quiet state with a non-empty transaction it
  returns; every block outside the log area then has on the primary disk the contents the
  kernel saw before the commit, every block of the transaction has them on the mirror disk as
  well, the transaction is empty in memory and on disk, all pins are dropped (the invariant
  holds again), and no other logical block changes.
\<close>

theorem commit_durable:
  fixes s :: "'x lstate_scheme"
  assumes "quiet s" and "0 < lh_n (log s)"
  shows "\<exists>t. commit s = Ret () t \<and> quiet t \<and> logged t = [] \<and> head_n (l_start (log s)) (disk t) = 0 \<and>
     (\<forall>bn<LOGICAL_DISK_SIZE. bn \<notin> log_area s \<longrightarrow> view t bn = view s bn \<and> disk t bn = view s bn) \<and>
     (\<forall>bn\<in>set (logged s). disk t (bn + DISK1_START_BLOCK) = view s bn)"
proof -
  note ok = quietD(2) [OF assms(1)]
  let ?c = "(log s)\<lparr>lh_n := 0\<rparr>"
  obtain t where t: "commit s = Ret () (t\<lparr>log := ?c\<rparr>)" "wrote (commit_writes s) s t" "refof t = (\<lambda>_. 0)"
    using commit_ret [OF assms] by blast
  let ?t = "t\<lparr>log := ?c\<rparr>"
  have w: "bio.idle t" "bframe s t" "disk t = apply_trace (mirrored (commit_writes s)) (disk s)"
    using t(2) by (simp_all add: wrote_def)
  have okt: "log_ok ?t"
    using log_ok_clear [of t] w(2) ok by (simp add: bframe_log_ok)
  have q: "quiet ?t"
    by (rule quietI) (use w(1) okt t(3) in \<open>simp_all add: logged_def\<close>)
  have len: "length (mirrored (commit_writes s)) = 4 * nat (lh_n (log s)) + 4"
    by (simp add: commit_writes_def Let_def log_writes_def home_writes_def)
  then have "disk t = apply_trace (take (4 * nat (lh_n (log s)) + 4) (mirrored (commit_writes s))) (disk s)"
    using w(3) by simp
  note d = crash_done [OF assms(1) _ this, simplified]
  note dk = d(2)
  have vw: "view t bn = disk t bn" if "bn < LOGICAL_DISK_SIZE" for bn
    using view_clean [of t bn] that t(3) w(1) by (simp add: bio.idle_def)
  have mirror: "disk t (bn + DISK1_START_BLOCK) = view s bn" if bn: "bn \<in> set (logged s)" for bn
  proof -
    have "l_start (log s) \<in> log_area s" "l_start (log s) < LOGICAL_DISK_SIZE"
      using ok by (simp_all add: log_ok_def log_area_def)
    moreover have "bn \<notin> log_area s" using bn ok by (simp add: log_ok_def)
    ultimately have "bn \<noteq> l_start (log s)" "l_start (log s) < LOGICAL_DISK_SIZE" by blast+
    then show ?thesis
      using home_writes_at(2) [OF ok bn] by (simp add: w(3) commit_writes_def Let_def kconsts)
  qed
  show ?thesis
    using t(1) q dk vw mirror d(1) by (intro exI [of _ ?t]) (simp add: logged_def head_n_def)
qed

theorem commit_durable_witness:
  "quiet sample_txn \<and> 0 < lh_n (log sample_txn) \<and>
   (\<exists>t. commit sample_txn = Ret () t \<and> logged t = [] \<and> disk t 70 0 = 7 \<and>
      disk t (70 + DISK1_START_BLOCK) 0 = 7)"
proof -
  have h: "quiet sample_txn" "0 < lh_n (log sample_txn)" by (simp_all add: sample_txn_quiet)
  have "70 < LOGICAL_DISK_SIZE" "70 \<notin> log_area sample_txn" "70 \<in> set (logged sample_txn)"
    by (simp_all add: kconsts log_area_def sample_txn_quiet)
  with commit_durable [OF h] h show ?thesis by (metis sample_txn_quiet(7))
qed

text \<open>
  C1. A commit is atomic with respect to crashes. Whatever prefix of the block writes that \<^verbatim>\<open>commit\<close>
  issues has reached the medium, booting from that medium (\<^verbatim>\<open>binit\<close>, then \<^verbatim>\<open>initlog\<close> with its
  recovery) returns, and afterwards the blocks outside the log area are all as they were before
  the commit, or all as the transaction made them: the latter as soon as the header block has
  been written.
\<close>

theorem crash_atomic:
  fixes s :: "'x lstate_scheme"
  assumes "quiet s" and "0 < lh_n (log s)" and "head_n (l_start (log s)) (disk s) = 0"
  shows "\<exists>t ws. commit s = Ret () t \<and> dtrace t = dtrace s @ ws \<and>
     (\<forall>k. \<exists>u. boot (l_start (log s)) (l_size (log s)) (apply_trace (take k ws) (disk s)) = Ret () u \<and>
        (\<forall>bn<LOGICAL_DISK_SIZE. bn \<notin> log_area s \<longrightarrow>
           disk u bn = (if k \<le> 2 * nat (lh_n (log s)) then disk s bn else view s bn)))"
proof -
  obtain t where t: "commit s = Ret () (t\<lparr>log := (log s)\<lparr>lh_n := 0\<rparr>\<rparr>)"
      "dtrace t = dtrace s @ mirrored (commit_writes s)"
    using commit_ret [OF assms(1,2)] by (auto simp: wrote_def)
  show ?thesis
  proof (rule exI, rule exI, intro conjI allI)
    show "commit s = Ret () (t\<lparr>log := (log s)\<lparr>lh_n := 0\<rparr>\<rparr>)" by (rule t)
    show "dtrace (t\<lparr>log := (log s)\<lparr>lh_n := 0\<rparr>\<rparr>) = dtrace s @ mirrored (commit_writes s)"
      using t(2) by simp
    fix k
    show "\<exists>u. boot (l_start (log s)) (l_size (log s))
          (apply_trace (take k (mirrored (commit_writes s))) (disk s)) = Ret () u \<and>
        (\<forall>bn<LOGICAL_DISK_SIZE. bn \<notin> log_area s \<longrightarrow>
           disk u bn = (if k \<le> 2 * nat (lh_n (log s)) then disk s bn else view s bn))"
      using crash_boot [OF assms(1,3) refl refl, of k] by (auto simp: if_distribR)
  qed
qed

theorem crash_atomic_witness:
  "\<exists>t ws. commit sample_txn = Ret () t \<and> dtrace t = dtrace sample_txn @ ws \<and>
     (\<exists>u. boot 2 30 (apply_trace (take 2 ws) (\<lambda>_ _. 0)) = Ret () u \<and> disk u 70 0 = 0) \<and>
     (\<exists>u. boot 2 30 (apply_trace (take 3 ws) (\<lambda>_ _. 0)) = Ret () u \<and> disk u 70 0 = 7)"
proof -
  have h: "quiet sample_txn" "0 < lh_n (log sample_txn)" "head_n (l_start (log sample_txn)) (disk sample_txn) = 0"
    by (simp_all add: sample_txn_quiet head_n_def rd32_def rd16_def)
  have a: "70 < LOGICAL_DISK_SIZE" "70 \<notin> log_area sample_txn"
    by (simp_all add: kconsts log_area_def sample_txn_quiet)
  from crash_atomic [OF h] obtain t ws where t: "commit sample_txn = Ret () t"
    "dtrace t = dtrace sample_txn @ ws"
    and c: "\<forall>k. \<exists>u. boot 2 30 (apply_trace (take k ws) (\<lambda>_ _. 0)) = Ret () u \<and>
        (\<forall>bn<LOGICAL_DISK_SIZE. bn \<notin> log_area sample_txn \<longrightarrow>
           disk u bn = (if k \<le> 2 * nat 1 then (\<lambda>_. 0) else view sample_txn bn))"
    unfolding sample_txn_quiet by blast
  from c obtain u where u: "boot 2 30 (apply_trace (take 2 ws) (\<lambda>_ _. 0)) = Ret () u" "disk u 70 = (\<lambda>_. 0)"
    using a by fastforce
  from c obtain v where v: "boot 2 30 (apply_trace (take 3 ws) (\<lambda>_ _. 0)) = Ret () v"
    "disk v 70 = view sample_txn 70"
    using a by fastforce
  from t u v show ?thesis by (metis sample_txn_quiet(7))
qed

text \<open>
  C11. Recovery installs a committed transaction on both disks, but \<^verbatim>\<open>install_trans\<close> calls \<^verbatim>\<open>bunpin\<close>
  there too, where nothing was pinned: every recovered block's reference count wraps around to
  \<open>2 ^ 32 - 1\<close>, and the next \<^verbatim>\<open>bread\<close> of such a block returns a locked buffer whose count is
  zero, which \<^verbatim>\<open>bget\<close> may recycle while it is in use.
\<close>

theorem recovery_wraps_refcnt:
  assumes "head_ok st sz d" and "i < head_n st d"
  shows "\<exists>u. boot st sz d = Ret () u \<and>
     disk u (head_blk st d i) = d (Suc (st + i)) \<and>
     disk u (head_blk st d i + DISK1_START_BLOCK) = d (Suc (st + i)) \<and>
     refof u (head_blk st d i) = - 1 \<and>
     (\<exists>b v. bread ROOTDEV (head_blk st d i) u = Ret b v \<and> b < NBUF \<and>
        lk_locked (b_lock (bcache v b)) \<and> b_refcnt (bcache v b) = 0)"
proof (rule boot_ret [OF assms(1)])
  fix u
  assume u: "boot st sz d = Ret () u" "bio.idle u"
    "\<And>i. i < head_n st d \<Longrightarrow> disk u (head_blk st d i) = d (Suc (st + i)) \<and>
           disk u (head_blk st d i + DISK1_START_BLOCK) = d (Suc (st + i))"
    "refof u = (\<lambda>bn. if bn \<in> head_blk st d ` {..<head_n st d} then - 1 else 0)"
  let ?bn = "head_blk st d i"
  have bn: "?bn < LOGICAL_DISK_SIZE" using assms by (simp add: head_ok_def)
  have r: "refof u ?bn = - 1" using u(4) assms(2) by simp
  have i: "binv u" "nofail u" "lockd u = {}" using u(2) by (simp_all add: bio.idle_def)
  obtain c where c: "cached u ?bn = Some c" using r by (auto simp: refof_def split: option.splits)
  then have "\<not> lk_locked (b_lock (bcache u c))"
    using i(1,3) by (auto simp: cached_iff lockd_def)
  then have "avail u ?bn" using c by (simp add: avail_def)
  then obtain b where b: "slot_for u ?bn b"
    "bread ROOTDEV ?bn u = Ret b (u\<lparr>bcache := (bcache u)(b := held_buf (mypid u) ?bn (refof u ?bn + 1) (view u ?bn))\<rparr>)"
    using bread_ret [OF i(1) _ bn nofail_no_fallback [OF i(2)]] by blast
  with r u(1) u(3) [OF assms(2)] show ?thesis by (auto simp: slot_for_def)
qed

definition sample_crash :: "nat \<Rightarrow> block" where
  "sample_crash = (\<lambda>_ _. 0)(2 := wr32 4 70 (wr32 0 1 (\<lambda>_. 0)), 3 := (\<lambda>_. 7))"

theorem recovery_wraps_refcnt_witness:
  "head_ok 2 30 sample_crash \<and> 0 < head_n 2 sample_crash \<and>
   (\<exists>u. boot 2 30 sample_crash = Ret () u \<and> disk u 70 = (\<lambda>_. 7) \<and> refof u 70 = - 1)"
proof -
  have n: "head_n 2 sample_crash = 1" by (simp add: head_n_def sample_crash_def rd32_wr32_other)
  have b: "head_blk 2 sample_crash 0 = 70" by (simp add: head_blk_def sample_crash_def)
  have h: "head_ok 2 30 sample_crash" by (simp add: head_ok_def n b kconsts inj_on_def)
  from recovery_wraps_refcnt [OF h, of 0] h n b show ?thesis by (auto simp: sample_crash_def)
qed

text \<open>
  C3. One logged update of the file system (\<^verbatim>\<open>bread\<close>, change the data, \<^verbatim>\<open>log_write\<close>, \<^verbatim>\<open>brelse\<close>) in a
  transaction with room: it returns, the kernel sees the new contents of exactly that block,
  neither disk is written, a block already in the transaction is absorbed and another one is
  appended and stays pinned, and the invariants of cache and log hold again.
\<close>

theorem logged_update:
  fixes s :: "'x lstate_scheme"
  assumes "quiet s" and "bn < LOGICAL_DISK_SIZE" and "bn \<notin> log_area s"
    and "lh_n (log s) < int (l_size (log s)) - 1" and "1 \<le> l_outstanding (log s)"
  shows "\<exists>t. kbind (bread ROOTDEV bn) (\<lambda>b. kthen (upd_data b f) (kthen (log_write b) (brelse b))) s = Ret () t \<and>
     quiet t \<and> view t = (view s)(bn := f (view s bn)) \<and> disk t = disk s \<and> dtrace t = dtrace s \<and>
     logged t = (if bn \<in> set (logged s) then logged s else logged s @ [bn]) \<and> refof t bn = 1"
proof (rule txn_update [OF assms, of f])
  fix t
  assume t: "kbind (bread ROOTDEV bn) (\<lambda>b. kthen (upd_data b f) (kthen (log_write b) (brelse b))) s = Ret () t"
    "quiet t" "logged t = absorbed bn (logged s)" "view t = (view s)(bn := f (view s bn))"
    "disk t = disk s" "dtrace t = dtrace s"
  then show ?thesis using quietD(3) [OF t(2), of bn] by (simp add: absorbed_def)
qed

theorem logged_update_witness:
  "quiet sample_boot \<and> 40 < LOGICAL_DISK_SIZE \<and> 40 \<notin> log_area sample_boot \<and>
   (\<exists>t. kbind (bread ROOTDEV 40) (\<lambda>b. kthen (upd_data b (\<lambda>_ _. 1)) (kthen (log_write b) (brelse b))) sample_boot = Ret () t \<and>
     view t 40 = (\<lambda>_. 1) \<and> logged t = [40])"
proof -
  have h: "40 < LOGICAL_DISK_SIZE" "40 \<notin> log_area sample_boot"
    "lh_n (log sample_boot) < int (l_size (log sample_boot)) - 1" "1 \<le> l_outstanding (log sample_boot)"
    by (simp_all add: sample_boot_def log_area_def kconsts)
  have "logged sample_boot = []" by (simp add: sample_boot_def logged_def)
  with logged_update [OF sample_boot_quiet h, of "\<lambda>_ _. 1"] h sample_boot_quiet
  show ?thesis by (auto simp: kconsts)
qed

text \<open>
  C4. Admission: however the \<^verbatim>\<open>begin_op\<close>, \<^verbatim>\<open>log_write\<close> and \<^verbatim>\<open>end_op\<close> calls of any number of processes
  interleave, if no system call adds more than \<open>MAXOPBLOCKS\<close> blocks then the blocks in the log and
  those still reserved for the calls in progress never exceed \<open>LOGSIZE\<close> together.
\<close>

theorem log_admission:
  assumes "log_step\<^sup>*\<^sup>* (s, r) (t, q)" and "adm_inv (s, r)"
  shows "adm_inv (t, q) \<and> lh_n (log t) + int (reserved q) \<le> int LOGSIZE"
proof -
  have "adm_inv (t, q)"
    using assms
  proof (induction "(t, q)" arbitrary: t q rule: rtranclp_induct)
    case (step c)
    then show ?case by (cases c) (blast intro: adm_step)
  qed
  then show ?thesis by (simp add: adm_inv_def)
qed

theorem log_admission_witness:
  "log_step\<^sup>*\<^sup>* (power_on (\<lambda>_ _. 0), Map.empty)
     ((power_on (\<lambda>_ _. 0))\<lparr>log := (log (power_on (\<lambda>_ _. 0)))\<lparr>l_outstanding := 2\<rparr>\<rparr>, [1 \<mapsto> 10, 2 \<mapsto> 10]) \<and>
   adm_inv ((power_on (\<lambda>_ _. 0))\<lparr>log := (log (power_on (\<lambda>_ _. 0)))\<lparr>l_outstanding := 2\<rparr>\<rparr>, [1 \<mapsto> 10, 2 \<mapsto> 10])"
proof -
  let ?s = "power_on (\<lambda>_ _. 0)"
  let ?n = "\<lambda>k. ?s\<lparr>log := (log ?s)\<lparr>l_outstanding := k\<rparr>\<rparr>"
  have b: "begin_op ?s = Ret () (?n 1)" "begin_op (?n 1) = Ret () (?n 2)"
    by (simp_all add: begin_op_def power_on_def kconsts)
  have "log_step (?s, Map.empty) (?n 1, Map.empty(1 \<mapsto> MAXOPBLOCKS))"
    by (rule step_begin) (simp_all add: b(1))
  moreover have "log_step (?n 1, [1 \<mapsto> MAXOPBLOCKS]) (?n 2, [1 \<mapsto> MAXOPBLOCKS, 2 \<mapsto> MAXOPBLOCKS])"
    by (rule step_begin) (simp_all add: b(2))
  ultimately have st: "log_step\<^sup>*\<^sup>* (?s, Map.empty) (?n 2, [1 \<mapsto> 10, 2 \<mapsto> 10])"
    by (auto simp: kconsts intro: rtranclp.rtrancl_into_rtrancl)
  have "adm_inv (?s, Map.empty)" by (simp add: adm_inv_def power_on_def reserved_def)
  with log_admission [OF st] st show ?thesis by blast
qed

text \<open>
  C12. With the log that \<^verbatim>\<open>mkfs\<close> makes (\<^verbatim>\<open>nlog = LOGSIZE\<close>) the last admitted block does not fit: a system
  call that still has blocks reserved panics in \<^verbatim>\<open>log_write\<close> exactly when the log already holds
  \<open>LOGSIZE - 1\<close> blocks, since \<^verbatim>\<open>begin_op\<close> counts \<open>LOGSIZE\<close> blocks and \<^verbatim>\<open>log_write\<close> also leaves room for the
  header.
\<close>

theorem log_write_overflow:
  assumes "adm_inv (s, r)" and "r p = Some (Suc k)" and "l_size (log s) = LOGSIZE"
  shows "log_write b s = Panic ''too big a transaction'' \<longleftrightarrow> lh_n (log s) = int LOGSIZE - 1"
proof -
  have i: "finite (dom r)" "lh_n (log s) + int (reserved r) \<le> int LOGSIZE"
    "l_outstanding (log s) = int (card (dom r))"
    using assms(1) by (simp_all add: adm_inv_def)
  have n: "lh_n (log s) < int LOGSIZE" using reserved_drop [OF i(1) assms(2)] i(2) by simp
  have "card (dom r) > 0" using i(1) assms(2) by (auto simp: card_gt_0_iff)
  then have "1 \<le> l_outstanding (log s)" using i(3) by simp
  with n assms(3) show ?thesis
    by (auto simp: log_write_def Let_def bpin_def upd_buf_def)
qed

theorem log_write_overflow_witness:
  "adm_inv ((power_on (\<lambda>_ _. 0))\<lparr>log := (log (power_on (\<lambda>_ _. 0)))
       \<lparr>l_size := LOGSIZE, l_outstanding := 1, lh_n := 29\<rparr>\<rparr>, [1 \<mapsto> 1]) \<and>
   log_write 0 ((power_on (\<lambda>_ _. 0))\<lparr>log := (log (power_on (\<lambda>_ _. 0)))
       \<lparr>l_size := LOGSIZE, l_outstanding := 1, lh_n := 29\<rparr>\<rparr>) = Panic ''too big a transaction''"
proof -
  let ?s = "(power_on (\<lambda>_ _. 0))\<lparr>log := (log (power_on (\<lambda>_ _. 0)))
       \<lparr>l_size := LOGSIZE, l_outstanding := 1, lh_n := 29\<rparr>\<rparr>"
  have "adm_inv (?s, [1 \<mapsto> 1])" by (simp add: adm_inv_def power_on_def reserved_def kconsts)
  with log_write_overflow [of ?s "[1 \<mapsto> 1]" 1 0 0] show ?thesis by (simp add: kconsts)
qed

end
