(* ===== verification/Strings.thy ===== *)
theory Strings
  imports Prelude
begin

text \<open>
  The memory and string routines of \<^verbatim>\<open>kernel/string.c\<close> and \<^verbatim>\<open>user/ulib.c\<close> on an explicit memory: a
  pointer is an address, \<^verbatim>\<open>*p\<close> is \<open>m p\<close>, and a routine that stores returns the changed memory. On
  RISC-V \<^verbatim>\<open>char\<close> is unsigned, so a \<^verbatim>\<open>char\<close> read as \<^verbatim>\<open>int\<close> is the byte's value. A loop that runs
  until it meets a byte is a \<open>partial_function\<close>: no such byte is the value \<^const>\<open>None\<close>.
\<close>

type_synonym mem = "nat \<Rightarrow> byte"

section \<open>kernel/string.c\<close>

primrec memset :: "nat \<Rightarrow> byte \<Rightarrow> nat \<Rightarrow> nat \<Rightarrow> mem \<Rightarrow> mem" where
  "memset dst c i 0 m = m"
| "memset dst c i (Suc k) m = memset dst c (Suc i) k (m(dst + i := c))"

primrec memcmp :: "mem \<Rightarrow> nat \<Rightarrow> nat \<Rightarrow> nat \<Rightarrow> int" where
  "memcmp m s1 s2 0 = 0"
| "memcmp m s1 s2 (Suc n) =
     (if m s1 \<noteq> m s2 then uint (m s1) - uint (m s2) else memcmp m (s1 + 1) (s2 + 1) n)"

text \<open>The two loops of \<^verbatim>\<open>memmove\<close>: \<^verbatim>\<open>*d++ = *s++\<close> upwards and \<^verbatim>\<open>*--d = *--s\<close> downwards.\<close>

primrec copy_up :: "nat \<Rightarrow> nat \<Rightarrow> nat \<Rightarrow> mem \<Rightarrow> mem" where
  "copy_up d s 0 m = m"
| "copy_up d s (Suc n) m = copy_up (d + 1) (s + 1) n (m(d := m s))"

primrec copy_down :: "nat \<Rightarrow> nat \<Rightarrow> nat \<Rightarrow> mem \<Rightarrow> mem" where
  "copy_down d s 0 m = m"
| "copy_down d s (Suc n) m = copy_down (d - 1) (s - 1) n (m(d - 1 := m (s - 1)))"

definition memmove :: "nat \<Rightarrow> nat \<Rightarrow> nat \<Rightarrow> mem \<Rightarrow> mem" where
  "memmove dst src n m =
     (if src < dst \<and> src + n > dst then copy_down (dst + n) (src + n) n m
      else copy_up dst src n m)"

definition memcpy :: "nat \<Rightarrow> nat \<Rightarrow> nat \<Rightarrow> mem \<Rightarrow> mem" where
  "memcpy dst src n m = memmove dst src n m"

primrec strncmp :: "mem \<Rightarrow> nat \<Rightarrow> mem \<Rightarrow> nat \<Rightarrow> nat \<Rightarrow> int" where
  "strncmp mp p mq q 0 = 0"
| "strncmp mp p mq q (Suc n) =
     (if mp p \<noteq> 0 \<and> mp p = mq q then strncmp mp (p + 1) mq (q + 1) n
      else uint (mp p) - uint (mq q))"

text \<open>
  \<^verbatim>\<open>strncpy\<close>: the copying loop up to and including a NUL, then the padding loop. The copying loop
  gives back how many bytes are left.
\<close>

primrec strncpy_pad :: "nat \<Rightarrow> nat \<Rightarrow> mem \<Rightarrow> mem" where
  "strncpy_pad s 0 m = m"
| "strncpy_pad s (Suc n) m = strncpy_pad (s + 1) n (m(s := 0))"

primrec strncpy_copy :: "nat \<Rightarrow> nat \<Rightarrow> nat \<Rightarrow> mem \<Rightarrow> mem" where
  "strncpy_copy s t 0 m = m"
| "strncpy_copy s t (Suc n) m =
     (let m' = m(s := m t) in
      if m t \<noteq> 0 then strncpy_copy (s + 1) (t + 1) n m' else strncpy_pad (s + 1) n m')"

definition strncpy :: "nat \<Rightarrow> nat \<Rightarrow> int \<Rightarrow> mem \<Rightarrow> mem" where
  "strncpy s t n m = strncpy_copy s t (nat n) m"

primrec safestrcpy_loop :: "nat \<Rightarrow> nat \<Rightarrow> nat \<Rightarrow> mem \<Rightarrow> mem" where
  "safestrcpy_loop s t 0 m = m(s := 0)"
| "safestrcpy_loop s t (Suc n) m =
     (let m' = m(s := m t) in
      if m t \<noteq> 0 then safestrcpy_loop (s + 1) (t + 1) n m' else m'(s + 1 := 0))"

definition safestrcpy :: "nat \<Rightarrow> nat \<Rightarrow> int \<Rightarrow> mem \<Rightarrow> mem" where
  "safestrcpy s t n m = (if n \<le> 0 then m else safestrcpy_loop s t (nat n - 1) m)"

partial_function (option) strlen_loop :: "mem \<Rightarrow> nat \<Rightarrow> nat \<Rightarrow> nat option" where
  "strlen_loop m s n = (if m (s + n) \<noteq> 0 then strlen_loop m s (n + 1) else Some n)"

definition strlen :: "mem \<Rightarrow> nat \<Rightarrow> nat option" where
  "strlen m s = strlen_loop m s 0"

section \<open>user/ulib.c\<close>

partial_function (option) u_strcpy :: "nat \<Rightarrow> nat \<Rightarrow> mem \<Rightarrow> mem option" where
  "u_strcpy s t m =
     (let m' = m(s := m t) in if m t \<noteq> 0 then u_strcpy (s + 1) (t + 1) m' else Some m')"

partial_function (option) u_strcmp :: "mem \<Rightarrow> nat \<Rightarrow> nat \<Rightarrow> int option" where
  "u_strcmp m p q =
     (if m p \<noteq> 0 \<and> m p = m q then u_strcmp m (p + 1) (q + 1) else Some (uint (m p) - uint (m q)))"

definition u_strlen :: "mem \<Rightarrow> nat \<Rightarrow> nat option" where
  "u_strlen m s = strlen_loop m s 0"

definition u_memset :: "nat \<Rightarrow> byte \<Rightarrow> nat \<Rightarrow> mem \<Rightarrow> mem" where
  "u_memset dst c n m = memset dst c 0 n m"

partial_function (option) u_strchr :: "mem \<Rightarrow> nat \<Rightarrow> byte \<Rightarrow> nat option option" where
  "u_strchr m s c =
     (if m s \<noteq> 0 then if m s = c then Some (Some s) else u_strchr m (s + 1) c else Some None)"

partial_function (option) u_atoi_loop :: "mem \<Rightarrow> nat \<Rightarrow> 32 word \<Rightarrow> 32 word option" where
  "u_atoi_loop m s n =
     (if 48 \<le> uint (m s) \<and> uint (m s) \<le> 57
      then u_atoi_loop m (s + 1) (n * 10 + ucast (m s) - 48) else Some n)"

definition u_atoi :: "mem \<Rightarrow> nat \<Rightarrow> int option" where
  "u_atoi m s = map_option sint (u_atoi_loop m s 0)"

definition u_memmove :: "nat \<Rightarrow> nat \<Rightarrow> nat \<Rightarrow> mem \<Rightarrow> mem" where
  "u_memmove vdst vsrc n m =
     (if vsrc > vdst then copy_up vdst vsrc n m else copy_down (vdst + n) (vsrc + n) n m)"

primrec u_memcmp :: "mem \<Rightarrow> nat \<Rightarrow> nat \<Rightarrow> nat \<Rightarrow> int" where
  "u_memcmp m p1 p2 0 = 0"
| "u_memcmp m p1 p2 (Suc n) =
     (if m p1 \<noteq> m p2 then uint (m p1) - uint (m p2) else u_memcmp m (p1 + 1) (p2 + 1) n)"

definition u_memcpy :: "nat \<Rightarrow> nat \<Rightarrow> nat \<Rightarrow> mem \<Rightarrow> mem" where
  "u_memcpy dst src n m = u_memmove dst src n m"

text \<open>
  \<^verbatim>\<open>gets\<close> reads standard input byte by byte. The input still to be delivered is a list; \<^verbatim>\<open>read\<close>
  returns less than 1 at its end.
\<close>

fun gets_loop :: "nat \<Rightarrow> int \<Rightarrow> nat \<Rightarrow> byte list \<Rightarrow> mem \<Rightarrow> mem \<times> byte list" where
  "gets_loop buf mx i inp m =
     (if int i + 1 < mx
      then (case inp of
              [] \<Rightarrow> (m(buf + i := 0), [])
            | c # rest \<Rightarrow>
                let m' = m(buf + i := c) in
                if c = 10 \<or> c = 13 then (m'(buf + (i + 1) := 0), rest)
                else gets_loop buf mx (i + 1) rest m')
      else (m(buf + i := 0), inp))"

definition gets :: "nat \<Rightarrow> int \<Rightarrow> byte list \<Rightarrow> mem \<Rightarrow> mem \<times> byte list" where
  "gets buf mx inp m = gets_loop buf mx 0 inp m"

section \<open>What the copies do\<close>

text \<open>The contents after moving \<open>n\<close> bytes as if through a temporary copy.\<close>

definition moved :: "nat \<Rightarrow> nat \<Rightarrow> nat \<Rightarrow> mem \<Rightarrow> mem" where
  "moved dst src n m = (\<lambda>a. if dst \<le> a \<and> a < dst + n then m (src + (a - dst)) else m a)"

lemma copy_up_moved:
  assumes "dst \<le> src \<or> src + n \<le> dst"
  shows "copy_up dst src n m = moved dst src n m"
  using assms
proof (induction n arbitrary: dst src m)
  case 0
  then show ?case by (auto simp: moved_def fun_eq_iff)
next
  case (Suc n)
  have "dst + 1 \<le> src + 1 \<or> src + 1 + n \<le> dst + 1" using Suc.prems by auto
  then have "copy_up dst src (Suc n) m = moved (dst + 1) (src + 1) n (m(dst := m src))"
    unfolding copy_up.simps by (rule Suc.IH)
  also have "\<dots> = moved dst src (Suc n) m"
  proof
    fix a
    have "dst < a \<Longrightarrow> src + 1 + (a - (dst + 1)) = src + (a - dst)" by simp
    with Suc.prems show "moved (dst + 1) (src + 1) n (m(dst := m src)) a = moved dst src (Suc n) m a"
      by (auto simp: moved_def)
  qed
  finally show ?case .
qed

lemma copy_down_moved:
  assumes "src \<le> dst \<or> dst + n \<le> src"
  shows "copy_down (dst + n) (src + n) n m = moved dst src n m"
  using assms
proof (induction n arbitrary: m)
  case 0
  then show ?case by (auto simp: moved_def fun_eq_iff)
next
  case (Suc n)
  have "copy_down (dst + Suc n) (src + Suc n) (Suc n) m = moved dst src n (m(dst + n := m (src + n)))"
    using Suc by auto
  also have "\<dots> = moved dst src (Suc n) m"
    using Suc.prems by (auto simp: moved_def fun_eq_iff less_Suc_eq)
  finally show ?case .
qed

lemma memset_eq: "memset dst c i n m a = (if dst + i \<le> a \<and> a < dst + i + n then c else m a)"
  by (induction n arbitrary: i m) auto

lemma strncpy_pad_eq: "strncpy_pad s n m a = (if s \<le> a \<and> a < s + n then 0 else m a)"
  by (induction n arbitrary: s m) auto

lemma strlen_loop_found:
  assumes "\<And>j. n \<le> j \<Longrightarrow> j < n + k \<Longrightarrow> m (s + j) \<noteq> 0" and "m (s + (n + k)) = 0"
  shows "strlen_loop m s n = Some (n + k)"
  using assms
proof (induction k arbitrary: n)
  case 0
  then show ?case by (subst strlen_loop.simps) simp
next
  case (Suc k)
  have "strlen_loop m s (n + 1) = Some (n + 1 + k)"
    by (rule Suc.IH) (use Suc.prems in auto)
  moreover have "m (s + n) \<noteq> 0" using Suc.prems(1) [of n] by simp
  ultimately show ?case by (subst strlen_loop.simps) simp
qed

lemma safestrcpy_loop_spec:
  "\<exists>k\<le>n. (safestrcpy_loop s t n m) (s + k) = 0 \<and>
     (\<forall>a. a < s \<or> s + n < a \<longrightarrow> (safestrcpy_loop s t n m) a = m a)"
proof (induction n arbitrary: s t m)
  case (Suc n)
  show ?case
  proof (cases "m t = 0")
    case True
    then show ?thesis by (intro exI [of _ 0]) (auto simp: Let_def)
  next
    case False
    from Suc [of "s + 1" "t + 1" "m(s := m t)"] obtain k where
      "k \<le> n" "(safestrcpy_loop (s + 1) (t + 1) n (m(s := m t))) (s + 1 + k) = 0"
      "\<forall>a. a < s + 1 \<or> s + 1 + n < a \<longrightarrow> (safestrcpy_loop (s + 1) (t + 1) n (m(s := m t))) a = (m(s := m t)) a"
      by blast
    with False show ?thesis by (intro exI [of _ "Suc k"]) auto
  qed
qed auto

section \<open>Properties\<close>

text \<open>
  C13. \<^verbatim>\<open>memmove\<close> of the kernel and of the user library move the bytes as if through a temporary
  buffer, however the two ranges overlap, and change nothing outside the destination.
\<close>

theorem memmove_correct:
  "memmove dst src n m = moved dst src n m \<and> u_memmove dst src n m = moved dst src n m"
  by (auto simp: memmove_def u_memmove_def copy_up_moved copy_down_moved)



end
