(* ===== verification/Fs.thy ===== *)
theory Fs
  imports Log Strings
begin

unbundle bit_operations_syntax

text \<open>
  The operations of \<^verbatim>\<open>kernel/fs.c\<close>: block allocator, inode cache, inode contents, directories
  and path names. \<open>fstate\<close> adds the superblock, the inode cache and the current directory of the
  calling process to the state of the log. An inode pointer is an index into the cache; where the
  code may have a null pointer the model has an option, so the tests for null in \<^verbatim>\<open>ilock\<close> and
  \<^verbatim>\<open>iunlock\<close> have no counterpart. A \<^verbatim>\<open>short\<close> is a \<open>16 word\<close>. Functions that copy to or from an address
  take what the copy does as an argument; functions whose loops are not bounded by the code take
  fuel and give \<^const>\<open>Loop\<close> when it runs out.
\<close>

section \<open>Constants and data\<close>

definition FSMAGIC :: nat where "FSMAGIC = 0x10203040"
definition NDIRECT :: nat where [kconsts]: "NDIRECT = 12"
definition NINDIRECT :: nat where "NINDIRECT = BSIZE div 4"
definition MAXFILE :: nat where "MAXFILE = NDIRECT + NINDIRECT"
definition IPB :: nat where "IPB = BSIZE div 64"
definition BPB :: nat where "BPB = BSIZE * 8"
definition DIRSIZ :: nat where [kconsts]: "DIRSIZ = 14"
definition NINODE :: nat where [kconsts]: "NINODE = 50"
definition ROOTINO :: nat where [kconsts]: "ROOTINO = 1"
definition MAXPATH :: nat where [kconsts]: "MAXPATH = 128"

definition T_DIR :: "16 word" where [kconsts]: "T_DIR = 1"
definition T_FILE :: "16 word" where [kconsts]: "T_FILE = 2"
definition T_DEVICE :: "16 word" where [kconsts]: "T_DEVICE = 3"
definition T_SYMLINK :: "16 word" where [kconsts]: "T_SYMLINK = 4"
definition M_READ :: "16 word" where [kconsts]: "M_READ = 1"
definition M_WRITE :: "16 word" where [kconsts]: "M_WRITE = 2"
definition M_ALL :: "16 word" where [kconsts]: "M_ALL = 3"

lemma fs_const_vals [kconsts]: "NINDIRECT = 256" "MAXFILE = 268" "IPB = 16" "BPB = 8192"
  by (simp_all add: NINDIRECT_def MAXFILE_def NDIRECT_def IPB_def BPB_def BSIZE_def)

record superblock =
  sb_magic :: nat
  sb_size :: nat
  sb_nblocks :: nat
  sb_ninodes :: nat
  sb_nlog :: nat
  sb_logstart :: nat
  sb_inodestart :: nat
  sb_bmapstart :: nat

record inode =
  i_dev :: nat
  i_inum :: nat
  i_ref :: int
  i_lock :: sleeplock
  i_valid :: bool
  i_type :: "16 word"
  i_major :: "16 word"
  i_mode :: "16 word"
  i_nlink :: "16 word"
  i_size :: nat
  i_addrs :: "nat \<Rightarrow> nat"

record stat =
  st_dev :: nat
  st_ino :: nat
  st_type :: "16 word"
  st_nlink :: "16 word"
  st_size :: nat
  st_mode :: "16 word"

record fstate = lstate +
  sb :: superblock
  icache :: "nat \<Rightarrow> inode"
  cwd :: nat

definition IBLOCK :: "nat \<Rightarrow> superblock \<Rightarrow> nat" where
  "IBLOCK i b = i div IPB + sb_inodestart b"

definition BBLOCK :: "nat \<Rightarrow> superblock \<Rightarrow> nat" where
  "BBLOCK b s = b div BPB + sb_bmapstart s"

definition upd_inode :: "nat \<Rightarrow> (inode \<Rightarrow> inode) \<Rightarrow> ('x fstate_scheme, unit) kernel" where
  "upd_inode ip f = kmod (\<lambda>s. s\<lparr>icache := (icache s)(ip := f (icache s ip))\<rparr>)"

section \<open>Superblock and block allocator\<close>

text \<open>\<^verbatim>\<open>memmove(sb, bp->data, sizeof( *sb))\<close>\<close>

definition get_sb :: "block \<Rightarrow> superblock" where
  "get_sb d = \<lparr>sb_magic = rd32 d 0, sb_size = rd32 d 4, sb_nblocks = rd32 d 8, sb_ninodes = rd32 d 12,
     sb_nlog = rd32 d 16, sb_logstart = rd32 d 20, sb_inodestart = rd32 d 24, sb_bmapstart = rd32 d 28\<rparr>"

definition readsb :: "nat \<Rightarrow> ('x fstate_scheme, unit) kernel" where
  "readsb dev =
     kbind (bread dev 1) (\<lambda>bp.
     kthen (kmod (\<lambda>s. s\<lparr>sb := get_sb (b_data (bcache s bp))\<rparr>))
           (brelse bp))"

definition fsinit :: "nat \<Rightarrow> ('x fstate_scheme, unit) kernel" where
  "fsinit dev =
     kthen (readsb dev)
       (\<lambda>s. if sb_magic (sb s) \<noteq> FSMAGIC then Panic ''invalid file system''
            else initlog dev (sb_logstart (sb s)) (sb_nlog (sb s)) s)"

definition bzero :: "nat \<Rightarrow> nat \<Rightarrow> ('x fstate_scheme, unit) kernel" where
  "bzero dev bno =
     kbind (bread dev bno) (\<lambda>bp.
     kthen (upd_data bp (memset 0 0 0 BSIZE))
    (kthen (log_write bp)
           (brelse bp)))"

text \<open>The inner loop of \<^verbatim>\<open>balloc\<close> at bit \<open>bi\<close> with \<open>k\<close> bits of the block left.\<close>

primrec bit_scan :: "block \<Rightarrow> nat \<Rightarrow> nat \<Rightarrow> nat \<Rightarrow> nat \<Rightarrow> nat option" where
  "bit_scan d b sz bi 0 = None"
| "bit_scan d b sz bi (Suc k) =
     (if b + bi < sz
      then if d (bi div 8) AND push_bit (bi mod 8) 1 = 0 then Some bi else bit_scan d b sz (Suc bi) k
      else None)"

primrec balloc_loop :: "nat \<Rightarrow> nat \<Rightarrow> nat \<Rightarrow> ('x fstate_scheme, nat) kernel" where
  "balloc_loop 0 dev b s = Loop"
| "balloc_loop (Suc k) dev b s =
     (if b < sb_size (sb s)
      then kbind (bread dev (BBLOCK b (sb s))) (\<lambda>bp s.
             case bit_scan (b_data (bcache s bp)) b (sb_size (sb s)) 0 BPB of
               Some bi \<Rightarrow>
                 kthen (upd_data bp (\<lambda>d. d(bi div 8 := d (bi div 8) OR push_bit (bi mod 8) 1)))
                (kthen (log_write bp)
                (kthen (brelse bp)
                (kthen (bzero dev (b + bi))
                       (kret (b + bi))))) s
             | None \<Rightarrow> kthen (brelse bp) (balloc_loop k dev (b + BPB)) s) s
      else Panic ''balloc: out of blocks'')"

definition balloc :: "nat \<Rightarrow> ('x fstate_scheme, nat) kernel" where
  "balloc dev s = balloc_loop (Suc (Suc (sb_size (sb s) div BPB))) dev 0 s"

definition bfree :: "nat \<Rightarrow> nat \<Rightarrow> ('x fstate_scheme, unit) kernel" where
  "bfree dev b s =
     kbind (bread dev (BBLOCK b (sb s))) (\<lambda>bp s.
       let bi = b mod BPB; m = push_bit (bi mod 8) 1 in
       if b_data (bcache s bp) (bi div 8) AND m = 0 then Panic ''freeing free block''
       else kthen (upd_data bp (\<lambda>d. d(bi div 8 := d (bi div 8) AND NOT m)))
           (kthen (log_write bp)
                  (brelse bp)) s) s"

section \<open>Inodes\<close>

definition iinit :: "'x fstate_scheme \<Rightarrow> 'x fstate_scheme" where
  "iinit s = s\<lparr>icache := (\<lambda>i. if i < NINODE then (icache s i)\<lparr>i_lock := initsleeplock\<rparr> else icache s i)\<rparr>"

text \<open>
  The loop of \<^verbatim>\<open>iget\<close> at entry \<open>i\<close> with \<open>k\<close> entries left: the entry that holds the inode, or the
  first free one.
\<close>

primrec iget_scan :: "(nat \<Rightarrow> inode) \<Rightarrow> nat \<Rightarrow> nat \<Rightarrow> nat option \<Rightarrow> nat \<Rightarrow> nat \<Rightarrow> nat + nat option" where
  "iget_scan c dev inum emp i 0 = Inr emp"
| "iget_scan c dev inum emp i (Suc k) =
     (if i_ref (c i) > 0 \<and> i_dev (c i) = dev \<and> i_inum (c i) = inum then Inl i
      else iget_scan c dev inum (if emp = None \<and> i_ref (c i) = 0 then Some i else emp) (Suc i) k)"

definition iget :: "nat \<Rightarrow> nat \<Rightarrow> ('x fstate_scheme, nat) kernel" where
  "iget dev inum s =
     (case iget_scan (icache s) dev inum None 0 NINODE of
        Inl ip \<Rightarrow> kthen (upd_inode ip (\<lambda>x. x\<lparr>i_ref := i_ref x + 1\<rparr>)) (kret ip) s
      | Inr None \<Rightarrow> Panic ''iget: no inodes''
      | Inr (Some ip) \<Rightarrow>
          kthen (upd_inode ip (\<lambda>x. x\<lparr>i_dev := dev, i_inum := inum, i_ref := 1, i_valid := False\<rparr>)) (kret ip) s)"

definition idup :: "nat \<Rightarrow> ('x fstate_scheme, nat) kernel" where
  "idup ip = kthen (upd_inode ip (\<lambda>x. x\<lparr>i_ref := i_ref x + 1\<rparr>)) (kret ip)"

text \<open>The \<^verbatim>\<open>struct dinode\<close> at offset \<open>off\<close> of a block, and the offset of inode \<open>inum\<close> in its block.\<close>

definition dip_off :: "nat \<Rightarrow> nat" where
  "dip_off inum = 64 * (inum mod IPB)"

definition put_dinode :: "nat \<Rightarrow> inode \<Rightarrow> block \<Rightarrow> block" where
  "put_dinode off ip d =
     wr_uints (off + 12) (map (i_addrs ip) [0..<NDIRECT + 1])
    (wr32 (off + 8) (i_size ip)
    (wr16 (off + 6) (unat (i_nlink ip))
    (wr16 (off + 4) (unat (i_mode ip))
    (wr16 (off + 2) (unat (i_major ip))
    (wr16 off (unat (i_type ip)) d)))))"

definition get_dinode :: "nat \<Rightarrow> block \<Rightarrow> inode \<Rightarrow> inode" where
  "get_dinode off d ip =
     ip\<lparr>i_type := word_of_nat (rd16 d off), i_major := word_of_nat (rd16 d (off + 2)),
        i_mode := word_of_nat (rd16 d (off + 4)), i_nlink := word_of_nat (rd16 d (off + 6)),
        i_size := rd32 d (off + 8),
        i_addrs := (\<lambda>i. if i < NDIRECT + 1 then rd32 d (off + 12 + 4 * i) else i_addrs ip i)\<rparr>"

text \<open>\<open>inum\<close> is the inode looked at and \<open>k\<close> the number of inodes left.\<close>

primrec ialloc_loop :: "nat \<Rightarrow> 16 word \<Rightarrow> nat \<Rightarrow> nat \<Rightarrow> ('x fstate_scheme, nat) kernel" where
  "ialloc_loop dev type inum 0 = kpanic ''ialloc: no inodes''"
| "ialloc_loop dev type inum (Suc k) =
     (\<lambda>s. kbind (bread dev (IBLOCK inum (sb s))) (\<lambda>bp s.
        let off = dip_off inum in
        if rd16 (b_data (bcache s bp)) off = 0
        then kthen (upd_data bp (\<lambda>d. wr16 (off + 4) (unat M_ALL) (wr16 off (unat type) (memset off 0 0 64 d))))
            (kthen (log_write bp)
            (kthen (brelse bp)
                   (iget dev inum))) s
        else kthen (brelse bp) (ialloc_loop dev type (Suc inum) k) s) s)"

definition ialloc :: "nat \<Rightarrow> 16 word \<Rightarrow> ('x fstate_scheme, nat) kernel" where
  "ialloc dev type s = ialloc_loop dev type 1 (sb_ninodes (sb s) - 1) s"

definition iupdate :: "nat \<Rightarrow> ('x fstate_scheme, unit) kernel" where
  "iupdate ip s =
     kbind (bread (i_dev (icache s ip)) (IBLOCK (i_inum (icache s ip)) (sb s))) (\<lambda>bp s.
       kthen (upd_data bp (put_dinode (dip_off (i_inum (icache s ip))) (icache s ip)))
      (kthen (log_write bp)
             (brelse bp)) s) s"

definition inode_acquiresleep :: "nat \<Rightarrow> ('x fstate_scheme, unit) kernel" where
  "inode_acquiresleep ip s =
     (case acquiresleep (mypid s) (i_lock (icache s ip)) of
        None \<Rightarrow> Sleep ''inode''
      | Some lk \<Rightarrow> upd_inode ip (\<lambda>x. x\<lparr>i_lock := lk\<rparr>) s)"

definition inode_releasesleep :: "nat \<Rightarrow> ('x fstate_scheme, unit) kernel" where
  "inode_releasesleep ip = upd_inode ip (\<lambda>x. x\<lparr>i_lock := releasesleep (i_lock x)\<rparr>)"

definition ilock :: "nat \<Rightarrow> ('x fstate_scheme, unit) kernel" where
  "ilock ip s =
     (if i_ref (icache s ip) < 1 then Panic ''ilock''
      else kthen (inode_acquiresleep ip)
        (\<lambda>s. if \<not> i_valid (icache s ip)
             then kbind (bread (i_dev (icache s ip)) (IBLOCK (i_inum (icache s ip)) (sb s))) (\<lambda>bp s.
                    kthen (upd_inode ip (get_dinode (dip_off (i_inum (icache s ip))) (b_data (bcache s bp))))
                   (kthen (brelse bp)
                   (kthen (upd_inode ip (\<lambda>x. x\<lparr>i_valid := True\<rparr>))
                          (\<lambda>s. if i_type (icache s ip) = 0 then Panic ''ilock: no type'' else Ret () s))) s) s
             else Ret () s) s)"

definition iunlock :: "nat \<Rightarrow> ('x fstate_scheme, unit) kernel" where
  "iunlock ip s =
     (if \<not> holdingsleep (mypid s) (i_lock (icache s ip)) \<or> i_ref (icache s ip) < 1 then Panic ''iunlock''
      else inode_releasesleep ip s)"

text \<open>\<^verbatim>\<open>itrunc\<close>: the loops over the direct blocks and over the entries of the indirect block \<open>bp\<close>.\<close>

definition itrunc_direct :: "nat \<Rightarrow> nat \<Rightarrow> ('x fstate_scheme, unit) kernel" where
  "itrunc_direct ip i s =
     (if i_addrs (icache s ip) i \<noteq> 0
      then kthen (bfree (i_dev (icache s ip)) (i_addrs (icache s ip) i))
                 (upd_inode ip (\<lambda>x. x\<lparr>i_addrs := (i_addrs x)(i := 0)\<rparr>)) s
      else Ret () s)"

definition itrunc_indirect :: "nat \<Rightarrow> nat \<Rightarrow> nat \<Rightarrow> ('x fstate_scheme, unit) kernel" where
  "itrunc_indirect ip bp j s =
     (let a = rd32 (b_data (bcache s bp)) (4 * j) in
      if a \<noteq> 0 then bfree (i_dev (icache s ip)) a s else Ret () s)"

definition itrunc :: "nat \<Rightarrow> ('x fstate_scheme, unit) kernel" where
  "itrunc ip =
     kthen (kfor 0 NDIRECT (itrunc_direct ip))
    (kthen (\<lambda>s. if i_addrs (icache s ip) NDIRECT \<noteq> 0
                then kbind (bread (i_dev (icache s ip)) (i_addrs (icache s ip) NDIRECT)) (\<lambda>bp.
                     kthen (kfor 0 NINDIRECT (itrunc_indirect ip bp))
                    (kthen (brelse bp)
                    (kthen (\<lambda>s. bfree (i_dev (icache s ip)) (i_addrs (icache s ip) NDIRECT) s)
                           (upd_inode ip (\<lambda>x. x\<lparr>i_addrs := (i_addrs x)(NDIRECT := 0)\<rparr>))))) s
                else Ret () s)
    (kthen (upd_inode ip (\<lambda>x. x\<lparr>i_size := 0\<rparr>))
           (iupdate ip)))"

text \<open>The \<^verbatim>\<open>acquiresleep\<close> in \<^verbatim>\<open>iput\<close> is made with \<^verbatim>\<open>icache.lock\<close> held.\<close>

definition iput :: "nat \<Rightarrow> ('x fstate_scheme, unit) kernel" where
  "iput ip =
     kthen (\<lambda>s. if i_ref (icache s ip) = 1 \<and> i_valid (icache s ip) \<and> i_nlink (icache s ip) = 0
                then kthen (spin_held (inode_acquiresleep ip))
                    (kthen (itrunc ip)
                    (kthen (upd_inode ip (\<lambda>x. x\<lparr>i_type := 0\<rparr>))
                    (kthen (iupdate ip)
                    (kthen (upd_inode ip (\<lambda>x. x\<lparr>i_valid := False\<rparr>))
                           (inode_releasesleep ip))))) s
                else Ret () s)
           (upd_inode ip (\<lambda>x. x\<lparr>i_ref := i_ref x - 1\<rparr>))"

definition iunlockput :: "nat \<Rightarrow> ('x fstate_scheme, unit) kernel" where
  "iunlockput ip = kthen (iunlock ip) (iput ip)"

section \<open>Inode contents\<close>

definition bmap :: "nat \<Rightarrow> nat \<Rightarrow> ('x fstate_scheme, nat) kernel" where
  "bmap ip bn s =
     (if bn < NDIRECT
      then let addr = i_addrs (icache s ip) bn in
           if addr = 0
           then kbind (balloc (i_dev (icache s ip))) (\<lambda>addr.
                  if addr = 0 then kpanic ''bmap: balloc failed''
                  else kthen (upd_inode ip (\<lambda>x. x\<lparr>i_addrs := (i_addrs x)(bn := addr)\<rparr>)) (kret addr)) s
           else Ret addr s
      else let bn = bn - NDIRECT in
           if bn < NINDIRECT
           then kbind (\<lambda>s. if i_addrs (icache s ip) NDIRECT = 0
                           then kbind (balloc (i_dev (icache s ip))) (\<lambda>addr.
                                  if addr = 0 then kpanic ''bmap: balloc failed for indirect block''
                                  else kthen (upd_inode ip (\<lambda>x. x\<lparr>i_addrs := (i_addrs x)(NDIRECT := addr)\<rparr>))
                                             (kret addr)) s
                           else Ret (i_addrs (icache s ip) NDIRECT) s) (\<lambda>addr s.
                kbind (bread (i_dev (icache s ip)) addr) (\<lambda>bp s.
                  let target_addr = rd32 (b_data (bcache s bp)) (4 * bn) in
                  kbind (if target_addr = 0
                         then kbind (balloc (i_dev (icache s ip))) (\<lambda>target_addr.
                                if target_addr = 0 then kpanic ''bmap: balloc failed for data block via indirect''
                                else kthen (upd_data bp (wr32 (4 * bn) target_addr))
                                    (kthen (log_write bp)
                                           (kret target_addr)))
                         else kret target_addr) (\<lambda>target_addr.
                  kthen (brelse bp)
                        (kret target_addr)) s) s) s
           else Panic ''bmap: out of range'')"

definition stati :: "inode \<Rightarrow> stat" where
  "stati ip = \<lparr>st_dev = i_dev ip, st_ino = i_inum ip, st_type = i_type ip, st_nlink = i_nlink ip,
     st_size = i_size ip, st_mode = i_mode ip\<rparr>"

text \<open>
  \<^verbatim>\<open>readi\<close> returns its result and the bytes copied out; \<open>out tot bs\<close> says whether
  \<^verbatim>\<open>either_copyout\<close> of \<open>bs\<close> to the destination plus \<open>tot\<close> succeeds. Every round of the loop moves at
  least one byte, so \<open>n\<close> rounds are enough.
\<close>

primrec readi_loop ::
  "nat \<Rightarrow> nat \<Rightarrow> (nat \<Rightarrow> byte list \<Rightarrow> bool) \<Rightarrow> nat \<Rightarrow> nat \<Rightarrow> nat \<Rightarrow> byte list \<Rightarrow> ('x fstate_scheme, nat \<times> byte list) kernel"
where
  "readi_loop 0 ip out off n tot acc s = (if tot < n then Loop else Ret (tot, acc) s)"
| "readi_loop (Suc k) ip out off n tot acc s =
     (if tot < n
      then kbind (bmap ip (off div BSIZE)) (\<lambda>addr s.
           kbind (bread (i_dev (icache s ip)) addr) (\<lambda>bp s.
             let m = min (n - tot) (BSIZE - off mod BSIZE);
                 bs = get_bytes (b_data (bcache s bp)) (off mod BSIZE) m
             in if \<not> out tot bs then kthen (brelse bp) (kret (tot, acc)) s
                else kthen (brelse bp) (readi_loop k ip out (off + m) n (tot + m) (acc @ bs)) s) s) s
      else Ret (tot, acc) s)"

definition readi ::
  "nat \<Rightarrow> (nat \<Rightarrow> byte list \<Rightarrow> bool) \<Rightarrow> nat \<Rightarrow> nat \<Rightarrow> ('x fstate_scheme, int \<times> byte list) kernel"
where
  "readi ip out off n s =
     (let x = icache s ip in
      if \<not> (i_type x = T_FILE \<or> i_type x = T_SYMLINK \<or> i_type x = T_DIR) then Ret (- 1, []) s
      else if off > i_size x \<or> (off + n) mod 2 ^ 32 < off then Ret (0, []) s
      else let n = (if off + n > i_size x then i_size x - off else n) in
           kbind (readi_loop n ip out off n 0 []) (\<lambda>r. kret (int (fst r), snd r)) s)"

text \<open>
  \<open>src tot m\<close> is what \<^verbatim>\<open>either_copyin\<close> of \<open>m\<close> bytes from the source plus \<open>tot\<close> stores, and whether it
  succeeds; a failing copy may have stored some bytes.
\<close>

primrec writei_loop ::
  "nat \<Rightarrow> nat \<Rightarrow> (nat \<Rightarrow> nat \<Rightarrow> byte list \<times> bool) \<Rightarrow> nat \<Rightarrow> nat \<Rightarrow> nat \<Rightarrow> ('x fstate_scheme, nat) kernel"
where
  "writei_loop 0 ip src off n tot s = (if tot < n then Loop else Ret off s)"
| "writei_loop (Suc k) ip src off n tot s =
     (if tot < n
      then kbind (bmap ip (off div BSIZE)) (\<lambda>disk_lbn s.
           kbind (bread (i_dev (icache s ip)) disk_lbn) (\<lambda>bp.
             let m = min (n - tot) (BSIZE - off mod BSIZE) in
             kthen (upd_data bp (put_bytes (off mod BSIZE) (fst (src tot m))))
                   (if \<not> snd (src tot m) then kthen (brelse bp) (kret off)
                    else kthen (log_write bp)
                        (kthen (brelse bp)
                               (writei_loop k ip src (off + m) n (tot + m))))) s) s
      else Ret off s)"

definition writei ::
  "nat \<Rightarrow> (nat \<Rightarrow> nat \<Rightarrow> byte list \<times> bool) \<Rightarrow> nat \<Rightarrow> nat \<Rightarrow> ('x fstate_scheme, int) kernel"
where
  "writei ip src off n s =
     (if off > i_size (icache s ip) \<or> (off + n) mod 2 ^ 32 < off then Ret (- 1) s
      else if off + n > MAXFILE * BSIZE then Ret (- 1) s
      else kbind (writei_loop n ip src off n 0) (\<lambda>off.
           kthen (kwhen (n > 0)
                   (kthen (\<lambda>s. if off > i_size (icache s ip) then upd_inode ip (\<lambda>x. x\<lparr>i_size := off\<rparr>) s else Ret () s)
                          (iupdate ip)))
                 (kret (int n))) s)"

section \<open>Directories\<close>

text \<open>A kernel buffer as destination or source: the copy succeeds.\<close>

definition kernel_dst :: "nat \<Rightarrow> byte list \<Rightarrow> bool" where
  "kernel_dst tot bs = True"

definition kernel_src :: "byte list \<Rightarrow> nat \<Rightarrow> nat \<Rightarrow> byte list \<times> bool" where
  "kernel_src bs tot m = (take m (drop tot bs), True)"

text \<open>\<^verbatim>\<open>struct dirent\<close> as the 16 bytes read from or written to the directory.\<close>

definition de_inum :: "byte list \<Rightarrow> nat" where
  "de_inum bs = unat (bs ! 0) + 256 * unat (bs ! 1)"

definition de_name :: "byte list \<Rightarrow> nat \<Rightarrow> byte" where
  "de_name bs i = bs ! (2 + i)"

definition namecmp :: "(nat \<Rightarrow> byte) \<Rightarrow> (nat \<Rightarrow> byte) \<Rightarrow> int" where
  "namecmp s t = strncmp s 0 t 0 DIRSIZ"

primrec dirlookup_loop :: "nat \<Rightarrow> nat \<Rightarrow> (nat \<Rightarrow> byte) \<Rightarrow> nat \<Rightarrow> ('x fstate_scheme, (nat \<times> nat) option) kernel" where
  "dirlookup_loop 0 dp name off s = (if off < i_size (icache s dp) then Loop else Ret None s)"
| "dirlookup_loop (Suc k) dp name off s =
     (if off < i_size (icache s dp)
      then kbind (readi dp kernel_dst off 16) (\<lambda>(r, de).
             if r \<noteq> 16 then kpanic ''dirlookup read''
             else if de_inum de = 0 then dirlookup_loop k dp name (off + 16)
             else if namecmp name (de_name de) = 0
             then (\<lambda>s. kbind (iget (i_dev (icache s dp)) (de_inum de)) (\<lambda>ip. kret (Some (ip, off))) s)
             else dirlookup_loop k dp name (off + 16)) s
      else Ret None s)"

text \<open>The result also has the offset of the entry, which the caller stores through \<^verbatim>\<open>poff\<close>.\<close>

definition dirlookup :: "nat \<Rightarrow> (nat \<Rightarrow> byte) \<Rightarrow> ('x fstate_scheme, (nat \<times> nat) option) kernel" where
  "dirlookup dp name s =
     (if i_type (icache s dp) \<noteq> T_DIR then Panic ''dirlookup not DIR''
      else dirlookup_loop (Suc (i_size (icache s dp) div 16)) dp name 0 s)"

primrec dirlink_scan :: "nat \<Rightarrow> nat \<Rightarrow> nat \<Rightarrow> ('x fstate_scheme, nat) kernel" where
  "dirlink_scan 0 dp off s = (if off < i_size (icache s dp) then Loop else Ret off s)"
| "dirlink_scan (Suc k) dp off s =
     (if off < i_size (icache s dp)
      then kbind (readi dp kernel_dst off 16) (\<lambda>(r, de).
             if r \<noteq> 16 then kpanic ''dirlink read''
             else if de_inum de = 0 then kret off
             else dirlink_scan k dp (off + 16)) s
      else Ret off s)"

text \<open>\<^verbatim>\<open>strncpy(de.name, name, DIRSIZ)\<close> with \<^verbatim>\<open>name\<close> at address 0 and \<^verbatim>\<open>de.name\<close> at \<open>DIRSIZ\<close>.\<close>

definition mk_dirent :: "nat \<Rightarrow> (nat \<Rightarrow> byte) \<Rightarrow> byte list" where
  "mk_dirent inum name =
     [word_of_nat inum, word_of_nat (inum div 256)] @
     get_bytes (strncpy DIRSIZ 0 (int DIRSIZ) name) DIRSIZ DIRSIZ"

definition dirlink :: "nat \<Rightarrow> (nat \<Rightarrow> byte) \<Rightarrow> nat \<Rightarrow> ('x fstate_scheme, int) kernel" where
  "dirlink dp name inum =
     kbind (dirlookup dp name) (\<lambda>found.
       case found of
         Some (ip, off) \<Rightarrow> kthen (iput ip) (kret (- 1))
       | None \<Rightarrow>
           (\<lambda>s. kbind (dirlink_scan (Suc (i_size (icache s dp) div 16)) dp 0) (\<lambda>off.
                kbind (writei dp (kernel_src (mk_dirent inum name)) off 16) (\<lambda>r.
                  if r \<noteq> 16 then kpanic ''dirlink'' else kret 0)) s))"

section \<open>Path names\<close>

text \<open>
  A path is the list of its bytes before the terminating zero. \<^verbatim>\<open>skipelem\<close> returns the rest of the
  path and the buffer \<open>name\<close>, of which the bytes that are not written keep their contents.
\<close>

definition SLASH :: byte where "SLASH = 47"

definition skipelem :: "byte list \<Rightarrow> (nat \<Rightarrow> byte) \<Rightarrow> (byte list \<times> (nat \<Rightarrow> byte)) option" where
  "skipelem path name =
     (let path = dropWhile (\<lambda>c. c = SLASH) path in
      if path = [] then None
      else let elem = takeWhile (\<lambda>c. c \<noteq> SLASH) path;
               path = dropWhile (\<lambda>c. c \<noteq> SLASH) path;
               len = length elem;
               name = (if len \<ge> DIRSIZ then put_bytes 0 (take DIRSIZ elem) name
                       else (put_bytes 0 elem name)(len := 0))
           in Some (dropWhile (\<lambda>c. c = SLASH) path, name))"

text \<open>
  \<^verbatim>\<open>namex\<close> from \<open>ip\<close>, the loop; a symbolic link starts a new path, which is a recursive call. The
  result has the inode and the last element in \<open>name\<close>.
\<close>

definition namex_start :: "byte list \<Rightarrow> ('x fstate_scheme, nat) kernel" where
  "namex_start path s =
     (if path \<noteq> [] \<and> hd path = SLASH then iget ROOTDEV ROOTINO s else idup (cwd s) s)"

primrec namex_loop ::
  "nat \<Rightarrow> nat \<Rightarrow> byte list \<Rightarrow> bool \<Rightarrow> (nat \<Rightarrow> byte) \<Rightarrow> ('x fstate_scheme, nat option \<times> (nat \<Rightarrow> byte)) kernel"
where
  "namex_loop 0 ip path parent name s = Loop"
| "namex_loop (Suc k) ip path parent name s =
     (case skipelem path name of
        None \<Rightarrow> if parent then kthen (iput ip) (kret (None, name)) s else Ret (Some ip, name) s
      | Some (path, name) \<Rightarrow>
          kthen (ilock ip)
            (\<lambda>s. if i_type (icache s ip) = T_DIR \<and> i_mode (icache s ip) AND M_READ = 0
                 then kthen (iunlockput ip) (kret (None, name)) s
                 else if i_type (icache s ip) \<noteq> T_DIR
                 then kthen (iunlockput ip) (kret (None, name)) s
                 else if parent \<and> path = []
                 then kthen (iunlock ip) (kret (Some ip, name)) s
                 else kbind (dirlookup ip name) (\<lambda>found.
                   case found of
                     None \<Rightarrow> kthen (iunlockput ip) (kret (None, name))
                   | Some (next, off) \<Rightarrow>
                       kthen (iunlockput ip)
                      (kthen (ilock next)
                         (\<lambda>s. if i_type (icache s next) = T_SYMLINK
                              then kbind (readi next kernel_dst 0 (MAXPATH - 1)) (\<lambda>(n, bs).
                                   kthen (iunlockput next)
                                     (if n < 0 then kret (None, name)
                                      else let target = takeWhile (\<lambda>c. c \<noteq> 0) bs in
                                           if length target + 1 + length path \<ge> MAXPATH then kret (None, name)
                                           else kthen (iput next)
                                               (kbind (namex_start (target @ [SLASH] @ path))
                                                  (\<lambda>ip. namex_loop k ip (target @ [SLASH] @ path) parent name)))) s
                              else kthen (iunlock next) (namex_loop k next path parent name) s))) s) s)"

definition namex ::
  "nat \<Rightarrow> byte list \<Rightarrow> bool \<Rightarrow> (nat \<Rightarrow> byte) \<Rightarrow> ('x fstate_scheme, nat option \<times> (nat \<Rightarrow> byte)) kernel"
where
  "namex fuel path parent name =
     kbind (namex_start path) (\<lambda>ip. namex_loop fuel ip path parent name)"

text \<open>
  \<^verbatim>\<open>namei\<close>: \<open>namei_links\<close> is its \<^verbatim>\<open>while\<close> loop, which calls \<^verbatim>\<open>namei\<close> itself. The final \<^verbatim>\<open>namex\<close> looks
  the path up again.
\<close>

fun namei :: "nat \<Rightarrow> byte list \<Rightarrow> ('x fstate_scheme, nat option) kernel"
and namei_links :: "nat \<Rightarrow> nat option \<Rightarrow> ('x fstate_scheme, unit option) kernel"
where
  "namei 0 path s = Loop"
| "namei (Suc k) path s =
     kbind (namex k path False (\<lambda>_. 0)) (\<lambda>(ip, name).
     kbind (namei_links k ip) (\<lambda>r.
       case r of
         None \<Rightarrow> kret None
       | Some _ \<Rightarrow> kbind (namex k path False name) (\<lambda>(ip, name). kret ip))) s"
| "namei_links k None s = Ret (Some ()) s"
| "namei_links 0 (Some ip) s = Loop"
| "namei_links (Suc k) (Some ip) s =
     (if i_type (icache s ip) = T_SYMLINK
      then kbind (readi ip kernel_dst 0 (MAXPATH - 1)) (\<lambda>(n, bs).
             if n < 0 then kthen (iput ip) (kret None)
             else kthen (iput ip) (kbind (namei k (takeWhile (\<lambda>c. c \<noteq> 0) bs)) (namei_links k))) s
      else Ret (Some ()) s)"

definition nameiparent ::
  "nat \<Rightarrow> byte list \<Rightarrow> (nat \<Rightarrow> byte) \<Rightarrow> ('x fstate_scheme, nat option \<times> (nat \<Rightarrow> byte)) kernel"
where
  "nameiparent fuel path name = namex fuel path True name"

end
