(* ===== verification/Txn.thy ===== *)
theory Txn
  imports Fs
begin

text \<open>
  How the file system uses blocks inside a transaction: opening a block into a locked buffer,
  changing it, logging it and releasing it, in states of \<^typ>\<open>'x fstate_scheme\<close> in which other buffers
  may be held. These are the rules with which the operations of \<open>Fs\<close> are proved.
\<close>

section \<open>What every step keeps\<close>

definition fkeep :: "'x fstate_scheme \<Rightarrow> 'x fstate_scheme \<Rightarrow> bool" where
  "fkeep s t \<longleftrightarrow> disk t = disk s \<and> dtrace t = dtrace s \<and> mypid t = mypid s \<and> sb t = sb s \<and> cwd t = cwd s \<and>
     l_start (log t) = l_start (log s) \<and> l_size (log t) = l_size (log s) \<and>
     l_outstanding (log t) = l_outstanding (log s) \<and> l_committing (log t) = l_committing (log s)"

lemma fkeep_refl [simp]: "fkeep s s"
  by (simp add: fkeep_def)

lemma fkeep_trans: "fkeep s t \<Longrightarrow> fkeep t u \<Longrightarrow> fkeep s u"
  by (simp add: fkeep_def)

lemma fkeepD:
  assumes "fkeep s t"
  shows "disk t = disk s" "dtrace t = dtrace s" "mypid t = mypid s" "sb t = sb s" "cwd t = cwd s"
    "l_start (log t) = l_start (log s)" "l_size (log t) = l_size (log s)"
    "l_outstanding (log t) = l_outstanding (log s)" "l_committing (log t) = l_committing (log s)"
    "log_area t = log_area s"
  using assms by (simp_all add: fkeep_def log_area_def)

lemma bframe_fs:
  fixes s :: "'x fstate_scheme"
  assumes "bframe s t"
  shows "sb t = sb s" "icache t = icache s" "cwd t = cwd s" "mypid t = mypid s"
  using assms by (auto simp: bframe_def)

lemma bframe_fkeep:
  fixes s :: "'x fstate_scheme"
  assumes "bframe s t" "disk t = disk s" "dtrace t = dtrace s"
  shows "fkeep s t" "icache t = icache s" "log t = log s"
  using assms bframe_fs [OF assms(1)] by (simp_all add: fkeep_def)

lemma icache_upd_simps [simp]:
  fixes s :: "'x fstate_scheme"
  shows "view (s\<lparr>icache := c\<rparr>) = view s" "lockd (s\<lparr>icache := c\<rparr>) = lockd s" "linv (s\<lparr>icache := c\<rparr>) = linv s"
    "holds (s\<lparr>icache := c\<rparr>) b bn = holds s b bn" "logged (s\<lparr>icache := c\<rparr>) = logged s" "fkeep s (s\<lparr>icache := c\<rparr>)"
    "log_area (s\<lparr>icache := c\<rparr>) = log_area s"
proof -
  have r: "refof (s\<lparr>icache := c\<rparr>) = refof s" by (rule refof_cong) simp
  show v: "view (s\<lparr>icache := c\<rparr>) = view s" by (rule view_cong) simp_all
  show k: "lockd (s\<lparr>icache := c\<rparr>) = lockd s" by (simp add: lockd_def)
  show g: "logged (s\<lparr>icache := c\<rparr>) = logged s" by (simp add: logged_def)
  show a: "log_area (s\<lparr>icache := c\<rparr>) = log_area s" by (simp add: log_area_def)
  show "linv (s\<lparr>icache := c\<rparr>) = linv s"
    by (simp add: linv_def binv_def buf_ok_def links_ok_def lru_def nofail_def log_ok_def pins_ok_def r k g a)
  show "holds (s\<lparr>icache := c\<rparr>) b bn = holds s b bn" by (simp add: holds_def)
  show "fkeep s (s\<lparr>icache := c\<rparr>)" by (simp add: fkeep_def)
qed

lemma upd_inode_app [simp]: "upd_inode ip f s = Ret () (s\<lparr>icache := (icache s)(ip := f (icache s ip))\<rparr>)"
  by (simp add: upd_inode_def)

section \<open>Opening and closing a block\<close>

text \<open>
  \<open>spare s k\<close>: the transaction can take \<open>k\<close> more blocks, and as many buffers as are held.
\<close>

definition spare :: "'x fstate_scheme \<Rightarrow> nat \<Rightarrow> bool" where
  "spare s k \<longleftrightarrow> 1 \<le> l_outstanding (log s) \<and> lh_n (log s) + int (card (lockd s)) + int k < int (l_size (log s))"

lemma spare_mono: "spare s k \<Longrightarrow> j \<le> k \<Longrightarrow> spare s j"
  by (simp add: spare_def)

lemma linv_refd:
  assumes "linv s"
  shows "refd s = set (logged s) \<union> lockd s" "refof s bn \<noteq> - 1"
proof -
  have p: "refof s n = (if n \<in> set (logged s) then 1 else 0) + (if n \<in> lockd s then 1 else 0)" for n
    using assms by (simp add: linv_def pins_ok_def)
  show "refd s = set (logged s) \<union> lockd s" using p by (auto simp: refd_def)
  show "refof s bn \<noteq> - 1" using p by simp
qed


lemma spare_room:
  assumes "linv s" and "bn < LOGICAL_DISK_SIZE" and "spare s 0"
  shows "bio.room s {bn}"
proof -
  let ?L = "set (logged s) \<union> lockd s"
  have r: "{n. refof s n \<noteq> 0} = ?L" using linv_refd(1) [OF assms(1)] by (simp add: refd_def)
  have ok: "log_ok s" using assms(1) by (simp add: linv_def)
  have f: "finite ?L" using finite_refd [of s] linv_refd(1) [OF assms(1)] by simp
  have "card ({bn} \<union> ?L) \<le> Suc (card ?L)" using f by (simp add: card_insert_if)
  also have "card ?L \<le> card (set (logged s)) + card (lockd s)" by (rule card_Un_le)
  also have "card (set (logged s)) \<le> nat (lh_n (log s))" using card_length [of "logged s"] by simp
  finally have "card ({bn} \<union> ?L) \<le> Suc (nat (lh_n (log s)) + card (lockd s))" by simp
  also have "\<dots> \<le> NBUF"
  proof -
    have "lh_n (log s) + int (card (lockd s)) < 30" "0 \<le> lh_n (log s)"
      using assms(3) ok by (simp_all add: spare_def log_ok_def kconsts)
    then show ?thesis unfolding NBUF_def by linarith
  qed
  finally show ?thesis
    using assms(1,2) r linv_refd(2) [OF assms(1)] by (simp add: bio.room_def)
qed

lemma tx_open:
  fixes s :: "'x fstate_scheme"
  assumes inv: "linv s" and bn: "bn < LOGICAL_DISK_SIZE" "bn \<notin> lockd s" and sp: "spare s 0"
  obtains b t where "bread ROOTDEV bn s = Ret b t" and "linv t" and "holds t b bn"
    and "b_data (bcache t b) = view s bn" and "view t = view s" and "lockd t = insert bn (lockd s)"
    and "fkeep s t" and "icache t = icache s" and "log t = log s"
    and "\<And>b' bn'. holds s b' bn' \<Longrightarrow> holds t b' bn'"
proof -
  from inv have i: "binv s \<and> nofail s" "log_ok s" "pins_ok s" by (simp_all add: linv_def)
  obtain b t where t: "bread ROOTDEV bn s = Ret b t" "binv t \<and> nofail t" "holds t b bn"
    "b_data (bcache t b) = view s bn" "view t = view s" "refof t = (refof s)(bn := refof s bn + 1)"
    "lockd t = insert bn (lockd s)" "disk t = disk s" "dtrace t = dtrace s" "bframe s t"
    "\<And>b' bn'. holds s b' bn' \<Longrightarrow> holds t b' bn'"
    by (rule bio.open_one [OF i(1) bn(2) spare_room [OF inv bn(1) sp]]) (rule that; assumption)
  have "linv t"
    unfolding linv_def
  proof (intro conjI)
    show "binv t" "nofail t" using t(2) by simp_all
    show "log_ok t" using i(2) t(10) by (simp add: bframe_log_ok)
    show "pins_ok t" using t(6,7,10) i(3) bn(2) by (auto simp: pins_ok_def)
  qed
  then show ?thesis
    by (rule that [OF t(1) _ t(3,4,5,7) bframe_fkeep [OF t(10,8,9)] t(11)])
qed

lemma tx_upd:
  fixes s :: "'x fstate_scheme"
  assumes inv: "linv s" and h: "holds s b bn"
  obtains t where "upd_data b f s = Ret () t" and "linv t" and "view t = (view s)(bn := f (view s bn))"
    and "lockd t = lockd s" and "fkeep s t" and "icache t = icache s" and "log t = log s"
    and "\<And>b' bn'. holds s b' bn' \<Longrightarrow> holds t b' bn'"
proof -
  from inv have i: "binv s \<and> nofail s" "log_ok s" "pins_ok s" by (simp_all add: linv_def)
  obtain t where t: "upd_data b f s = Ret () t" "binv t \<and> nofail t" "view t = (view s)(bn := f (view s bn))"
    "refof t = refof s" "lockd t = lockd s" "disk t = disk s" "dtrace t = dtrace s" "bframe s t"
    "\<forall>b' bn'. holds s b' bn' \<longrightarrow> holds t b' bn'"
    using bio.upd_law [OF i(1) h, of f] by blast
  have "linv t"
    unfolding linv_def
  proof (intro conjI)
    show "binv t" "nofail t" using t(2) by simp_all
    show "log_ok t" using i(2) t(8) by (simp add: bframe_log_ok)
    show "pins_ok t" using t(4,5,8) i(3) by (simp add: pins_ok_def)
  qed
  then show ?thesis
    using t(9) by (intro that [OF t(1) _ t(3,5) bframe_fkeep [OF t(8,6,7)]]) blast+
qed

lemma tx_log_write:
  fixes s :: "'x fstate_scheme"
  assumes inv: "linv s" and h: "holds s b bn" and a: "bn \<notin> log_area s" and sp: "spare s 0"
  obtains t where "log_write b s = Ret () t" and "linv t" and "logged t = absorbed bn (logged s)"
    and "view t = view s" and "lockd t = lockd s" and "fkeep s t" and "icache t = icache s"
    and "lh_n (log t) \<le> lh_n (log s) + 1"
    and "\<And>b' bn'. holds s b' bn' \<Longrightarrow> holds t b' bn'"
proof -
  have "bn \<in> lockd s" using h by (auto simp: holds_def lockd_def)
  moreover have "finite (lockd s)" using finite_refd [of s] linv_refd(1) [OF inv] by simp
  ultimately have "1 \<le> card (lockd s)" by (metis One_nat_def Suc_leI card_gt_0_iff empty_iff)
  then have cap: "lh_n (log s) < int (l_size (log s)) - 1" "1 \<le> l_outstanding (log s)"
    using sp by (simp_all add: spare_def)
  obtain t where t: "log_write b s = Ret () t" "linv t" "logged t = absorbed bn (logged s)"
    "view t = view s" "lockd t = lockd s" "disk t = disk s" "dtrace t = dtrace s"
    "\<And>b' bn'. holds s b' bn' \<Longrightarrow> holds t b' bn'"
    "\<exists>l. bframe (s\<lparr>log := l\<rparr>) t" "l_start (log t) = l_start (log s)" "l_size (log t) = l_size (log s)"
    "l_outstanding (log t) = l_outstanding (log s)" "l_committing (log t) = l_committing (log s)"
    by (rule log_write_law [OF inv h a cap]) (rule that; assumption)
  obtain l where l: "bframe (s\<lparr>log := l\<rparr>) t" using t(9) by blast
  have f: "sb t = sb s" "icache t = icache s" "cwd t = cwd s" "mypid t = mypid s"
    using bframe_fs [OF l] by simp_all
  have "length (logged t) \<le> Suc (length (logged s))" unfolding t(3) absorbed_def by simp
  moreover have "0 \<le> lh_n (log s)" "0 \<le> lh_n (log t)" using inv t(2) by (simp_all add: linv_def log_ok_def)
  ultimately have "lh_n (log t) \<le> lh_n (log s) + 1" by simp
  then show ?thesis
    using t f by (intro that [OF t(1-5) _ f(2) _ t(8)]) (simp_all add: fkeep_def)
qed

text \<open>A buffer can be released when its block is logged or has not been changed.\<close>

definition settled :: "'x fstate_scheme \<Rightarrow> nat \<Rightarrow> bool" where
  "settled s bn \<longleftrightarrow> bn \<in> set (logged s) \<or> view s bn = disk s bn"

lemma settled_unlocked:
  assumes "linv s" and "bn < LOGICAL_DISK_SIZE" and "bn \<notin> lockd s"
  shows "settled s bn"
proof (cases "bn \<in> set (logged s)")
  case False
  with assms have "refof s bn = 0" by (simp add: linv_def pins_ok_def)
  with assms show ?thesis using bio.clean_law [of s bn] by (simp add: settled_def linv_def)
qed (simp add: settled_def)

lemma settled_mono:
  "settled s bn \<Longrightarrow> view t bn = view s bn \<Longrightarrow> disk t = disk s \<Longrightarrow> set (logged s) \<subseteq> set (logged t) \<Longrightarrow> settled t bn"
  by (auto simp: settled_def)

lemma tx_close:
  fixes s :: "'x fstate_scheme"
  assumes inv: "linv s" and h: "holds s b bn" and st: "settled s bn"
  obtains t where "brelse b s = Ret () t" and "linv t" and "view t = view s" and "lockd t = lockd s - {bn}"
    and "fkeep s t" and "icache t = icache s" and "log t = log s"
    and "\<And>b' bn'. bn' \<noteq> bn \<Longrightarrow> holds s b' bn' \<Longrightarrow> holds t b' bn'"
proof -
  from inv have i: "binv s \<and> nofail s" "log_ok s" "pins_ok s" by (simp_all add: linv_def)
  have lk: "bn \<in> lockd s" using h by (auto simp: holds_def lockd_def)
  have "refof s bn = 1 \<Longrightarrow> view s bn = disk s bn"
    using st i(3) lk by (auto simp: settled_def pins_ok_def split: if_splits)
  then obtain t where t: "brelse b s = Ret () t" "binv t \<and> nofail t" "view t = view s"
    "refof t = (refof s)(bn := refof s bn - 1)" "lockd t = lockd s - {bn}" "disk t = disk s" "dtrace t = dtrace s"
    "bframe s t" "\<forall>b' bn'. bn' \<noteq> bn \<and> holds s b' bn' \<longrightarrow> holds t b' bn'"
    using bio.rel_law [OF i(1) h] by blast
  have "linv t"
    unfolding linv_def
  proof (intro conjI)
    show "binv t" "nofail t" using t(2) by simp_all
    show "log_ok t" using i(2) t(8) by (simp add: bframe_log_ok)
    show "pins_ok t" using t(4,5,8) i(3) lk by (simp add: pins_ok_def)
  qed
  then show ?thesis
    using t(9) by (intro that [OF t(1) _ t(3,5) bframe_fkeep [OF t(8,6,7)]]) blast+
qed

section \<open>Sessions\<close>

lemma spare_keep:
  assumes "spare s k" and "fkeep s t" and "lockd t = lockd s" and "lh_n (log t) \<le> lh_n (log s) + int j" and "i + j \<le> k"
  shows "spare t i"
  using assms fkeepD [OF assms(2)] by (simp add: spare_def)

lemma holds_lockd: "holds s b bn \<Longrightarrow> bn \<in> lockd s"
  by (auto simp: holds_def lockd_def)

lemma finite_lockd: "linv s \<Longrightarrow> finite (lockd s)"
  using finite_refd [of s] linv_refd(1) [of s] by simp

text \<open>A step between two points of a call at which the same buffers are held.\<close>

definition tx :: "'x fstate_scheme \<Rightarrow> 'x fstate_scheme \<Rightarrow> bool" where
  "tx s t \<longleftrightarrow> linv t \<and> lockd t = lockd s \<and> fkeep s t \<and> set (logged s) \<subseteq> set (logged t) \<and>
     (\<forall>b bn. holds s b bn \<longrightarrow> holds t b bn)"

lemma tx_refl: "linv s \<Longrightarrow> tx s s"
  by (simp add: tx_def)

lemma tx_trans [trans]: "tx s t \<Longrightarrow> tx t u \<Longrightarrow> tx s u"
  by (auto simp: tx_def intro: fkeep_trans)

lemma txD:
  assumes "tx s t"
  shows "linv t" "lockd t = lockd s" "fkeep s t" "set (logged s) \<subseteq> set (logged t)"
    "\<And>b bn. holds s b bn \<Longrightarrow> holds t b bn" "sb t = sb s" "log_area t = log_area s" "mypid t = mypid s" "cwd t = cwd s"
    "disk t = disk s"
  using assms fkeepD [of s t] by (auto simp: tx_def)

lemma tx_icache: "linv s \<Longrightarrow> tx s (s\<lparr>icache := c\<rparr>)"
  by (simp add: tx_def)

lemma tx_spare:
  assumes "spare s k" and "tx s t" and "lh_n (log t) \<le> lh_n (log s) + int j" and "i + j \<le> k"
  shows "spare t i"
  using spare_keep [OF assms(1) txD(3,2) [OF assms(2)] assms(3,4)] .

text \<open>\<^verbatim>\<open>bp = bread(dev, bn); ... bp->data ...; brelse(bp)\<close>\<close>

lemma tx_read:
  fixes s :: "'x fstate_scheme"
  assumes inv: "linv s" and bn: "bn < LOGICAL_DISK_SIZE" "bn \<notin> lockd s" and sp: "spare s 0"
  obtains b t u where "bread ROOTDEV bn s = Ret b t" and "b_data (bcache t b) = view s bn"
    and "sb t = sb s" and "icache t = icache s"
    and "brelse b t = Ret () u" and "tx s u" and "view u = view s" and "icache u = icache s" and "log u = log s"
proof -
  obtain b t where t: "bread ROOTDEV bn s = Ret b t" "linv t" "holds t b bn"
    "b_data (bcache t b) = view s bn" "view t = view s" "lockd t = insert bn (lockd s)"
    "fkeep s t" "icache t = icache s" "log t = log s" "\<And>b' bn'. holds s b' bn' \<Longrightarrow> holds t b' bn'"
    by (rule tx_open [OF inv bn sp]) (rule that; assumption)
  have "logged t = logged s" by (simp add: logged_def t(9))
  with settled_unlocked [OF inv bn] t(5,7) have st: "settled t bn" by (auto simp: settled_def fkeepD)
  obtain u where u: "brelse b t = Ret () u" "linv u" "view u = view t" "lockd u = lockd t - {bn}"
    "fkeep t u" "icache u = icache t" "log u = log t"
    "\<And>b' bn'. bn' \<noteq> bn \<Longrightarrow> holds t b' bn' \<Longrightarrow> holds u b' bn'"
    by (rule tx_close [OF t(2,3) st]) (rule that; assumption)
  have "lockd u = lockd s" using u(4) t(6) bn(2) by auto
  moreover have "holds u b' bn'" if "holds s b' bn'" for b' bn'
    using u(8) [OF _ t(10) [OF that]] holds_lockd [OF that] bn(2) by blast
  moreover have "logged u = logged s" by (simp add: logged_def u(7) t(9))
  ultimately have "tx s u" using u(2) fkeep_trans [OF t(7) u(5)] by (simp add: tx_def)
  then show ?thesis
    using t u fkeepD [OF t(7)] by (intro that [of b t u]) simp_all
qed

text \<open>\<^verbatim>\<open>bp = bread(dev, bn); change bp->data; log_write(bp); brelse(bp)\<close>\<close>

lemma tx_write:
  fixes s :: "'x fstate_scheme"
  assumes inv: "linv s" and bn: "bn < LOGICAL_DISK_SIZE" "bn \<notin> lockd s" "bn \<notin> log_area s" and sp: "spare s 1"
  obtains b t v w u where "bread ROOTDEV bn s = Ret b t" and "b_data (bcache t b) = view s bn"
    and "sb t = sb s" and "icache t = icache s"
    and "upd_data b f t = Ret () v" and "log_write b v = Ret () w" and "brelse b w = Ret () u"
    and "tx s u" and "view u = (view s)(bn := f (view s bn))"
    and "icache u = icache s" and "logged u = absorbed bn (logged s)" and "lh_n (log u) \<le> lh_n (log s) + 1"
proof -
  have sp0: "spare s 0" using sp by (rule spare_mono) simp
  obtain b t where t: "bread ROOTDEV bn s = Ret b t" "linv t" "holds t b bn"
    "b_data (bcache t b) = view s bn" "view t = view s" "lockd t = insert bn (lockd s)"
    "fkeep s t" "icache t = icache s" "log t = log s" "\<And>b' bn'. holds s b' bn' \<Longrightarrow> holds t b' bn'"
    by (rule tx_open [OF inv bn(1,2) sp0]) (rule that; assumption)
  obtain v where v: "upd_data b f t = Ret () v" "linv v" "view v = (view t)(bn := f (view t bn))"
    "lockd v = lockd t" "fkeep t v" "icache v = icache t" "log v = log t"
    "\<And>b' bn'. holds t b' bn' \<Longrightarrow> holds v b' bn'"
    by (rule tx_upd [OF t(2,3), where f = f]) (rule that; assumption)
  have a: "bn \<notin> log_area v" using bn(3) t(7) v(5) by (simp add: fkeepD)
  have "card (lockd v) = Suc (card (lockd s))" using v(4) t(6) bn(2) finite_lockd [OF inv] by simp
  then have sv: "spare v 0" using sp v(7) t(9) by (simp add: spare_def)
  obtain w where w: "log_write b v = Ret () w" "linv w" "logged w = absorbed bn (logged v)"
    "view w = view v" "lockd w = lockd v" "fkeep v w" "icache w = icache v"
    "lh_n (log w) \<le> lh_n (log v) + 1" "\<And>b' bn'. holds v b' bn' \<Longrightarrow> holds w b' bn'"
    by (rule tx_log_write [OF v(2) v(8) [OF t(3)] a sv]) (rule that; assumption)
  have "settled w bn" using w(3) by (simp add: settled_def absorbed_def)
  then obtain u where u: "brelse b w = Ret () u" "linv u" "view u = view w" "lockd u = lockd w - {bn}"
    "fkeep w u" "icache u = icache w" "log u = log w"
    "\<And>b' bn'. bn' \<noteq> bn \<Longrightarrow> holds w b' bn' \<Longrightarrow> holds u b' bn'"
    by (rule tx_close [OF w(2) w(9) [OF v(8) [OF t(3)]]]) (rule that; assumption)
  have k: "fkeep s u" using t(7) v(5) w(6) u(5) fkeep_trans by blast
  have lg: "logged v = logged s" "logged u = logged w" by (simp_all add: logged_def v(7) t(9) u(7))
  have "lockd u = lockd s" using u(4) w(5) v(4) t(6) bn(2) by auto
  moreover have "holds u b' bn'" if "holds s b' bn'" for b' bn'
    using u(8) [OF _ w(9) [OF v(8) [OF t(10) [OF that]]]] holds_lockd [OF that] bn(2) by blast
  ultimately have "tx s u" using u(2) k lg w(3) by (auto simp: tx_def absorbed_def)
  moreover have "lh_n (log u) \<le> lh_n (log s) + 1" using w(8) u(7) v(7) t(9) by simp
  ultimately show ?thesis
    using that [OF t(1,4) fkeepD(4) [OF t(7)] t(8) v(1) w(1) u(1)] u v w t lg by simp
qed

section \<open>A mounted file system\<close>

text \<open>
  The superblock that \<^verbatim>\<open>mkfs\<close> writes, and the kernel inside a system call after booting from the
  medium \<open>d\<close>, with an empty log and the inode cache \<open>ic\<close>.
\<close>

definition mkfs_sb :: superblock where
  "mkfs_sb = \<lparr>sb_magic = FSMAGIC, sb_size = 2048, sb_nblocks = 2002, sb_ninodes = 200, sb_nlog = 30,
     sb_logstart = 2, sb_inodestart = 32, sb_bmapstart = 45\<rparr>"

definition mounted :: "(nat \<Rightarrow> block) \<Rightarrow> (nat \<Rightarrow> inode) \<Rightarrow> fstate" where
  "mounted d ic = binit
     \<lparr>mypid = 1,
      bcache = (\<lambda>_. \<lparr>b_valid = False, b_dev = 0, b_blockno = 0, b_lock = initsleeplock,
                     b_refcnt = 0, b_data = (\<lambda>_. 0)\<rparr>),
      b_next = (\<lambda>_. 0), b_prev = (\<lambda>_. 0), disk = d, dtrace = [],
      force_read_error_pbn = - 1, force_disk_fail_id = - 1, conslog = [],
      log = \<lparr>l_start = 2, l_size = 30, l_outstanding = 1, l_committing = False, l_dev = ROOTDEV,
             lh_n = 0, lh_block = (\<lambda>_. 0)\<rparr>,
      sb = mkfs_sb, icache = ic, cwd = 0\<rparr>"

lemma link_front_cache_only: "cache_only s (link_front b s)"
  by (rule cache_onlyI [where bc = "bcache s" and nx = "b_next (link_front b s)" and pv = "b_prev (link_front b s)"])
    (simp add: link_front_def Let_def)

lemma binit_loop_cache_only: "cache_only s (binit_loop b n s)"
proof (induction n arbitrary: b s)
  case (Suc n)
  show ?case
    unfolding binit_loop.simps
    by (rule cache_only_trans [OF cache_only_bcache cache_only_trans [OF link_front_cache_only Suc.IH]])
qed (simp add: cache_only_refl)

lemma binit_cache_only: "cache_only s (binit s)"
proof -
  have "cache_only s (s\<lparr>b_prev := (b_prev s)(HEAD := HEAD), b_next := (b_next s)(HEAD := HEAD)\<rparr>)"
    by (rule cache_onlyI [where bc = "bcache s" and nx = "(b_next s)(HEAD := HEAD)" and pv = "(b_prev s)(HEAD := HEAD)"]) simp
  then show ?thesis unfolding binit_def by (rule cache_only_trans [OF _ binit_loop_cache_only])
qed

lemma mounted_fields:
  "disk (mounted d ic) = d" "dtrace (mounted d ic) = []" "sb (mounted d ic) = mkfs_sb" "icache (mounted d ic) = ic"
  "cwd (mounted d ic) = 0" "mypid (mounted d ic) = 1" "nofail (mounted d ic)"
  "log (mounted d ic) = \<lparr>l_start = 2, l_size = 30, l_outstanding = 1, l_committing = False, l_dev = ROOTDEV,
     lh_n = 0, lh_block = (\<lambda>_. 0)\<rparr>"
proof -
  let ?s = "\<lparr>mypid = 1,
      bcache = (\<lambda>_. \<lparr>b_valid = False, b_dev = 0, b_blockno = 0, b_lock = initsleeplock,
                     b_refcnt = 0, b_data = (\<lambda>_. 0)\<rparr>),
      b_next = (\<lambda>_. 0), b_prev = (\<lambda>_. 0), disk = d, dtrace = [],
      force_read_error_pbn = - 1, force_disk_fail_id = - 1, conslog = [],
      log = \<lparr>l_start = 2, l_size = 30, l_outstanding = 1, l_committing = False, l_dev = ROOTDEV,
             lh_n = 0, lh_block = (\<lambda>_. 0)\<rparr>,
      sb = mkfs_sb, icache = ic, cwd = 0\<rparr> :: fstate"
  obtain bc nx pv where "mounted d ic = ?s\<lparr>bcache := bc, b_next := nx, b_prev := pv\<rparr>"
    using binit_cache_only [of ?s] unfolding mounted_def cache_only_def by blast
  then show "disk (mounted d ic) = d" "dtrace (mounted d ic) = []" "sb (mounted d ic) = mkfs_sb" "icache (mounted d ic) = ic"
    "cwd (mounted d ic) = 0" "mypid (mounted d ic) = 1" "nofail (mounted d ic)"
    "log (mounted d ic) = \<lparr>l_start = 2, l_size = 30, l_outstanding = 1, l_committing = False, l_dev = ROOTDEV,
       lh_n = 0, lh_block = (\<lambda>_. 0)\<rparr>"
    by (simp_all add: nofail_def)
qed

lemma mounted_linv:
  "linv (mounted d ic)" "lockd (mounted d ic) = {}" "bn < LOGICAL_DISK_SIZE \<Longrightarrow> view (mounted d ic) bn = d bn"
  "logged (mounted d ic) = []" "k < 30 \<Longrightarrow> spare (mounted d ic) k"
proof -
  let ?m = "mounted d ic"
  have bc: "b_dev (bcache ?m k) = 0 \<and> \<not> b_valid (bcache ?m k) \<and> b_refcnt (bcache ?m k) = 0 \<and>
      b_lock (bcache ?m k) = initsleeplock" for k
    by (simp add: mounted_def binit_def binit_loop_bcache)
  then have c: "cached ?m bn = None" for bn
    by (simp add: cached_None_iff kconsts)
  have l: "links_ok ?m" unfolding mounted_def by (rule binit_lru(1))
  have b: "binv ?m" using l bc by (simp add: binv_def buf_ok_def kconsts)
  show k: "lockd ?m = {}" using bc by (simp add: lockd_def kconsts)
  show g: "logged ?m = []" by (simp add: logged_def mounted_fields)
  have "refof ?m bn = 0" for bn by (simp add: refof_def c)
  with b k g show "linv ?m"
    by (simp add: linv_def mounted_fields log_ok_def pins_ok_def kconsts)
  show "bn < LOGICAL_DISK_SIZE \<Longrightarrow> view ?m bn = d bn" by (simp add: view_def c mounted_fields)
  show "k < 30 \<Longrightarrow> spare ?m k" by (simp add: spare_def mounted_fields k)
qed

end
