(* ===== verification/Alloc.thy ===== *)
theory Alloc
  imports Txn
begin

unbundle bit_operations_syntax

text \<open>
  The block allocator of \<^verbatim>\<open>kernel/fs.c\<close>: the free bitmap, \<^verbatim>\<open>balloc\<close>, \<^verbatim>\<open>bzero\<close> and \<^verbatim>\<open>bfree\<close>.
\<close>

section \<open>The bitmap\<close>

definition bbit :: "block \<Rightarrow> nat \<Rightarrow> bool" where
  "bbit d bi \<longleftrightarrow> d (bi div 8) AND push_bit (bi mod 8) 1 \<noteq> 0"

definition set_bbit :: "nat \<Rightarrow> block \<Rightarrow> block" where
  "set_bbit bi d = d(bi div 8 := d (bi div 8) OR push_bit (bi mod 8) 1)"

definition clear_bbit :: "nat \<Rightarrow> block \<Rightarrow> block" where
  "clear_bbit bi d = d(bi div 8 := d (bi div 8) AND NOT (push_bit (bi mod 8) 1))"

definition zeroed :: "block \<Rightarrow> block" where
  "zeroed d = (\<lambda>i. if i < BSIZE then 0 else d i)"

lemma bbit_bit: "bbit d bi = bit (d (bi div 8)) (bi mod 8)"
  by (simp add: bbit_def bit_iff_and_push_bit_not_eq_0)

lemma div_mod8: "(i::nat) div 8 = j div 8 \<and> i mod 8 = j mod 8 \<longleftrightarrow> i = j"
  by (metis div_mod_decomp)

lemma bbit_set: "bbit (set_bbit bi d) j \<longleftrightarrow> j = bi \<or> bbit d j"
proof -
  have "bi mod 8 < 8" "j mod 8 < 8" by simp_all
  then have "bit (push_bit (bi mod 8) 1 :: byte) (j mod 8) \<longleftrightarrow> j mod 8 = bi mod 8"
    by (auto simp: bit_exp_iff possible_bit_word)
  with div_mod8 [of j bi] show ?thesis by (auto simp: bbit_bit set_bbit_def bit_or_iff)
qed

lemma bbit_clear: "bbit (clear_bbit bi d) j \<longleftrightarrow> j \<noteq> bi \<and> bbit d j"
proof -
  have "bi mod 8 < 8" "j mod 8 < 8" by simp_all
  then have "bit (push_bit (bi mod 8) 1 :: byte) (j mod 8) \<longleftrightarrow> j mod 8 = bi mod 8"
    by (auto simp: bit_exp_iff possible_bit_word)
  with div_mod8 [of j bi] show ?thesis by (auto simp: bbit_bit clear_bbit_def bit_and_iff bit_not_iff)
qed

lemma bit_scan_Some:
  "bit_scan d b sz bi k = Some j \<Longrightarrow> bi \<le> j \<and> j < bi + k \<and> b + j < sz \<and> \<not> bbit d j \<and> (\<forall>i. bi \<le> i \<and> i < j \<longrightarrow> bbit d i)"
proof (induction k arbitrary: bi)
  case (Suc k)
  show ?case
  proof (cases "bbit d bi")
    case True
    with Suc.prems have "bit_scan d b sz (Suc bi) k = Some j" by (simp add: bbit_def split: if_splits)
    from Suc.IH [OF this] True show ?thesis
      by (metis Suc_leD Suc_leI add_Suc_right add_Suc_shift le_neq_implies_less)
  next
    case False
    with Suc.prems show ?thesis by (auto simp: bbit_def split: if_splits)
  qed
qed simp

lemma bit_scan_None: "bit_scan d b sz bi k = None \<Longrightarrow> bi \<le> i \<Longrightarrow> i < bi + k \<Longrightarrow> b + i < sz \<Longrightarrow> bbit d i"
proof (induction k arbitrary: bi)
  case (Suc k)
  then show ?case by (cases "i = bi") (auto simp: bbit_def split: if_splits)
qed simp

lemma memset_zero: "memset off 0 i n d = (\<lambda>a. if off + i \<le> a \<and> a < off + i + n then 0 else d a)"
  by (induction n arbitrary: i d) (auto simp: fun_eq_iff)

lemma memset_block: "memset 0 0 0 BSIZE d = zeroed d"
  by (simp add: memset_zero zeroed_def)

section \<open>Layout of the disk\<close>

definition allocated :: "'x fstate_scheme \<Rightarrow> nat \<Rightarrow> bool" where
  "allocated s b = bbit (view s (BBLOCK b (sb s))) (b mod BPB)"

text \<open>The first data block, and the order of the areas as \<^verbatim>\<open>mkfs\<close> lays them out.\<close>

definition data_start :: "superblock \<Rightarrow> nat" where
  "data_start b = sb_bmapstart b + sb_size b div BPB + 1"

definition layout :: "'x fstate_scheme \<Rightarrow> bool" where
  "layout s \<longleftrightarrow>
     l_start (log s) + l_size (log s) \<le> sb_inodestart (sb s) \<and>
     sb_inodestart (sb s) + sb_ninodes (sb s) div IPB < sb_bmapstart (sb s) \<and>
     data_start (sb s) \<le> sb_size (sb s) \<and> sb_size (sb s) \<le> LOGICAL_DISK_SIZE"

text \<open>The metadata blocks are marked as in use, so that \<^verbatim>\<open>balloc\<close> never hands them out.\<close>

definition meta_used :: "'x fstate_scheme \<Rightarrow> bool" where
  "meta_used s \<longleftrightarrow> (\<forall>b<data_start (sb s). allocated s b)"

lemma layout_bmap:
  assumes "layout s" and "b < sb_size (sb s)"
  shows "BBLOCK b (sb s) < LOGICAL_DISK_SIZE" "BBLOCK b (sb s) \<notin> log_area s" "BBLOCK b (sb s) < data_start (sb s)"
    "sb_inodestart (sb s) + sb_ninodes (sb s) div IPB < BBLOCK b (sb s)"
proof -
  have "b div BPB \<le> sb_size (sb s) div BPB" using assms(2) by (intro div_le_mono) simp
  then show "BBLOCK b (sb s) < data_start (sb s)" by (simp add: BBLOCK_def data_start_def)
  with assms(1) show "BBLOCK b (sb s) < LOGICAL_DISK_SIZE" "BBLOCK b (sb s) \<notin> log_area s"
    "sb_inodestart (sb s) + sb_ninodes (sb s) div IPB < BBLOCK b (sb s)"
    by (auto simp: layout_def BBLOCK_def log_area_def)
qed

lemma layout_data:
  assumes "layout s" and "data_start (sb s) \<le> b" and "b < sb_size (sb s)"
  shows "b < LOGICAL_DISK_SIZE" "b \<notin> log_area s" "c < sb_size (sb s) \<Longrightarrow> BBLOCK c (sb s) \<noteq> b"
    "i < sb_ninodes (sb s) \<Longrightarrow> IBLOCK i (sb s) \<noteq> b"
proof -
  show "b < LOGICAL_DISK_SIZE" "b \<notin> log_area s"
    using assms by (auto simp: layout_def data_start_def log_area_def)
  show "c < sb_size (sb s) \<Longrightarrow> BBLOCK c (sb s) \<noteq> b" using layout_bmap(3) [OF assms(1), of c] assms(2) by linarith
  assume "i < sb_ninodes (sb s)"
  then have "i div IPB \<le> sb_ninodes (sb s) div IPB" by (intro div_le_mono) simp
  then show "IBLOCK i (sb s) \<noteq> b" using assms by (simp add: layout_def data_start_def IBLOCK_def)
qed

lemma layout_keep: "fkeep s t \<Longrightarrow> layout t = layout s"
  by (simp add: layout_def fkeepD)

text \<open>Buffers that may be held across an allocation: data blocks in use.\<close>

definition data_held :: "'x fstate_scheme \<Rightarrow> bool" where
  "data_held s \<longleftrightarrow> (\<forall>bn\<in>lockd s. data_start (sb s) \<le> bn \<and> bn < sb_size (sb s) \<and> allocated s bn)"

section \<open>\<^verbatim>\<open>bzero\<close>, \<^verbatim>\<open>balloc\<close> and \<^verbatim>\<open>bfree\<close>\<close>

lemma bzero_ret:
  fixes s :: "'x fstate_scheme"
  assumes "linv s" and "bn < LOGICAL_DISK_SIZE" "bn \<notin> lockd s" "bn \<notin> log_area s" and "spare s 1"
  obtains u where "bzero ROOTDEV bn s = Ret () u" and "tx s u" and "view u = (view s)(bn := zeroed (view s bn))"
    and "icache u = icache s" and "lh_n (log u) \<le> lh_n (log s) + 1"
proof -
  obtain b t v w u where "bread ROOTDEV bn s = Ret b t"
    "upd_data b (memset 0 0 0 BSIZE) t = Ret () v" "log_write b v = Ret () w" "brelse b w = Ret () u"
    "tx s u" "view u = (view s)(bn := memset 0 0 0 BSIZE (view s bn))"
    "icache u = icache s" "lh_n (log u) \<le> lh_n (log s) + 1"
    by (rule tx_write [OF assms, where f = "memset 0 0 0 BSIZE"]) (rule that; assumption)
  then show ?thesis by (intro that [of u]) (simp_all add: bzero_def memset_block)
qed

lemma balloc_found:
  fixes s :: "'x fstate_scheme"
  assumes inv: "linv s" "layout s" "meta_used s" "data_held s" and sp: "spare s 2"
    and b: "b mod BPB = 0" "b < sb_size (sb s)"
    and scan: "bit_scan (view s (BBLOCK b (sb s))) b (sb_size (sb s)) 0 BPB = Some bi"
  obtains u where "balloc_loop (Suc k) ROOTDEV b s = Ret (b + bi) u" and "tx s u"
    and "view u = (view s)(BBLOCK (b + bi) (sb s) := set_bbit bi (view s (BBLOCK (b + bi) (sb s))), b + bi := zeroed (view s (b + bi)))"
    and "icache u = icache s" and "lh_n (log u) \<le> lh_n (log s) + 2"
proof -
  let ?bb = "BBLOCK b (sb s)" and ?f = "\<lambda>d. d(bi div 8 := d (bi div 8) OR push_bit (bi mod 8) 1)"
  note sc = bit_scan_Some [OF scan]
  obtain q where q: "b = BPB * q" using b(1) by auto
  have "bi < BPB" using sc by simp
  then have eq: "BBLOCK (b + bi) (sb s) = ?bb" "(b + bi) mod BPB = bi"
    unfolding q BBLOCK_def by simp_all
  note lb = layout_bmap [OF inv(2) b(2)]
  have nl: "?bb \<notin> lockd s" using inv(4) lb(3) by (auto simp: data_held_def)
  have sp1: "spare s 1" using sp by (rule spare_mono) simp
  obtain bp t v w u where t: "bread ROOTDEV ?bb s = Ret bp t" "b_data (bcache t bp) = view s ?bb" "sb t = sb s"
    "upd_data bp ?f t = Ret () v" "log_write bp v = Ret () w" "brelse bp w = Ret () u"
    "tx s u" "view u = (view s)(?bb := ?f (view s ?bb))" "icache u = icache s" "lh_n (log u) \<le> lh_n (log s) + 1"
    by (rule tx_write [OF inv(1) lb(1) nl lb(2) sp1, where f = ?f]) (rule that; assumption)
  have free: "\<not> allocated s (b + bi)" using sc eq by (simp add: allocated_def)
  have ds: "data_start (sb s) \<le> b + bi" "b + bi < sb_size (sb s)"
    using free inv(3) sc by (auto simp: meta_used_def intro: leI)
  note ld = layout_data [OF inv(2) ds]
  have nz: "b + bi < LOGICAL_DISK_SIZE" "b + bi \<notin> lockd u" "b + bi \<notin> log_area u"
    using ld(1,2) txD(2,7) [OF t(7)] free inv(4) by (auto simp: data_held_def)
  have su: "spare u 1" by (rule tx_spare [OF sp t(7), where j = 1]) (use t(10) in simp_all)
  obtain u' where u': "bzero ROOTDEV (b + bi) u = Ret () u'" "tx u u'"
    "view u' = (view u)(b + bi := zeroed (view u (b + bi)))" "icache u' = icache u" "lh_n (log u') \<le> lh_n (log u) + 1"
    by (rule bzero_ret [OF txD(1) [OF t(7)] nz su]) (rule that; assumption)
  have "balloc_loop (Suc k) ROOTDEV b s = Ret (b + bi) u'"
    using b(2) t(1-6) scan u'(1) by simp
  moreover have "view u' = (view s)(BBLOCK (b + bi) (sb s) := set_bbit bi (view s (BBLOCK (b + bi) (sb s))), b + bi := zeroed (view s (b + bi)))"
    using u'(3) t(8) ld(3) [OF b(2)] eq by (simp add: set_bbit_def)
  ultimately show ?thesis
    using tx_trans [OF t(7) u'(2)] t(9,10) u'(4,5) by (intro that [of u']) simp_all
qed

text \<open>A bitmap block without a free bit is released unchanged and the scan goes on.\<close>

lemma balloc_next:
  fixes s :: "'x fstate_scheme"
  assumes inv: "linv s" "layout s" "data_held s" and sp: "spare s 2" and b: "b < sb_size (sb s)"
    and scan: "bit_scan (view s (BBLOCK b (sb s))) b (sb_size (sb s)) 0 BPB = None"
  obtains u where "balloc_loop (Suc k) ROOTDEV b s = balloc_loop k ROOTDEV (b + BPB) u" and "tx s u"
    and "view u = view s" and "icache u = icache s" and "log u = log s"
proof -
  let ?bb = "BBLOCK b (sb s)"
  note lb = layout_bmap [OF inv(2) b]
  have nl: "?bb \<notin> lockd s" using inv(3) lb(3) by (auto simp: data_held_def)
  have sp0: "spare s 0" using sp by (rule spare_mono) simp
  obtain bp t u where t: "bread ROOTDEV ?bb s = Ret bp t" "b_data (bcache t bp) = view s ?bb" "sb t = sb s"
    "brelse bp t = Ret () u" "tx s u" "view u = view s" "icache u = icache s" "log u = log s"
    by (rule tx_read [OF inv(1) lb(1) nl sp0]) (rule that; assumption)
  then show ?thesis using b scan by (intro that [of u]) simp_all
qed

lemma allocated_cong: "view t = view s \<Longrightarrow> sb t = sb s \<Longrightarrow> allocated t = allocated s"
  by (rule ext) (simp add: allocated_def)

lemma balloc_state_cong:
  assumes "tx s u" and "view u = view s"
  shows "layout u = layout s" "meta_used u = meta_used s" "data_held u = data_held s" "allocated u = allocated s"
proof -
  show a: "allocated u = allocated s" using assms txD(6) [OF assms(1)] by (intro allocated_cong)
  show "layout u = layout s" by (rule layout_keep [OF txD(3) [OF assms(1)]])
  show "meta_used u = meta_used s" "data_held u = data_held s"
    using a txD(2,6) [OF assms(1)] by (simp_all add: meta_used_def data_held_def)
qed

text \<open>All bits of one bitmap block are set when the scan of the block finds nothing.\<close>

lemma scan_none_allocated:
  assumes "b mod BPB = 0" and "bit_scan (view s (BBLOCK b (sb s))) b (sb_size (sb s)) 0 BPB = None"
    and "\<forall>x<b. x < sb_size (sb s) \<longrightarrow> allocated s x" and "x < b + BPB" and "x < sb_size (sb s)"
  shows "allocated s x"
proof (cases "x < b")
  case False
  obtain q where q: "b = BPB * q" using assms(1) by auto
  obtain i where i: "x = b + i" using False le_Suc_ex by (metis leI)
  with assms(4) have "i < BPB" by simp
  then have "BBLOCK x (sb s) = BBLOCK b (sb s)" "x mod BPB = i" unfolding i q BBLOCK_def by simp_all
  with bit_scan_None [OF assms(2), of i] \<open>i < BPB\<close> assms(5) i show ?thesis by (simp add: allocated_def)
qed (use assms in blast)

definition first_free :: "'x fstate_scheme \<Rightarrow> nat \<Rightarrow> bool" where
  "first_free s x \<longleftrightarrow> x < sb_size (sb s) \<and> \<not> allocated s x \<and> (\<forall>y<x. allocated s y)"

text \<open>What an allocation does to the contents of the blocks.\<close>

definition take_block :: "superblock \<Rightarrow> nat \<Rightarrow> (nat \<Rightarrow> block) \<Rightarrow> nat \<Rightarrow> block" where
  "take_block b x v = v(BBLOCK x b := set_bbit (x mod BPB) (v (BBLOCK x b)), x := zeroed (v x))"

lemma balloc_loop_ret:
  fixes s :: "'x fstate_scheme"
  assumes "linv s" "layout s" "meta_used s" "data_held s" "spare s 2" "b mod BPB = 0"
    and "\<forall>x<b. x < sb_size (sb s) \<longrightarrow> allocated s x" and "sb_size (sb s) \<le> b + k * BPB"
  shows "(\<exists>x u. balloc_loop (Suc k) ROOTDEV b s = Ret x u \<and> first_free s x \<and> tx s u \<and>
            view u = take_block (sb s) x (view s) \<and> icache u = icache s \<and> lh_n (log u) \<le> lh_n (log s) + 2) \<or>
         (balloc_loop (Suc k) ROOTDEV b s = Panic ''balloc: out of blocks'' \<and> (\<forall>x < sb_size (sb s). allocated s x))"
  using assms
proof (induction k arbitrary: b s)
  case 0
  then show ?case by auto
next
  case (Suc k)
  let ?scan = "bit_scan (view s (BBLOCK b (sb s))) b (sb_size (sb s)) 0 BPB"
  show ?case
  proof (cases "b < sb_size (sb s)")
    case False
    with Suc.prems(7) show ?thesis by auto
  next
    case lt: True
    show ?thesis
    proof (cases ?scan)
      case None
      obtain u where u: "balloc_loop (Suc (Suc k)) ROOTDEV b s = balloc_loop (Suc k) ROOTDEV (b + BPB) u" "tx s u"
        "view u = view s" "icache u = icache s" "log u = log s"
        by (rule balloc_next [OF Suc.prems(1,2,4,5) lt None]) (rule that; assumption)
      note c = balloc_state_cong [OF u(2,3)] txD(6) [OF u(2)]
      have sp: "spare u 2" by (rule tx_spare [OF Suc.prems(5) u(2), where j = 0]) (simp_all add: u(5))
      have all: "\<forall>x<b + BPB. x < sb_size (sb u) \<longrightarrow> allocated u x"
        using scan_none_allocated [OF Suc.prems(6) None Suc.prems(7)] c(4,5) by simp
      have m: "(b + BPB) mod BPB = 0" "sb_size (sb u) \<le> b + BPB + k * BPB" using Suc.prems(6,8) c(5) by simp_all
      have ff: "first_free u x = first_free s x" for x using c(4,5) by (simp add: first_free_def)
      have ok: "layout u" "meta_used u" "data_held u" using Suc.prems(2-4) c(1-3) by simp_all
      have t: "tx u w \<Longrightarrow> tx s w" for w using u(2) by (rule tx_trans)
      from Suc.IH [OF txD(1) [OF u(2)] ok sp m(1) all m(2)] t
      show ?thesis unfolding u(1,3,4,5) c(4,5) ff by blast
    next
      case (Some bi)
      obtain u where u: "balloc_loop (Suc (Suc k)) ROOTDEV b s = Ret (b + bi) u" "tx s u"
        "view u = (view s)(BBLOCK (b + bi) (sb s) := set_bbit bi (view s (BBLOCK (b + bi) (sb s))), b + bi := zeroed (view s (b + bi)))"
        "icache u = icache s" "lh_n (log u) \<le> lh_n (log s) + 2"
        by (rule balloc_found [OF Suc.prems(1-6) lt Some]) (rule that; assumption)
      note sc = bit_scan_Some [OF Some]
      obtain q where q: "b = BPB * q" using Suc.prems(6) by auto
      have m: "(b + i) mod BPB = i" "BBLOCK (b + i) (sb s) = BBLOCK b (sb s)" if "i < BPB" for i
        using that unfolding q BBLOCK_def by simp_all
      have "allocated s y" if "y < b + bi" for y
      proof (cases "y < b")
        case False
        then have "y = b + (y - b)" "y - b < bi" using that by simp_all
        then obtain i where "y = b + i" "i < bi" by blast
        with sc m [of i] show ?thesis by (simp add: allocated_def)
      qed (use Suc.prems(7) lt in auto)
      then have "first_free s (b + bi)" using sc m [of bi] by (simp add: first_free_def allocated_def)
      moreover have "view u = take_block (sb s) (b + bi) (view s)" using u(3) m(1) [of bi] sc by (simp add: take_block_def)
      ultimately show ?thesis using u(1,2,4,5) by blast
    qed
  qed
qed

lemma allocated_take:
  assumes "layout s" and "data_start (sb s) \<le> x" and "x < sb_size (sb s)" and "y < sb_size (sb s)"
    and "view t = take_block (sb s) x (view s)" and "sb t = sb s"
  shows "allocated t y \<longleftrightarrow> y = x \<or> allocated s y"
proof -
  have ne: "BBLOCK y (sb s) \<noteq> x" "BBLOCK x (sb s) \<noteq> x" using layout_data(3) [OF assms(1-3)] assms(3,4) by blast+
  have "y mod BPB = x mod BPB \<and> BBLOCK y (sb s) = BBLOCK x (sb s) \<longleftrightarrow> y = x"
    by (auto simp: BBLOCK_def) (metis div_mult_mod_eq)
  with ne assms(5,6) show ?thesis by (auto simp: allocated_def take_block_def bbit_set)
qed

lemma balloc_ret:
  fixes s :: "'x fstate_scheme"
  assumes "linv s" "layout s" "meta_used s" "data_held s" "spare s 2" and "\<exists>x < sb_size (sb s). \<not> allocated s x"
  obtains x t where "balloc ROOTDEV s = Ret x t" and "first_free s x" and "data_start (sb s) \<le> x" and "tx s t"
    and "view t = take_block (sb s) x (view s)" and "icache t = icache s" and "lh_n (log t) \<le> lh_n (log s) + 2"
proof -
  let ?k = "Suc (sb_size (sb s) div BPB)"
  have "sb_size (sb s) \<le> 0 + ?k * BPB"
    using div_mult_mod_eq [of "sb_size (sb s)" BPB] mod_less_divisor [of BPB "sb_size (sb s)"] by (simp add: kconsts)
  from balloc_loop_ret [OF assms(1-5) _ _ this] assms(6) obtain x u where
    "balloc ROOTDEV s = Ret x u" "first_free s x" "tx s u" "view u = take_block (sb s) x (view s)" "icache u = icache s"
    "lh_n (log u) \<le> lh_n (log s) + 2" by (auto simp: balloc_def simp del: balloc_loop.simps)
  moreover from this(2) assms(3) have "data_start (sb s) \<le> x" by (auto simp: first_free_def meta_used_def intro: leI)
  ultimately show ?thesis using that by blast
qed

lemma bfree_ret:
  fixes s :: "'x fstate_scheme"
  assumes inv: "linv s" "layout s" and b: "b < sb_size (sb s)" "BBLOCK b (sb s) \<notin> lockd s"
    and sp: "spare s 1" and a: "allocated s b"
  obtains t where "bfree ROOTDEV b s = Ret () t" and "tx s t" and "icache t = icache s"
    and "view t = (view s)(BBLOCK b (sb s) := clear_bbit (b mod BPB) (view s (BBLOCK b (sb s))))"
    and "lh_n (log t) \<le> lh_n (log s) + 1"
proof -
  let ?bb = "BBLOCK b (sb s)" and ?bi = "b mod BPB"
  let ?f = "\<lambda>d. d(?bi div 8 := d (?bi div 8) AND NOT (push_bit (?bi mod 8) 1))"
  note lb = layout_bmap [OF inv(2) b(1)]
  obtain bp t v w u where t: "bread ROOTDEV ?bb s = Ret bp t" "b_data (bcache t bp) = view s ?bb" "sb t = sb s"
    "upd_data bp ?f t = Ret () v" "log_write bp v = Ret () w" "brelse bp w = Ret () u"
    "tx s u" "view u = (view s)(?bb := ?f (view s ?bb))" "icache u = icache s" "lh_n (log u) \<le> lh_n (log s) + 1"
    by (rule tx_write [OF inv(1) lb(1) b(2) lb(2) sp, where f = ?f]) (rule that; assumption)
  have "bfree ROOTDEV b s = Ret () u"
    using t(1-6) a unfolding allocated_def bbit_def by (simp add: bfree_def Let_def)
  with t(7-10) show ?thesis by (intro that [of u]) (simp_all add: clear_bbit_def)
qed

lemma allocated_clear:
  assumes "layout s" and "x < sb_size (sb s)" "y < sb_size (sb s)"
    and "view t = (view s)(BBLOCK x (sb s) := clear_bbit (x mod BPB) (view s (BBLOCK x (sb s))))" and "sb t = sb s"
  shows "allocated t y \<longleftrightarrow> y \<noteq> x \<and> allocated s y"
proof -
  have "y mod BPB = x mod BPB \<and> BBLOCK y (sb s) = BBLOCK x (sb s) \<longleftrightarrow> y = x"
    by (auto simp: BBLOCK_def) (metis div_mult_mod_eq)
  with assms(4,5) show ?thesis by (auto simp: allocated_def bbit_clear)
qed

text \<open>The bitmap block that \<^verbatim>\<open>mkfs\<close> writes when the first \<open>used\<close> blocks are taken.\<close>

definition mkfs_bitmap :: "nat \<Rightarrow> block" where
  "mkfs_bitmap used = fold set_bbit [0..<used] (\<lambda>_. 0)"

lemma bbit_mkfs: "bbit (mkfs_bitmap used) j \<longleftrightarrow> j < used"
proof -
  have "bbit (fold set_bbit xs d) j \<longleftrightarrow> j \<in> set xs \<or> bbit d j" for xs d
    by (induction xs arbitrary: d) (auto simp: bbit_set)
  then show ?thesis by (auto simp: mkfs_bitmap_def bbit_bit)
qed

definition fresh_disk :: "nat \<Rightarrow> block" where
  "fresh_disk bn = (if bn = 45 then mkfs_bitmap 46 else (\<lambda>_. 0))"

lemma fresh_fs:
  fixes ic defines "s \<equiv> mounted fresh_disk ic"
  shows "layout s" "x < 2048 \<Longrightarrow> allocated s x \<longleftrightarrow> x < 46" "meta_used s" "data_held s"
proof -
  show "layout s" by (simp add: s_def layout_def mounted_fields mkfs_sb_def data_start_def kconsts)
  show al: "x < 2048 \<Longrightarrow> allocated s x \<longleftrightarrow> x < 46" for x
    by (simp add: s_def allocated_def mounted_fields mkfs_sb_def BBLOCK_def mounted_linv(3) fresh_disk_def bbit_mkfs kconsts)
  have d: "data_start (sb s) = 46" by (simp add: s_def mounted_fields mkfs_sb_def data_start_def kconsts)
  show "meta_used s" using al by (simp add: meta_used_def d)
  show "data_held s" by (simp add: data_held_def s_def mounted_linv(2))
qed

lemma balloc_full:
  fixes s :: "'x fstate_scheme"
  assumes "linv s" "layout s" "meta_used s" "data_held s" "spare s 2" and "\<not> (\<exists>x < sb_size (sb s). \<not> allocated s x)"
  shows "balloc ROOTDEV s = Panic ''balloc: out of blocks''"
proof -
  let ?k = "Suc (sb_size (sb s) div BPB)"
  have "sb_size (sb s) \<le> 0 + ?k * BPB"
    using div_mult_mod_eq [of "sb_size (sb s)" BPB] mod_less_divisor [of BPB "sb_size (sb s)"] by (simp add: kconsts)
  from balloc_loop_ret [OF assms(1-5) _ _ this] assms(6) show ?thesis
    by (auto simp: balloc_def first_free_def simp del: balloc_loop.simps)
qed

section \<open>Properties\<close>

text \<open>
  C21. \<^verbatim>\<open>balloc\<close> returns the lowest free block of the disk, which is a data block, marks exactly this
  block as in use and fills it with zeros; no other block changes but the block's bitmap block,
  the disk itself is not written, the buffers held by the caller stay held, and the transaction
  grows by at most two blocks. When every block is in use it panics.
\<close>

theorem balloc_first_free:
  fixes s :: "'x fstate_scheme"
  assumes "linv s" "layout s" "meta_used s" "data_held s" "spare s 2"
  shows "if \<exists>x < sb_size (sb s). \<not> allocated s x
     then \<exists>x t. balloc ROOTDEV s = Ret x t \<and> x < sb_size (sb s) \<and> data_start (sb s) \<le> x \<and>
          \<not> allocated s x \<and> (\<forall>y<x. allocated s y) \<and>
          (\<forall>y < sb_size (sb s). allocated t y \<longleftrightarrow> y = x \<or> allocated s y) \<and> (\<forall>i<BSIZE. view t x i = 0) \<and>
          (\<forall>bn. bn \<noteq> x \<and> bn \<noteq> BBLOCK x (sb s) \<longrightarrow> view t bn = view s bn) \<and>
          tx s t \<and> lh_n (log t) \<le> lh_n (log s) + 2
     else balloc ROOTDEV s = Panic ''balloc: out of blocks''"
proof (cases "\<exists>x < sb_size (sb s). \<not> allocated s x")
  case True
  obtain x t where t: "balloc ROOTDEV s = Ret x t" "first_free s x" "data_start (sb s) \<le> x" "tx s t"
    "view t = take_block (sb s) x (view s)" "lh_n (log t) \<le> lh_n (log s) + 2"
    by (rule balloc_ret [OF assms True]) (rule that; assumption)
  have x: "x < sb_size (sb s)" "\<not> allocated s x" "\<forall>y<x. allocated s y" using t(2) by (simp_all add: first_free_def)
  have "BBLOCK x (sb s) \<noteq> x" using layout_data(3) [OF assms(2) t(3) x(1) x(1)] .
  then have z: "\<forall>i<BSIZE. view t x i = 0" "\<forall>bn. bn \<noteq> x \<and> bn \<noteq> BBLOCK x (sb s) \<longrightarrow> view t bn = view s bn"
    using t(5) by (simp_all add: take_block_def zeroed_def)
  have al: "\<forall>y < sb_size (sb s). allocated t y \<longleftrightarrow> y = x \<or> allocated s y"
    using allocated_take [OF assms(2) t(3) x(1) _ t(5) txD(6) [OF t(4)]] by blast
  show ?thesis
    unfolding if_P [OF True] by (intro exI [of _ x] exI [of _ t] conjI t(1,3,4,6) x z al)
next
  case False
  show ?thesis unfolding if_not_P [OF False] by (rule balloc_full [OF assms False])
qed

theorem balloc_first_free_witness:
  "\<exists>t. balloc ROOTDEV (mounted fresh_disk (\<lambda>_. undefined)) = Ret 46 t \<and> allocated t 46 \<and> \<not> allocated t 47"
proof -
  let ?s = "mounted fresh_disk (\<lambda>_. undefined)"
  have sz: "sb_size (sb ?s) = 2048" by (simp add: mounted_fields mkfs_sb_def)
  note f = fresh_fs [where ic = "\<lambda>_. undefined"]
  have ex: "\<exists>x < sb_size (sb ?s). \<not> allocated ?s x" using f(2) [of 46] sz by (intro exI [of _ 46]) simp
  have "spare ?s 2" by (rule mounted_linv(5)) simp
  from balloc_first_free [OF mounted_linv(1) f(1,3,4) this] ex obtain x t where
    t: "balloc ROOTDEV ?s = Ret x t" "x < 2048" "\<not> allocated ?s x" "\<forall>y<x. allocated ?s y"
    "\<forall>y < sb_size (sb ?s). allocated t y \<longleftrightarrow> y = x \<or> allocated ?s y" unfolding sz if_P [OF ex [unfolded sz]] by blast
  have "x = 46"
  proof (rule ccontr)
    assume "x \<noteq> 46"
    then consider "x < 46" | "46 < x" by linarith
    then show False using t(2-4) f(2) [of x] f(2) [of 46] by cases auto
  qed
  with t(1,5) f(2) [of 47] sz show ?thesis by auto
qed

text \<open>
  C22. \<^verbatim>\<open>bfree\<close> gives back exactly the block it is called with: of a block in use it clears the bit and
  changes nothing else; on a free block it panics.
\<close>

theorem bfree_exact:
  fixes s :: "'x fstate_scheme"
  assumes "linv s" "layout s" "spare s 1" and "b < sb_size (sb s)" and "BBLOCK b (sb s) \<notin> lockd s"
  shows "if allocated s b
     then \<exists>t. bfree ROOTDEV b s = Ret () t \<and> tx s t \<and> lh_n (log t) \<le> lh_n (log s) + 1 \<and>
          (\<forall>y < sb_size (sb s). allocated t y \<longleftrightarrow> y \<noteq> b \<and> allocated s y) \<and>
          (\<forall>bn. bn \<noteq> BBLOCK b (sb s) \<longrightarrow> view t bn = view s bn)
     else bfree ROOTDEV b s = Panic ''freeing free block''"
proof (cases "allocated s b")
  case True
  obtain t where t: "bfree ROOTDEV b s = Ret () t" "tx s t"
    "view t = (view s)(BBLOCK b (sb s) := clear_bbit (b mod BPB) (view s (BBLOCK b (sb s))))"
    "lh_n (log t) \<le> lh_n (log s) + 1"
    by (rule bfree_ret [OF assms(1,2,4,5,3) True]) (rule that; assumption)
  have al: "\<forall>y < sb_size (sb s). allocated t y \<longleftrightarrow> y \<noteq> b \<and> allocated s y"
    using allocated_clear [OF assms(2,4) _ t(3) txD(6) [OF t(2)]] by blast
  have v: "\<forall>bn. bn \<noteq> BBLOCK b (sb s) \<longrightarrow> view t bn = view s bn" using t(3) by simp
  show ?thesis unfolding if_P [OF True] by (intro exI [of _ t] conjI t(1,2,4) al v)
next
  case False
  note lb = layout_bmap [OF assms(2,4)]
  have sp0: "spare s 0" using assms(3) by (rule spare_mono) simp
  obtain bp t where "bread ROOTDEV (BBLOCK b (sb s)) s = Ret bp t" "b_data (bcache t bp) = view s (BBLOCK b (sb s))"
    by (rule tx_read [OF assms(1) lb(1) assms(5) sp0]) (rule that; assumption)
  with False show ?thesis by (simp add: bfree_def allocated_def bbit_def)
qed

theorem bfree_exact_witness:
  "\<exists>t. bfree ROOTDEV 45 (mounted fresh_disk (\<lambda>_. undefined)) = Ret () t \<and> \<not> allocated t 45 \<and> allocated t 44"
proof -
  let ?s = "mounted fresh_disk (\<lambda>_. undefined)"
  have sz: "sb_size (sb ?s) = 2048" by (simp add: mounted_fields mkfs_sb_def)
  note f = fresh_fs [where ic = "\<lambda>_. undefined"]
  have sp: "spare ?s 1" by (rule mounted_linv(5)) simp
  from bfree_exact [OF mounted_linv(1) f(1) sp, of 45] f(2) [of 45] f(2) [of 44] sz show ?thesis
    by (auto simp: mounted_linv(2))
qed

end
