(* ===== verification/Inode.thy ===== *)
theory Inode
  imports Alloc
begin

unbundle bit_operations_syntax

text \<open>
  On-disk inodes, the inode cache, and the locking of inodes: \<^verbatim>\<open>iget\<close>, \<^verbatim>\<open>idup\<close>, \<^verbatim>\<open>ilock\<close>, \<^verbatim>\<open>iunlock\<close>,
  \<^verbatim>\<open>iupdate\<close> of \<^verbatim>\<open>kernel/fs.c\<close>.
\<close>

section \<open>Arrays of records in a block\<close>

text \<open>
  The blocks hold arrays of fixed-size records: \<^verbatim>\<open>struct dinode\<close> in the inode blocks and \<^verbatim>\<open>uint\<close> in the
  indirect blocks. \<open>enc off r d\<close> stores a record at offset \<open>off\<close>, \<open>dec\<close> reads one, \<open>val\<close> is what
  is kept of a record.
\<close>

locale record_array =
  fixes sz :: nat
    and enc :: "nat \<Rightarrow> 'r \<Rightarrow> block \<Rightarrow> block"
    and dec :: "nat \<Rightarrow> block \<Rightarrow> 'v"
    and val :: "'r \<Rightarrow> 'v"
    and wf :: "'r \<Rightarrow> bool"
  assumes dec_enc: "wf r \<Longrightarrow> dec off (enc off r d) = val r"
    and enc_local: "k < off \<or> off + sz \<le> k \<Longrightarrow> enc off r d k = d k"
    and dec_local: "(\<And>k. off \<le> k \<Longrightarrow> k < off + sz \<Longrightarrow> d k = e k) \<Longrightarrow> dec off d = dec off e"
begin

definition elem :: "block \<Rightarrow> nat \<Rightarrow> 'v" where
  "elem d i = dec (sz * i) d"

lemma elem_upd:
  assumes "wf r"
  shows "elem (enc (sz * i) r d) j = (if j = i then val r else elem d j)"
proof (cases "j = i")
  case False
  then consider "j < i" | "i < j" by linarith
  then have "sz * j + sz \<le> sz * i \<or> sz * i + sz \<le> sz * j"
  proof cases
    case 1
    then have "sz * Suc j \<le> sz * i" by (intro mult_le_mono2) simp
    then show ?thesis by simp
  next
    case 2
    then have "sz * Suc i \<le> sz * j" by (intro mult_le_mono2) simp
    then show ?thesis by simp
  qed
  then have "dec (sz * j) (enc (sz * i) r d) = dec (sz * j) d"
    by (intro dec_local enc_local) auto
  with False show ?thesis by (simp add: elem_def)
qed (simp add: elem_def dec_enc assms)

end

interpretation uint_array: record_array 4 wr32 "\<lambda>off d. rd32 d off" "\<lambda>v. v" "\<lambda>v. v < 2 ^ 32"
  by unfold_locales (auto intro: rd32_cong)

text \<open>The fields of an inode that live on disk.\<close>

type_synonym dinode = "16 word \<times> 16 word \<times> 16 word \<times> 16 word \<times> nat \<times> nat list"

definition dinode_of :: "inode \<Rightarrow> dinode" where
  "dinode_of ip = (i_type ip, i_major ip, i_mode ip, i_nlink ip, i_size ip, map (i_addrs ip) [0..<NDIRECT + 1])"

definition rd_dinode :: "nat \<Rightarrow> block \<Rightarrow> dinode" where
  "rd_dinode off d = (word_of_nat (rd16 d off), word_of_nat (rd16 d (off + 2)), word_of_nat (rd16 d (off + 4)),
     word_of_nat (rd16 d (off + 6)), rd32 d (off + 8), rd_uints d (off + 12) (NDIRECT + 1))"

definition dinode_wf :: "inode \<Rightarrow> bool" where
  "dinode_wf ip \<longleftrightarrow> i_size ip < 2 ^ 32 \<and> (\<forall>i<NDIRECT + 1. i_addrs ip i < 2 ^ 32)"

lemma rd16_wr_uints_other:
  "off + 2 \<le> base \<or> base + 4 * length vs \<le> off \<Longrightarrow> rd16 (wr_uints base vs d) off = rd16 d off"
  by (intro rd16_cong wr_uints_other) auto

lemma rd16_wr32_other: "off' + 2 \<le> off \<or> off + 4 \<le> off' \<Longrightarrow> rd16 (wr32 off v d) off' = rd16 d off'"
  by (intro rd16_cong wr32_other) auto

lemma rd32_wr16_other: "off' + 4 \<le> off \<or> off + 2 \<le> off' \<Longrightarrow> rd32 (wr16 off v d) off' = rd32 d off'"
  by (auto intro!: rd32_cong wr16_other)

lemma word16_roundtrip: "word_of_nat (unat (w :: 16 word) mod 65536) = w"
proof -
  have "unat w < 65536" using unsigned_less [of w, where ?'a = nat] by simp
  then show ?thesis by simp
qed

lemma rd_put_dinode:
  assumes "dinode_wf ip"
  shows "rd_dinode off (put_dinode off ip d) = dinode_of ip"
proof -
  let ?vs = "map (i_addrs ip) [0..<NDIRECT + 1]"
  have "rd_uints (wr_uints (off + 12) ?vs e) (off + 12) (length ?vs) = ?vs" for e
    using assms by (intro rd_uints_wr_uints) (auto simp: dinode_wf_def)
  then have u: "rd_uints (wr_uints (off + 12) ?vs e) (off + 12) (NDIRECT + 1) = ?vs" for e
    by (simp del: upt_Suc)
  have l: "length ?vs = 13" by (simp add: NDIRECT_def)
  show ?thesis
    using assms unfolding rd_dinode_def put_dinode_def dinode_of_def u
    by (simp add: rd16_wr_uints_other rd32_wr_uints_other rd16_wr32_other word16_roundtrip dinode_wf_def
        del: upt_Suc of_nat_mod)
qed

interpretation dinode_array: record_array 64 put_dinode rd_dinode dinode_of dinode_wf
proof (unfold_locales, goal_cases enc loc dec)
  case (enc r off d)
  then show ?case by (rule rd_put_dinode)
next
  case (loc k off r d)
  then show ?case by (auto simp: put_dinode_def wr_uints_other NDIRECT_def)
next
  case (dec off d e)
  then have "rd_uints d (off + 12) (NDIRECT + 1) = rd_uints e (off + 12) (NDIRECT + 1)"
    by (intro rd_uints_cong) (auto simp: NDIRECT_def)
  moreover have "rd32 d (off + 8) = rd32 e (off + 8)" using dec by (intro rd32_cong) auto
  moreover have "rd16 d (off + i) = rd16 e (off + i)" if "i \<le> 6" for i using dec that by (intro rd16_cong) auto
  from this [of 0] this [of 2] this [of 4] this [of 6]
  have "rd16 d off = rd16 e off" "rd16 d (off + 2) = rd16 e (off + 2)" "rd16 d (off + 4) = rd16 e (off + 4)"
    "rd16 d (off + 6) = rd16 e (off + 6)" by simp_all
  ultimately show ?case unfolding rd_dinode_def by (simp only:)
qed

lemma dinode_of_get: "dinode_of (get_dinode off d ip) = rd_dinode off d"
  by (simp add: dinode_of_def get_dinode_def rd_dinode_def rd_uints_def del: upt_Suc)

lemma type_of_get: "i_type (get_dinode off d ip) = fst (rd_dinode off d)"
  by (simp add: get_dinode_def rd_dinode_def)

text \<open>The inode with number \<open>i\<close> as the blocks have it.\<close>

definition on_disk :: "'x fstate_scheme \<Rightarrow> nat \<Rightarrow> dinode" where
  "on_disk s i = dinode_array.elem (view s (IBLOCK i (sb s))) (i mod IPB)"

lemma IBLOCK_layout:
  assumes "layout s" and "i < sb_ninodes (sb s)"
  shows "IBLOCK i (sb s) < LOGICAL_DISK_SIZE" "IBLOCK i (sb s) \<notin> log_area s" "IBLOCK i (sb s) < data_start (sb s)"
    "b < sb_size (sb s) \<Longrightarrow> BBLOCK b (sb s) \<noteq> IBLOCK i (sb s)"
proof -
  have le: "i div IPB \<le> sb_ninodes (sb s) div IPB" using assms(2) by (intro div_le_mono) simp
  then show "IBLOCK i (sb s) < data_start (sb s)" "IBLOCK i (sb s) \<notin> log_area s" "IBLOCK i (sb s) < LOGICAL_DISK_SIZE"
    using assms(1) by (auto simp: IBLOCK_def data_start_def layout_def log_area_def)
  show "b < sb_size (sb s) \<Longrightarrow> BBLOCK b (sb s) \<noteq> IBLOCK i (sb s)"
    using layout_bmap(4) [OF assms(1), of b] le by (simp add: IBLOCK_def)
qed

lemma dip_off_elem: "rd_dinode (dip_off i) d = dinode_array.elem d (i mod IPB)"
  by (simp add: dip_off_def dinode_array.elem_def)

lemma on_disk_upd:
  assumes "view t = (view s)(IBLOCK i (sb s) := put_dinode (dip_off i) ip (view s (IBLOCK i (sb s))))"
    and "sb t = sb s" and "dinode_wf ip"
  shows "on_disk t j = (if j = i then dinode_of ip else on_disk s j)"
proof -
  have "j mod IPB = i mod IPB \<and> IBLOCK j (sb s) = IBLOCK i (sb s) \<longleftrightarrow> j = i"
    by (auto simp: IBLOCK_def) (metis div_mult_mod_eq)
  with assms dinode_array.elem_upd [OF assms(3), of "i mod IPB" "view s (IBLOCK i (sb s))" "j mod IPB"]
  show ?thesis by (auto simp: on_disk_def dip_off_def)
qed

lemma iupdate_ret:
  fixes s :: "'x fstate_scheme"
  assumes inv: "linv s" "layout s" and ip: "i_dev (icache s ip) = ROOTDEV" "i_inum (icache s ip) < sb_ninodes (sb s)"
    and nl: "IBLOCK (i_inum (icache s ip)) (sb s) \<notin> lockd s" and sp: "spare s 1"
  obtains t where "iupdate ip s = Ret () t" and "tx s t" and "icache t = icache s"
    and "view t = (view s)(IBLOCK (i_inum (icache s ip)) (sb s) :=
           put_dinode (dip_off (i_inum (icache s ip))) (icache s ip) (view s (IBLOCK (i_inum (icache s ip)) (sb s))))"
    and "lh_n (log t) \<le> lh_n (log s) + 1"
proof -
  let ?bn = "IBLOCK (i_inum (icache s ip)) (sb s)" and ?f = "put_dinode (dip_off (i_inum (icache s ip))) (icache s ip)"
  note il = IBLOCK_layout [OF inv(2) ip(2)]
  obtain bp t v w u where t: "bread ROOTDEV ?bn s = Ret bp t" "sb t = sb s" "icache t = icache s"
    "upd_data bp ?f t = Ret () v" "log_write bp v = Ret () w" "brelse bp w = Ret () u"
    "tx s u" "view u = (view s)(?bn := ?f (view s ?bn))" "icache u = icache s" "lh_n (log u) \<le> lh_n (log s) + 1"
    by (rule tx_write [OF inv(1) il(1) nl il(2) sp, where f = ?f]) (rule that; assumption)
  have "iupdate ip s = Ret () u" using t(1-6) ip(1) by (simp add: iupdate_def)
  with t(7-10) show ?thesis by (intro that [of u])
qed

text \<open>The entry after \<^verbatim>\<open>ilock\<close>.\<close>

definition loaded :: "'x fstate_scheme \<Rightarrow> inode \<Rightarrow> inode" where
  "loaded s x =
     (let y = x\<lparr>i_lock := held_by (mypid s)\<rparr> in
      if i_valid x then y
      else (get_dinode (dip_off (i_inum x)) (view s (IBLOCK (i_inum x) (sb s))) y)\<lparr>i_valid := True\<rparr>)"

lemma ilock_ret:
  fixes s :: "'x fstate_scheme"
  assumes inv: "linv s" "layout s" and ip: "i_dev (icache s ip) = ROOTDEV" "i_inum (icache s ip) < sb_ninodes (sb s)"
    "1 \<le> i_ref (icache s ip)" "\<not> lk_locked (i_lock (icache s ip))"
    and nl: "IBLOCK (i_inum (icache s ip)) (sb s) \<notin> lockd s" and sp: "spare s 0"
    and ty: "i_valid (icache s ip) \<or> fst (on_disk s (i_inum (icache s ip))) \<noteq> 0"
  obtains t where "ilock ip s = Ret () t" and "tx s t" and "view t = view s" and "log t = log s"
    and "icache t = (icache s)(ip := loaded s (icache s ip))"
proof (cases "i_valid (icache s ip)")
  case True
  let ?t = "s\<lparr>icache := (icache s)(ip := (icache s ip)\<lparr>i_lock := held_by (mypid s)\<rparr>)\<rparr>"
  have "ilock ip s = Ret () ?t" using ip True by (simp add: ilock_def inode_acquiresleep_def)
  then show ?thesis using True tx_icache [OF inv(1)] by (intro that [of ?t]) (simp_all add: loaded_def)
next
  case False
  let ?x = "icache s ip" and ?bn = "IBLOCK (i_inum (icache s ip)) (sb s)"
  let ?s = "s\<lparr>icache := (icache s)(ip := ?x\<lparr>i_lock := held_by (mypid s)\<rparr>)\<rparr>"
  note il = IBLOCK_layout [OF inv(2) ip(2)]
  have sp': "spare ?s 0" using sp by (simp add: spare_def)
  have i1: "linv ?s" "?bn \<notin> lockd ?s" using inv(1) nl by simp_all
  obtain bp t where t: "bread ROOTDEV ?bn ?s = Ret bp t" "linv t" "holds t bp ?bn"
    "b_data (bcache t bp) = view ?s ?bn" "view t = view ?s" "lockd t = insert ?bn (lockd ?s)"
    "fkeep ?s t" "icache t = icache ?s" "log t = log ?s" "\<And>b' bn'. holds ?s b' bn' \<Longrightarrow> holds t b' bn'"
    by (rule tx_open [OF i1(1) il(1) i1(2) sp']) (rule that; assumption)
  let ?f = "get_dinode (dip_off (i_inum ?x)) (view s ?bn)"
  let ?t = "t\<lparr>icache := (icache t)(ip := ?f (icache t ip))\<rparr>"
  have lg: "logged t = logged s" by (simp add: logged_def t(9))
  have st: "settled ?t ?bn"
    using settled_unlocked [OF inv(1) il(1) nl] t(5) fkeepD(1) [OF t(7)] lg by (auto simp: settled_def)
  have i2: "linv ?t" "holds ?t bp ?bn" using t(2,3) by simp_all
  obtain u where u: "brelse bp ?t = Ret () u" "linv u" "view u = view ?t" "lockd u = lockd ?t - {?bn}"
    "fkeep ?t u" "icache u = icache ?t" "log u = log ?t"
    "\<And>b' bn'. bn' \<noteq> ?bn \<Longrightarrow> holds ?t b' bn' \<Longrightarrow> holds u b' bn'"
    by (rule tx_close [OF i2 st]) (rule that; assumption)
  let ?u = "u\<lparr>icache := (icache u)(ip := (icache u ip)\<lparr>i_valid := True\<rparr>)\<rparr>"
  have ty': "i_type (?f (icache t ip)) \<noteq> 0"
    using ty False by (simp add: on_disk_def dip_off_elem [symmetric] type_of_get)
  have "ilock ip s = Ret () ?u"
    using ip False t(1,4,8) fkeepD(4) [OF t(7)] u(1,6) ty'
    by (simp add: ilock_def inode_acquiresleep_def Let_def)
  moreover have "tx s ?u"
  proof -
    have k: "fkeep s u" using t(7) u(5) by (simp add: fkeep_def)
    have "lockd u = lockd s" using u(4) t(6) nl by auto
    moreover have "holds u b bn" if "holds s b bn" for b bn
      using u(8) [of bn b] t(10) [of b bn] that holds_lockd [OF that] nl by auto
    moreover have "logged u = logged s" by (simp add: logged_def u(7) t(9))
    ultimately show ?thesis using u(2) k by (simp add: tx_def fkeep_def)
  qed
  moreover have "icache ?u = (icache s)(ip := loaded s ?x)"
    using False u(6) t(8) by (simp add: loaded_def Let_def fun_eq_iff)
  ultimately show ?thesis using u(3,7) t(5,9) by (intro that [of ?u]) simp_all
qed

section \<open>The inode cache\<close>

text \<open>At most one entry in use for an inode.\<close>

definition icache_ok :: "(nat \<Rightarrow> inode) \<Rightarrow> bool" where
  "icache_ok c \<longleftrightarrow> (\<forall>i<NINODE. 0 \<le> i_ref (c i)) \<and>
     (\<forall>i<NINODE. \<forall>j<NINODE. i_ref (c i) > 0 \<and> i_ref (c j) > 0 \<and>
        i_dev (c i) = i_dev (c j) \<and> i_inum (c i) = i_inum (c j) \<longrightarrow> i = j)"

lemma icache_okD:
  assumes "icache_ok c" and "i < NINODE"
  shows "0 \<le> i_ref (c i)"
    and "j < NINODE \<Longrightarrow> i_ref (c i) > 0 \<Longrightarrow> i_ref (c j) > 0 \<Longrightarrow> i_dev (c i) = i_dev (c j) \<Longrightarrow> i_inum (c i) = i_inum (c j) \<Longrightarrow> i = j"
  using assms unfolding icache_ok_def by blast+

lemma icache_ok_upd:
  assumes ok: "icache_ok c" and x: "0 \<le> i_ref x"
    and n: "\<And>j. j < NINODE \<Longrightarrow> j \<noteq> ip \<Longrightarrow> i_ref (c j) > 0 \<Longrightarrow> i_dev (c j) = i_dev x \<Longrightarrow> i_inum (c j) \<noteq> i_inum x"
  shows "icache_ok (c(ip := x))"
  unfolding icache_ok_def
proof (intro conjI allI impI)
  fix i assume "i < NINODE"
  then show "0 \<le> i_ref ((c(ip := x)) i)" using icache_okD(1) [OF ok] x by simp
next
  fix i j assume ij: "i < NINODE" "j < NINODE" and h: "i_ref ((c(ip := x)) i) > 0 \<and> i_ref ((c(ip := x)) j) > 0 \<and>
    i_dev ((c(ip := x)) i) = i_dev ((c(ip := x)) j) \<and> i_inum ((c(ip := x)) i) = i_inum ((c(ip := x)) j)"
  show "i = j"
  proof (cases "i = ip")
    case True
    then show ?thesis using h n [OF ij(2)] by (cases "j = ip") auto
  next
    case False
    then show ?thesis using h n [OF ij(1)] icache_okD(2) [OF ok ij] by (cases "j = ip") auto
  qed
qed

lemma iget_scan_hit:
  "iget_scan c dev inum e i k = Inl ip \<Longrightarrow>
   i \<le> ip \<and> ip < i + k \<and> i_ref (c ip) > 0 \<and> i_dev (c ip) = dev \<and> i_inum (c ip) = inum"
  by (induction k arbitrary: i e) (fastforce split: if_splits)+

lemma iget_scan_miss:
  "iget_scan c dev inum e i k = Inr r \<Longrightarrow>
   (\<forall>j. i \<le> j \<and> j < i + k \<longrightarrow> \<not> (i_ref (c j) > 0 \<and> i_dev (c j) = dev \<and> i_inum (c j) = inum)) \<and>
   r = (if e = None then find (\<lambda>j. i_ref (c j) = 0) [i..<i + k] else e)"
proof (induction k arbitrary: i e)
  case (Suc k)
  let ?e = "if e = None \<and> i_ref (c i) = 0 then Some i else e"
  have ne: "\<not> (i_ref (c i) > 0 \<and> i_dev (c i) = dev \<and> i_inum (c i) = inum)"
    and r: "iget_scan c dev inum ?e (Suc i) k = Inr r" using Suc.prems by (auto split: if_splits)
  have "j = i \<or> Suc i \<le> j" if "i \<le> j" for j using that by linarith
  with Suc.IH [OF r] ne show ?case
    by (auto simp: upt_conv_Cons simp del: upt_Suc)
qed simp

section \<open>Properties\<close>

text \<open>
  C23. \<^verbatim>\<open>iget\<close> keeps the inode cache unambiguous. It returns the one entry that stands for the inode: the
  entry in use for it, with one more reference, or else the first free entry, which it takes for
  the inode with one reference and contents to be read. No other entry changes. It panics exactly
  when the inode has no entry and none is free.
\<close>

theorem iget_unique:
  fixes s :: "'x fstate_scheme"
  assumes "icache_ok (icache s)"
  shows "case iget dev inum s of
     Ret ip t \<Rightarrow>
       ip < NINODE \<and> icache_ok (icache t) \<and> t = s\<lparr>icache := icache t\<rparr> \<and> (\<forall>j. j \<noteq> ip \<longrightarrow> icache t j = icache s j) \<and>
       i_dev (icache t ip) = dev \<and> i_inum (icache t ip) = inum \<and>
       (if \<exists>j<NINODE. i_ref (icache s j) > 0 \<and> i_dev (icache s j) = dev \<and> i_inum (icache s j) = inum
        then icache t ip = (icache s ip)\<lparr>i_ref := i_ref (icache s ip) + 1\<rparr> \<and> i_ref (icache s ip) > 0
        else i_ref (icache s ip) = 0 \<and> (\<forall>j<ip. i_ref (icache s j) \<noteq> 0) \<and>
             i_ref (icache t ip) = 1 \<and> \<not> i_valid (icache t ip))
   | Panic e \<Rightarrow>
       (\<forall>j<NINODE. i_ref (icache s j) \<noteq> 0 \<and> \<not> (i_dev (icache s j) = dev \<and> i_inum (icache s j) = inum))
   | _ \<Rightarrow> False"
proof (cases "iget_scan (icache s) dev inum None 0 NINODE")
  case (Inl ip)
  note h = iget_scan_hit [OF Inl]
  let ?t = "s\<lparr>icache := (icache s)(ip := (icache s ip)\<lparr>i_ref := i_ref (icache s ip) + 1\<rparr>)\<rparr>"
  have ok: "icache_ok (icache ?t)"
    using h icache_okD(2) [OF assms] by (auto intro!: icache_ok_upd [OF assms])
  have r: "iget dev inum s = Ret ip ?t" using Inl by (simp add: iget_def)
  have ex: "\<exists>j<NINODE. i_ref (icache s j) > 0 \<and> i_dev (icache s j) = dev \<and> i_inum (icache s j) = inum"
    using h by auto
  show ?thesis unfolding r outcome.case if_P [OF ex] using ok h by simp
next
  case (Inr r)
  note m = iget_scan_miss [OF Inr]
  show ?thesis
  proof (cases r)
    case None
    then have "\<forall>j<NINODE. i_ref (icache s j) \<noteq> 0" using m by (auto simp: find_None_iff)
    moreover from this assms have "\<forall>j<NINODE. 0 < i_ref (icache s j)" by (auto simp: icache_ok_def less_le)
    ultimately show ?thesis using Inr None m by (auto simp: iget_def)
  next
    case (Some ip)
    then have f: "find (\<lambda>j. i_ref (icache s j) = 0) [0..<NINODE] = Some ip" using m by simp
    then have ip: "ip < NINODE" "i_ref (icache s ip) = 0" "\<forall>j<ip. i_ref (icache s j) \<noteq> 0"
      by (auto simp: find_Some_iff)
    let ?t = "s\<lparr>icache := (icache s)(ip := (icache s ip)\<lparr>i_dev := dev, i_inum := inum, i_ref := 1, i_valid := False\<rparr>)\<rparr>"
    have ok: "icache_ok (icache ?t)" using m by (auto intro!: icache_ok_upd [OF assms])
    have r: "iget dev inum s = Ret ip ?t" using Inr Some by (simp add: iget_def)
    have ex: "\<not> (\<exists>j<NINODE. i_ref (icache s j) > 0 \<and> i_dev (icache s j) = dev \<and> i_inum (icache s j) = inum)"
      using m by auto
    show ?thesis unfolding r outcome.case if_not_P [OF ex] using ok ip by simp
  qed
qed

text \<open>An unused cache entry, as in the zeroed static data.\<close>

definition no_inode :: inode where
  "no_inode = \<lparr>i_dev = 0, i_inum = 0, i_ref = 0, i_lock = initsleeplock, i_valid = False, i_type = 0, i_major = 0,
     i_mode = 0, i_nlink = 0, i_size = 0, i_addrs = (\<lambda>_. 0)\<rparr>"

theorem iget_unique_witness:
  "\<exists>ip t. iget 1 7 (mounted fresh_disk (\<lambda>_. no_inode)) = Ret ip t \<and> ip < NINODE \<and>
     i_dev (icache t ip) = 1 \<and> i_inum (icache t ip) = 7 \<and> i_ref (icache t ip) = 1"
proof -
  let ?s = "mounted fresh_disk (\<lambda>_. no_inode)"
  have f: "i_ref (icache ?s j) = 0" for j by (simp add: mounted_fields no_inode_def)
  then have ok: "icache_ok (icache ?s)" by (simp add: icache_ok_def)
  have "0 < NINODE" by (simp add: NINODE_def)
  with iget_unique [OF ok, of 1 7] f show ?thesis by (cases "iget 1 7 ?s") auto
qed

text \<open>
  C24. An inode survives the way through the disk. \<^verbatim>\<open>iupdate\<close> stores the fields of a cached inode in its
  slot of its inode block and leaves every other inode of the disk unchanged; whenever afterwards
  a cache entry for the same inode has to be read, in whatever state the inode cache is,
  \<^verbatim>\<open>ilock\<close> returns with exactly these fields and with the lock held.
\<close>

theorem inode_roundtrip:
  fixes s :: "'x fstate_scheme"
  assumes "linv s" "layout s" "spare s 1" "lockd s = {}"
    and "i_dev (icache s ip) = ROOTDEV" "i_inum (icache s ip) < sb_ninodes (sb s)"
    and "dinode_wf (icache s ip)" "i_type (icache s ip) \<noteq> 0"
  shows "\<exists>t. iupdate ip s = Ret () t \<and> tx s t \<and>
     (\<forall>j. j \<noteq> i_inum (icache s ip) \<longrightarrow> on_disk t j = on_disk s j) \<and>
     (\<forall>ic jp. i_dev (ic jp) = ROOTDEV \<and> i_inum (ic jp) = i_inum (icache s ip) \<and> 1 \<le> i_ref (ic jp) \<and>
        \<not> lk_locked (i_lock (ic jp)) \<and> \<not> i_valid (ic jp) \<longrightarrow>
        (\<exists>u. ilock jp (t\<lparr>icache := ic\<rparr>) = Ret () u \<and> dinode_of (icache u jp) = dinode_of (icache s ip) \<and>
             holdingsleep (mypid s) (i_lock (icache u jp)) \<and> i_valid (icache u jp)))"
proof -
  let ?i = "i_inum (icache s ip)"
  have nl: "IBLOCK ?i (sb s) \<notin> lockd s" using assms(4) by simp
  obtain t where t: "iupdate ip s = Ret () t" "tx s t"
    "view t = (view s)(IBLOCK ?i (sb s) := put_dinode (dip_off ?i) (icache s ip) (view s (IBLOCK ?i (sb s))))"
    "lh_n (log t) \<le> lh_n (log s) + 1"
    by (rule iupdate_ret [OF assms(1,2,5,6) nl assms(3)]) (rule that; assumption)
  note od = on_disk_upd [OF t(3) txD(6) [OF t(2)] assms(7)]
  have sp: "spare t 0" by (rule tx_spare [OF assms(3) t(2), where j = 1]) (use t(4) in simp_all)
  have r: "\<exists>u. ilock jp (t\<lparr>icache := ic\<rparr>) = Ret () u \<and> dinode_of (icache u jp) = dinode_of (icache s ip) \<and>
      holdingsleep (mypid s) (i_lock (icache u jp)) \<and> i_valid (icache u jp)"
    if H: "i_dev (ic jp) = ROOTDEV \<and> i_inum (ic jp) = ?i \<and> 1 \<le> i_ref (ic jp) \<and>
        \<not> lk_locked (i_lock (ic jp)) \<and> \<not> i_valid (ic jp)" for ic jp
  proof -
    let ?t = "t\<lparr>icache := ic\<rparr>"
    have sb: "sb ?t = sb s" "layout ?t" "lockd ?t = {}" "linv ?t" "spare ?t 0" "mypid ?t = mypid s"
      using txD [OF t(2)] assms(2,4) sp layout_keep [OF txD(3) [OF t(2)]] by (simp_all add: layout_def spare_def)
    have odt: "on_disk ?t ?i = dinode_of (icache s ip)" using od [of ?i] by (simp add: on_disk_def)
    obtain u where u: "ilock jp ?t = Ret () u" "icache u = (icache ?t)(jp := loaded ?t (icache ?t jp))"
      by (rule ilock_ret [of ?t jp]) (use H sb assms(6,8) odt in \<open>simp_all add: dinode_of_def\<close>)
    have "dinode_of (icache u jp) = on_disk ?t ?i"
      using u(2) H dinode_of_get [of "dip_off ?i"]
      by (simp add: loaded_def Let_def on_disk_def dip_off_elem [symmetric] dinode_of_def)
    with odt u H sb(6) show ?thesis by (auto simp: loaded_def Let_def get_dinode_def)
  qed
  show ?thesis
    by (rule exI [of _ t], rule conjI [OF t(1)], rule conjI [OF t(2)], rule conjI) (simp add: od, blast intro: r)
qed


definition sample_inode :: inode where
  "sample_inode = no_inode\<lparr>i_dev := 1, i_inum := 5, i_ref := 1, i_type := T_FILE, i_mode := M_ALL, i_nlink := 1\<rparr>"

theorem inode_roundtrip_witness:
  "\<exists>t u. iupdate 0 (mounted fresh_disk (\<lambda>_. sample_inode)) = Ret () t \<and> ilock 3 t = Ret () u \<and>
     i_type (icache u 3) = T_FILE \<and> i_nlink (icache u 3) = 1"
proof -
  let ?s = "mounted fresh_disk (\<lambda>_. sample_inode)"
  have ic: "icache ?s jp = sample_inode" for jp by (simp add: mounted_fields)
  have sp: "spare ?s 1" by (rule mounted_linv(5)) simp
  have wf: "i_dev (icache ?s 0) = ROOTDEV" "i_inum (icache ?s 0) < sb_ninodes (sb ?s)" "dinode_wf (icache ?s 0)"
    "i_type (icache ?s 0) \<noteq> 0"
    by (simp_all add: ic sample_inode_def no_inode_def mounted_fields mkfs_sb_def dinode_wf_def kconsts)
  from inode_roundtrip [OF mounted_linv(1) fresh_fs(1) sp mounted_linv(2) wf(1-4)] obtain t where
    t: "iupdate 0 ?s = Ret () t" and r: "\<And>ic jp. i_dev (ic jp) = ROOTDEV \<and> i_inum (ic jp) = i_inum (icache ?s 0) \<and> 1 \<le> i_ref (ic jp) \<and>
        \<not> lk_locked (i_lock (ic jp)) \<and> \<not> i_valid (ic jp) \<Longrightarrow>
        \<exists>u. ilock jp (t\<lparr>icache := ic\<rparr>) = Ret () u \<and> dinode_of (icache u jp) = dinode_of (icache ?s 0)" by blast
  have "icache t = icache ?s"
    by (rule iupdate_ret [OF mounted_linv(1) fresh_fs(1) wf(1,2) _ sp])
      (use t mounted_linv(2) in simp_all)
  then have "t\<lparr>icache := (\<lambda>_. sample_inode)\<rparr> = t" by (simp add: mounted_fields)
  with r [of "\<lambda>_. sample_inode" 3] obtain u where "ilock 3 t = Ret () u" "dinode_of (icache u 3) = dinode_of sample_inode"
    by (auto simp: sample_inode_def no_inode_def kconsts mounted_fields)
  with t show ?thesis by (auto simp: dinode_of_def sample_inode_def)
qed

end
