(* ===== verification/Content.thy ===== *)
theory Content
  imports Inode
begin

unbundle bit_operations_syntax

text \<open>
  The contents of files: the block map \<^verbatim>\<open>bmap\<close> with direct and indirect blocks, \<^verbatim>\<open>readi\<close> and \<^verbatim>\<open>writei\<close>
  of \<^verbatim>\<open>kernel/fs.c\<close>, against the list of bytes that a file holds.
\<close>

section \<open>What a file is\<close>

text \<open>The address of block \<open>i\<close> of a file, zero when there is none, and the byte at offset \<open>o\<close>.\<close>

definition faddr :: "(nat \<Rightarrow> block) \<Rightarrow> inode \<Rightarrow> nat \<Rightarrow> nat" where
  "faddr v x i =
     (if i < NDIRECT then i_addrs x i
      else if i_addrs x NDIRECT = 0 then 0
      else rd32 (v (i_addrs x NDIRECT)) (4 * (i - NDIRECT)))"

definition fbyte :: "(nat \<Rightarrow> block) \<Rightarrow> inode \<Rightarrow> nat \<Rightarrow> byte" where
  "fbyte v x p = (let a = faddr v x (p div BSIZE) in if a = 0 then 0 else v a (p mod BSIZE))"

definition content :: "'x fstate_scheme \<Rightarrow> nat \<Rightarrow> byte list" where
  "content s ip = map (fbyte (view s) (icache s ip)) [0..<i_size (icache s ip)]"

definition data_blk :: "'x fstate_scheme \<Rightarrow> nat \<Rightarrow> bool" where
  "data_blk s a \<longleftrightarrow> data_start (sb s) \<le> a \<and> a < sb_size (sb s) \<and> allocated s a"

text \<open>
  A well-formed file: its blocks are data blocks in use, no block serves two purposes, and up to
  its size it has no holes.
\<close>

definition file_ok :: "'x fstate_scheme \<Rightarrow> inode \<Rightarrow> bool" where
  "file_ok s x \<longleftrightarrow>
     i_dev x = ROOTDEV \<and> i_inum x < sb_ninodes (sb s) \<and> i_size x \<le> MAXFILE * BSIZE \<and>
     (\<forall>i<MAXFILE. faddr (view s) x i \<noteq> 0 \<longrightarrow> data_blk s (faddr (view s) x i) \<and> faddr (view s) x i \<noteq> i_addrs x NDIRECT) \<and>
     (i_addrs x NDIRECT \<noteq> 0 \<longrightarrow> data_blk s (i_addrs x NDIRECT)) \<and>
     (\<forall>i<MAXFILE. \<forall>j<MAXFILE. faddr (view s) x i \<noteq> 0 \<and> faddr (view s) x i = faddr (view s) x j \<longrightarrow> i = j)"

definition dense :: "'x fstate_scheme \<Rightarrow> inode \<Rightarrow> bool" where
  "dense s x \<longleftrightarrow> (\<forall>i. i * BSIZE < i_size x \<longrightarrow> faddr (view s) x i \<noteq> 0)"

lemma file_okD:
  assumes "file_ok s x"
  shows "i_dev x = ROOTDEV" "i_inum x < sb_ninodes (sb s)" "i_size x \<le> MAXFILE * BSIZE"
    "i < MAXFILE \<Longrightarrow> faddr (view s) x i \<noteq> 0 \<Longrightarrow> data_blk s (faddr (view s) x i)"
    "i < MAXFILE \<Longrightarrow> faddr (view s) x i \<noteq> 0 \<Longrightarrow> faddr (view s) x i \<noteq> i_addrs x NDIRECT"
    "i_addrs x NDIRECT \<noteq> 0 \<Longrightarrow> data_blk s (i_addrs x NDIRECT)"
    "i < MAXFILE \<Longrightarrow> j < MAXFILE \<Longrightarrow> faddr (view s) x i \<noteq> 0 \<Longrightarrow> faddr (view s) x i = faddr (view s) x j \<Longrightarrow> i = j"
  using assms unfolding file_ok_def by blast+

lemma data_blkD:
  assumes "layout s" and "data_blk s a"
  shows "a < LOGICAL_DISK_SIZE" "a \<notin> log_area s" "a \<noteq> 0" "c < sb_size (sb s) \<Longrightarrow> BBLOCK c (sb s) \<noteq> a"
    "i < sb_ninodes (sb s) \<Longrightarrow> IBLOCK i (sb s) \<noteq> a" "allocated s a"
proof -
  have a: "data_start (sb s) \<le> a" "a < sb_size (sb s)" "allocated s a" using assms(2) by (simp_all add: data_blk_def)
  then show "a < LOGICAL_DISK_SIZE" "a \<notin> log_area s" "c < sb_size (sb s) \<Longrightarrow> BBLOCK c (sb s) \<noteq> a"
    "i < sb_ninodes (sb s) \<Longrightarrow> IBLOCK i (sb s) \<noteq> a" "allocated s a"
    using layout_data [OF assms(1)] by blast+
  show "a \<noteq> 0" using a(1) by (simp add: data_start_def)
qed

section \<open>Allocation and the other blocks\<close>

definition nfree :: "'x fstate_scheme \<Rightarrow> nat" where
  "nfree s = card {b. b < sb_size (sb s) \<and> \<not> allocated s b}"

text \<open>
  \<open>grow A n s t\<close>: up to \<open>n\<close> free blocks were taken; data blocks that were in use keep their contents,
  but for those in \<open>A\<close>, and the inode blocks do as well.
\<close>

definition grow :: "nat set \<Rightarrow> nat \<Rightarrow> 'x fstate_scheme \<Rightarrow> 'x fstate_scheme \<Rightarrow> bool" where
  "grow A n s t \<longleftrightarrow>
     tx s t \<and> meta_used t \<and> nfree s \<le> nfree t + n \<and>
     (\<forall>b < sb_size (sb s). allocated s b \<longrightarrow> allocated t b) \<and>
     (\<forall>a. data_blk s a \<and> a \<notin> A \<longrightarrow> view t a = view s a) \<and>
     (\<forall>j < sb_ninodes (sb s). view t (IBLOCK j (sb s)) = view s (IBLOCK j (sb s)))"

lemma grow_data_blk: "grow A n s t \<Longrightarrow> data_blk s a \<Longrightarrow> data_blk t a"
  by (auto simp: grow_def data_blk_def txD)

lemma grow_trans:
  assumes "grow A n s t" and "grow B m t u"
  shows "grow (A \<union> B) (n + m) s u"
proof -
  have "sb t = sb s" using assms(1) by (simp add: grow_def txD)
  moreover have "tx s u" using assms unfolding grow_def by (blast intro: tx_trans)
  moreover have "view u a = view s a" if "data_blk s a" "a \<notin> A \<union> B" for a
    using assms that grow_data_blk [OF assms(1) that(1)] by (simp add: grow_def)
  ultimately show ?thesis using assms by (auto simp: grow_def)
qed

lemma grow_refl: "linv s \<Longrightarrow> meta_used s \<Longrightarrow> grow A n s s"
  by (simp add: grow_def tx_refl)

lemma growD:
  assumes "grow A n s t"
  shows "tx s t" "linv t" "meta_used t" "sb t = sb s" "layout t = layout s" "lockd t = lockd s" "nfree s \<le> nfree t + n"
    "b < sb_size (sb s) \<Longrightarrow> allocated s b \<Longrightarrow> allocated t b"
    "data_blk s a \<Longrightarrow> a \<notin> A \<Longrightarrow> view t a = view s a"
    "j < sb_ninodes (sb s) \<Longrightarrow> view t (IBLOCK j (sb s)) = view s (IBLOCK j (sb s))"
  using assms layout_keep [OF txD(3), of s t] by (auto simp: grow_def txD)

text \<open>A file none of whose blocks is in \<open>A\<close> is not affected.\<close>

lemma grow_file:
  assumes g: "grow A n s t" and ok: "file_ok s x" and l: "layout s" and ind: "i_addrs x NDIRECT \<notin> A"
  shows "faddr (view t) x i = faddr (view s) x i" "file_ok t x"
    "(\<And>i. i < MAXFILE \<Longrightarrow> faddr (view s) x i \<notin> A) \<Longrightarrow> p < MAXFILE * BSIZE \<Longrightarrow> fbyte (view t) x p = fbyte (view s) x p"
proof -
  have v: "view t (i_addrs x NDIRECT) = view s (i_addrs x NDIRECT)" if "i_addrs x NDIRECT \<noteq> 0"
    using growD(9) [OF g file_okD(6) [OF ok that] ind] .
  then show f: "faddr (view t) x i = faddr (view s) x i" for i by (simp add: faddr_def)
  show "file_ok t x"
    using ok grow_data_blk [OF g] unfolding file_ok_def f growD(4) [OF g] by blast
  assume a: "\<And>i. i < MAXFILE \<Longrightarrow> faddr (view s) x i \<notin> A" and p: "p < MAXFILE * BSIZE"
  have "p div BSIZE < MAXFILE" using p by (simp add: less_mult_imp_div_less)
  then show "fbyte (view t) x p = fbyte (view s) x p"
    using growD(9) [OF g file_okD(4) [OF ok] a] by (auto simp: fbyte_def f Let_def)
qed

lemma alloc_icache [simp]:
  fixes s :: "'x fstate_scheme"
  shows "allocated (s\<lparr>icache := c\<rparr>) = allocated s" "meta_used (s\<lparr>icache := c\<rparr>) = meta_used s"
    "nfree (s\<lparr>icache := c\<rparr>) = nfree s" "data_blk (s\<lparr>icache := c\<rparr>) = data_blk s" "layout (s\<lparr>icache := c\<rparr>) = layout s"
    "file_ok (s\<lparr>icache := c\<rparr>) = file_ok s" "dense (s\<lparr>icache := c\<rparr>) = dense s"
    "spare (s\<lparr>icache := c\<rparr>) = spare s" "data_held (s\<lparr>icache := c\<rparr>) = data_held s"
proof -
  show a: "allocated (s\<lparr>icache := c\<rparr>) = allocated s" by (rule allocated_cong) simp_all
  show "meta_used (s\<lparr>icache := c\<rparr>) = meta_used s" "nfree (s\<lparr>icache := c\<rparr>) = nfree s" "data_held (s\<lparr>icache := c\<rparr>) = data_held s"
    by (simp_all add: meta_used_def nfree_def data_held_def a)
  show d: "data_blk (s\<lparr>icache := c\<rparr>) = data_blk s" by (simp add: data_blk_def a fun_eq_iff)
  show "layout (s\<lparr>icache := c\<rparr>) = layout s" by (simp add: layout_def)
  show "file_ok (s\<lparr>icache := c\<rparr>) = file_ok s" "dense (s\<lparr>icache := c\<rparr>) = dense s"
    by (simp_all add: file_ok_def dense_def d fun_eq_iff)
  show "spare (s\<lparr>icache := c\<rparr>) = spare s" by (simp add: spare_def fun_eq_iff)
qed

lemma grow_icache: "grow A n s t \<Longrightarrow> grow A n s (t\<lparr>icache := c\<rparr>)"
  unfolding grow_def using tx_icache [OF txD(1), of s t c] tx_trans by auto

lemma balloc_grow:
  fixes s :: "'x fstate_scheme"
  assumes inv: "linv s" "layout s" "meta_used s" "data_held s" "spare s 2" and nf: "1 \<le> nfree s"
  obtains a t where "balloc ROOTDEV s = Ret a t" and "grow {} 1 s t" and "icache t = icache s" and "data_blk t a"
    and "\<not> allocated s a" and "\<And>i. i < BSIZE \<Longrightarrow> view t a i = 0" and "a \<noteq> 0" and "lh_n (log t) \<le> lh_n (log s) + 2"
proof -
  have "{b. b < sb_size (sb s) \<and> \<not> allocated s b} \<noteq> {}" using nf unfolding nfree_def by (metis card.empty not_one_le_zero)
  then have ex: "\<exists>x < sb_size (sb s). \<not> allocated s x" by blast
  obtain a t where t: "balloc ROOTDEV s = Ret a t" "first_free s a" "data_start (sb s) \<le> a" "tx s t"
    "view t = take_block (sb s) a (view s)" "icache t = icache s" "lh_n (log t) \<le> lh_n (log s) + 2"
    by (rule balloc_ret [OF inv ex]) (rule that; assumption)
  have a: "a < sb_size (sb s)" "\<not> allocated s a" using t(2) by (simp_all add: first_free_def)
  note sb = txD(6) [OF t(4)]
  have al: "allocated t y \<longleftrightarrow> y = a \<or> allocated s y" if "y < sb_size (sb s)" for y
    by (rule allocated_take [OF inv(2) t(3) a(1) that t(5) sb])
  have d: "data_blk t a" using t(3) a(1) al sb by (simp add: data_blk_def)
  have ne: "BBLOCK a (sb s) \<noteq> a" by (rule layout_data(3) [OF inv(2) t(3) a(1) a(1)])
  have "{b. b < sb_size (sb s) \<and> \<not> allocated s b} = insert a {b. b < sb_size (sb t) \<and> \<not> allocated t b}"
    using al a sb by auto
  moreover have "finite {b. b < sb_size (sb t) \<and> \<not> allocated t b}" by simp
  ultimately have "nfree s \<le> nfree t + 1" unfolding nfree_def by (simp add: card_insert_if)
  moreover have "allocated t b" if "b < data_start (sb t)" for b
    using inv(2,3) al [of b] that sb by (simp add: meta_used_def layout_def)
  then have "meta_used t" by (simp add: meta_used_def)
  moreover have "view t y = view s y" if "data_blk s y" for y
  proof -
    have "y \<noteq> a" "y \<noteq> BBLOCK a (sb s)" using that a data_blkD(4) [OF inv(2) that a(1)] by (auto simp: data_blk_def)
    then show ?thesis using t(5) by (simp add: take_block_def)
  qed
  moreover have "view t (IBLOCK j (sb s)) = view s (IBLOCK j (sb s))" if "j < sb_ninodes (sb s)" for j
    using IBLOCK_layout(3) [OF inv(2) that] IBLOCK_layout(4) [OF inv(2) that a(1)] t(3,5) by (auto simp: take_block_def)
  ultimately have g: "grow {} 1 s t" using t(4) al by (simp add: grow_def)
  have z: "view t a i = 0" if "i < BSIZE" for i using t(5) ne that by (simp add: take_block_def zeroed_def)
  show ?thesis
    by (rule that [OF t(1) g t(6) d a(2) z _ t(7)]) (use t(3) in \<open>auto simp: data_start_def\<close>)
qed

text \<open>Entering a new block into the map keeps a file well formed.\<close>

lemma attach_ok:
  assumes ok: "file_ok s x" and a: "data_blk t a" "a \<noteq> i_addrs x NDIRECT" "\<And>j. j < MAXFILE \<Longrightarrow> faddr (view s) x j \<noteq> a" "a \<noteq> 0"
    and f: "i_dev y = i_dev x" "i_inum y = i_inum x" "i_size y = i_size x" "i_addrs y NDIRECT = i_addrs x NDIRECT"
    and m: "\<And>j. j < MAXFILE \<Longrightarrow> faddr (view t) y j = (if j = i then a else faddr (view s) x j)"
    and t: "\<And>b. data_blk s b \<Longrightarrow> data_blk t b" "sb t = sb s"
  shows "file_ok t y"
proof -
  have "\<forall>j<MAXFILE. faddr (view t) y j \<noteq> 0 \<longrightarrow> data_blk t (faddr (view t) y j) \<and> faddr (view t) y j \<noteq> i_addrs y NDIRECT"
    using file_okD(4,5) [OF ok] a(1,2) t(1) m f(4) by auto
  moreover have "\<forall>j<MAXFILE. \<forall>k<MAXFILE. faddr (view t) y j \<noteq> 0 \<and> faddr (view t) y j = faddr (view t) y k \<longrightarrow> j = k"
  proof (intro allI impI, elim conjE)
    fix j k assume jk: "j < MAXFILE" "k < MAXFILE" "faddr (view t) y j \<noteq> 0" "faddr (view t) y j = faddr (view t) y k"
    then show "j = k" using m [OF jk(1)] m [OF jk(2)] a(3) [OF jk(1)] a(3) [OF jk(2)] file_okD(7) [OF ok jk(1,2)]
      by (auto split: if_splits)
  qed
  moreover have "i_addrs y NDIRECT \<noteq> 0 \<longrightarrow> data_blk t (i_addrs y NDIRECT)" using file_okD(6) [OF ok] t(1) f(4) by auto
  ultimately show ?thesis using file_okD(1-3) [OF ok] f t(2) unfolding file_ok_def by simp
qed

lemma attach_fbyte:
  assumes "\<And>j. j < MAXFILE \<Longrightarrow> faddr w y j = (if j = i then a else faddr v x j)" and "faddr v x i = 0"
    and "\<And>k. k < BSIZE \<Longrightarrow> w a k = 0" and "\<And>j. j < MAXFILE \<Longrightarrow> faddr v x j \<noteq> 0 \<Longrightarrow> w (faddr v x j) = v (faddr v x j)"
    and "p < MAXFILE * BSIZE"
  shows "fbyte w y p = fbyte v x p"
proof -
  have "p div BSIZE < MAXFILE" "p mod BSIZE < BSIZE" using assms(5) by (simp_all add: less_mult_imp_div_less BSIZE_def)
  with assms(1-4) show ?thesis by (auto simp: fbyte_def Let_def)
qed

section \<open>\<^verbatim>\<open>bmap\<close>\<close>

text \<open>The blocks a file occupies, and zero if some are missing.\<close>

definition fblocks :: "(nat \<Rightarrow> block) \<Rightarrow> inode \<Rightarrow> nat set" where
  "fblocks v x = insert (i_addrs x NDIRECT) (faddr v x ` {..<MAXFILE})"

text \<open>What a call of \<^verbatim>\<open>bmap\<close> for block \<open>i\<close> achieves; \<open>n\<close> blocks are taken at most and the log grows by \<open>k\<close>.\<close>

definition addrs_only :: "inode \<Rightarrow> inode \<Rightarrow> bool" where
  "addrs_only x y \<longleftrightarrow> (\<exists>f. y = x\<lparr>i_addrs := f\<rparr>)"

lemma addrs_only_refl [simp]: "addrs_only x x" "addrs_only x (x\<lparr>i_addrs := f\<rparr>)"
  by (cases x, auto simp: addrs_only_def)

lemma addrs_only_trans: "addrs_only x y \<Longrightarrow> addrs_only y z \<Longrightarrow> addrs_only x z"
  by (auto simp: addrs_only_def)

lemma addrs_onlyD:
  assumes "addrs_only x y"
  shows "i_dev y = i_dev x" "i_inum y = i_inum x" "i_ref y = i_ref x" "i_lock y = i_lock x" "i_valid y = i_valid x"
    "i_type y = i_type x" "i_major y = i_major x" "i_mode y = i_mode x" "i_nlink y = i_nlink x" "i_size y = i_size x"
  using assms by (auto simp: addrs_only_def)

definition bmapped :: "nat \<Rightarrow> nat \<Rightarrow> 'x fstate_scheme \<Rightarrow> nat \<Rightarrow> nat \<Rightarrow> 'x fstate_scheme \<Rightarrow> bool" where
  "bmapped ip i s a n t \<longleftrightarrow>
     (let x = icache s ip; y = icache t ip in
      grow {i_addrs x NDIRECT} n s t \<and> (\<forall>j. j \<noteq> ip \<longrightarrow> icache t j = icache s j) \<and> addrs_only x y \<and>
      file_ok t y \<and> faddr (view t) y i = a \<and> a \<noteq> 0 \<and>
      (\<forall>j<MAXFILE. j \<noteq> i \<longrightarrow> faddr (view t) y j = faddr (view s) x j) \<and>
      (\<forall>p<MAXFILE * BSIZE. fbyte (view t) y p = fbyte (view s) x p) \<and>
      (\<forall>b. b \<in> fblocks (view t) y \<and> data_blk s b \<longrightarrow> b \<in> fblocks (view s) x))"

lemma fblocks_attach:
  assumes "\<And>j. j < MAXFILE \<Longrightarrow> faddr w y j = (if j = i then a else faddr v x j)" and "i_addrs y NDIRECT = i_addrs x NDIRECT"
  shows "fblocks w y \<subseteq> insert a (fblocks v x)"
  using assms by (auto simp: fblocks_def)

lemma bmapped_refl:
  assumes "linv s" "meta_used s" "file_ok s (icache s ip)" "faddr (view s) (icache s ip) i \<noteq> 0"
  shows "bmapped ip i s (faddr (view s) (icache s ip) i) n s"
  using assms by (simp add: bmapped_def grow_refl)

lemma grow_mono: "grow A n s t \<Longrightarrow> A \<subseteq> B \<Longrightarrow> n \<le> m \<Longrightarrow> grow B m s t"
  unfolding grow_def by auto

lemma bmap_direct:
  fixes s :: "'x fstate_scheme"
  assumes inv: "linv s" "layout s" "meta_used s" "lockd s = {}" "spare s 2" "1 \<le> nfree s"
    and ok: "file_ok s (icache s ip)" and i: "i < NDIRECT"
  obtains a t where "bmap ip i s = Ret a t" and "bmapped ip i s a 1 t" and "lh_n (log t) \<le> lh_n (log s) + 2"
proof (cases "i_addrs (icache s ip) i = 0")
  case False
  let ?x = "icache s ip"
  have f: "faddr (view s) ?x i = i_addrs ?x i" using i by (simp add: faddr_def)
  have "bmap ip i s = Ret (i_addrs ?x i) s" using i False by (simp add: bmap_def)
  moreover have "bmapped ip i s (i_addrs ?x i) 1 s" using bmapped_refl [OF inv(1,3) ok, of i 1] f False by simp
  ultimately show ?thesis using that by simp
next
  case True
  let ?x = "icache s ip"
  have dh: "data_held s" by (simp add: data_held_def inv(4))
  obtain a t where t: "balloc ROOTDEV s = Ret a t" "grow {} 1 s t" "icache t = icache s" "data_blk t a"
    "\<not> allocated s a" "\<And>i. i < BSIZE \<Longrightarrow> view t a i = 0" "a \<noteq> 0" "lh_n (log t) \<le> lh_n (log s) + 2"
    by (rule balloc_grow [OF inv(1-3) dh inv(5,6)]) (rule that; assumption)
  let ?y = "?x\<lparr>i_addrs := (i_addrs ?x)(i := a)\<rparr>" and ?t = "t\<lparr>icache := (icache t)(ip := (icache t ip)\<lparr>i_addrs := (i_addrs (icache t ip))(i := a)\<rparr>)\<rparr>"
  have im: "i < MAXFILE" "i \<noteq> NDIRECT" using i by (simp_all add: kconsts)
  have f0: "faddr (view s) ?x i = 0" using True i by (simp add: faddr_def)
  have m: "faddr (view t) ?y j = (if j = i then a else faddr (view s) ?x j)" for j
    using grow_file(1) [OF t(2) ok inv(2), of j] i by (auto simp: faddr_def)
  have ne: "faddr (view s) ?x j \<noteq> a" if "j < MAXFILE" for j
    using file_okD(4) [OF ok that] t(5,7) by (auto simp: data_blk_def)
  have na: "a \<noteq> i_addrs ?x NDIRECT" using file_okD(6) [OF ok] t(5,7) by (auto simp: data_blk_def)
  have fo: "file_ok t ?y"
    by (rule attach_ok [OF ok t(4) na ne t(7) _ _ _ _ m])
      (use grow_data_blk [OF t(2)] growD(4) [OF t(2)] im in \<open>simp_all\<close>)
  have fb: "fbyte (view t) ?y p = fbyte (view s) ?x p" if "p < MAXFILE * BSIZE" for p
    by (rule attach_fbyte [OF m f0 t(6) _ that]) (use growD(9) [OF t(2) file_okD(4) [OF ok]] in auto)
  have fs: "\<forall>b. b \<in> fblocks (view t) ?y \<and> data_blk s b \<longrightarrow> b \<in> fblocks (view s) ?x"
    using fblocks_attach [of "view t" ?y i a "view s" ?x] m im t(5) by (auto simp: data_blk_def)
  have "bmap ip i s = Ret a ?t"
    using i True t(1,3,7) file_okD(1) [OF ok] by (simp add: bmap_def)
  moreover have "bmapped ip i s a 1 ?t"
    using fs grow_icache [OF grow_mono [OF t(2), of "{i_addrs ?x NDIRECT}" 1]] fo fb m f0 t(3,7) im
    by (simp add: bmapped_def Let_def)
  ultimately show ?thesis using t(8) by (intro that [of a ?t]) simp_all
qed

text \<open>The first half of the indirect case: the indirect block is there.\<close>

lemma ensure_indirect:
  fixes s :: "'x fstate_scheme"
  assumes inv: "linv s" "layout s" "meta_used s" "lockd s = {}" "spare s 2" "1 \<le> nfree s"
    and ok: "file_ok s (icache s ip)" and new: "i_addrs (icache s ip) NDIRECT = 0"
  obtains a t where "balloc ROOTDEV s = Ret a t" and "icache t = icache s" and "a \<noteq> 0" and "\<not> allocated s a" and "grow {} 1 s t"
    and "lh_n (log t) \<le> lh_n (log s) + 2" and "file_ok t ((icache s ip)\<lparr>i_addrs := (i_addrs (icache s ip))(NDIRECT := a)\<rparr>)"
    and "\<And>j. j < MAXFILE \<Longrightarrow> faddr (view t) ((icache s ip)\<lparr>i_addrs := (i_addrs (icache s ip))(NDIRECT := a)\<rparr>) j = faddr (view s) (icache s ip) j"
proof -
  let ?x = "icache s ip"
  have dh: "data_held s" by (simp add: data_held_def inv(4))
  obtain a t where t: "balloc ROOTDEV s = Ret a t" "grow {} 1 s t" "icache t = icache s" "data_blk t a"
    "\<not> allocated s a" "\<And>i. i < BSIZE \<Longrightarrow> view t a i = 0" "a \<noteq> 0" "lh_n (log t) \<le> lh_n (log s) + 2"
    by (rule balloc_grow [OF inv(1-3) dh inv(5,6)]) (rule that; assumption)
  let ?y = "?x\<lparr>i_addrs := (i_addrs ?x)(NDIRECT := a)\<rparr>"
  have z: "rd32 (view t a) (4 * k) = 0" if "k < NINDIRECT" for k
    using that t(6) by (simp add: rd32_def rd16_def kconsts)
  have m: "faddr (view t) ?y j = faddr (view s) ?x j" if "j < MAXFILE" for j
  proof (cases "j < NDIRECT")
    case False
    then have "faddr (view t) ?y j = rd32 (view t a) (4 * (j - NDIRECT))" using t(7) by (simp add: faddr_def)
    also have "\<dots> = 0" using that False by (intro z) (simp add: MAXFILE_def less_diff_conv2)
    finally show ?thesis using False new by (simp add: faddr_def)
  qed (simp add: faddr_def)
  have ne: "faddr (view s) ?x j \<noteq> a" if "j < MAXFILE" for j
    using file_okD(4) [OF ok that] t(5,7) by (auto simp: data_blk_def)
  have "file_ok t ?y"
    using ok grow_data_blk [OF t(2)] ne m t(4,7) growD(4) [OF t(2)] unfolding file_ok_def by auto
  with t m show ?thesis by (intro that [of a t])
qed

lemma tx_quiet:
  assumes "lockd s = {}" and "linv u" and "lockd u = {}" and "fkeep s u" and "set (logged s) \<subseteq> set (logged u)"
  shows "tx s u"
proof -
  have "\<not> holds s b bn" for b bn using holds_lockd [of s b bn] assms(1) by blast
  with assms show ?thesis by (simp add: tx_def)
qed

lemma allocated_agree:
  assumes "\<And>b. b < sb_size (sb s) \<Longrightarrow> view u (BBLOCK b (sb s)) = view t (BBLOCK b (sb s))" and "sb u = sb s" and "sb t = sb s"
    and "b < sb_size (sb s)"
  shows "allocated u b = allocated t b"
  using assms by (simp add: allocated_def)

text \<open>
  Storing a data block's contents afterwards does not disturb the allocation. The allocation may
  have been made from a state \<open>r\<close> that differs from \<open>s\<close> in the buffers that are held.
\<close>

lemma grow_store:
  assumes g: "grow A n r t" and r: "view r = view s" "sb r = sb s" "layout r" and a: "data_blk t a"
    and u: "tx s u" "view u = (view t)(a := d)"
  shows "grow (insert a A) n s u"
proof -
  have sb: "sb u = sb s" "sb t = sb s" using u(1) growD(4) [OF g] r(2) by (simp_all add: txD)
  have lt: "layout t" using r(3) growD(5) [OF g] by simp
  have al: "allocated u b = allocated t b" if "b < sb_size (sb s)" for b
    by (rule allocated_agree [OF _ sb that]) (use data_blkD(4) [OF lt a] u(2) sb(2) in auto)
  have ar: "allocated r = allocated s" using r(1,2) by (rule allocated_cong)
  have "{b. b < sb_size (sb u) \<and> \<not> allocated u b} = {b. b < sb_size (sb t) \<and> \<not> allocated t b}"
    using al sb by auto
  then have nf: "nfree u = nfree t" "nfree r = nfree s" by (simp_all add: nfree_def ar r(2))
  have "data_start (sb s) \<le> sb_size (sb s)" using r by (simp add: layout_def)
  then have mu: "meta_used u" using growD(3) [OF g] al sb by (auto simp: meta_used_def)
  have db: "data_blk r = data_blk s" by (simp add: data_blk_def ar r(2) fun_eq_iff)
  have "view u (IBLOCK j (sb s)) = view t (IBLOCK j (sb s))" if "j < sb_ninodes (sb s)" for j
    using data_blkD(5) [OF lt a, of j] that sb u(2) by auto
  with g nf mu al u r ar db show ?thesis by (auto simp: grow_def)
qed

text \<open>The second half: a new block is entered into the indirect block \<open>ind\<close>, whose buffer is held meanwhile.\<close>

lemma enter_indirect:
  fixes s :: "'x fstate_scheme"
  assumes inv: "linv s" "layout s" "meta_used s" "lockd s = {}" "spare s 4" "1 \<le> nfree s"
    and ind: "data_blk s ind" and k: "k < NINDIRECT"
  obtains bp t a t2 v w u where "bread ROOTDEV ind s = Ret bp t" and "b_data (bcache t bp) = view s ind" and "icache t = icache s"
    and "balloc ROOTDEV t = Ret a t2" and "a \<noteq> 0" and "upd_data bp (wr32 (4 * k) a) t2 = Ret () v"
    and "log_write bp v = Ret () w" and "brelse bp w = Ret () u" and "icache u = icache s"
    and "grow {ind} 1 s u" and "lh_n (log u) \<le> lh_n (log s) + 3" and "data_blk u a" and "\<not> allocated s a"
    and "\<And>i. i < BSIZE \<Longrightarrow> view u a i = 0" and "view u ind = wr32 (4 * k) a (view s ind)"
proof -
  note di = data_blkD [OF inv(2) ind]
  have sp0: "spare s 0" and nl: "ind \<notin> lockd s" using inv(4,5) by (simp_all add: spare_def)
  obtain bp t where t: "bread ROOTDEV ind s = Ret bp t" "linv t" "holds t bp ind"
    "b_data (bcache t bp) = view s ind" "view t = view s" "lockd t = insert ind (lockd s)"
    "fkeep s t" "icache t = icache s" "log t = log s"
    by (rule tx_open [OF inv(1) di(1) nl sp0]) (rule that; assumption)
  have al: "allocated t = allocated s" using t(5) fkeepD(4) [OF t(7)] by (rule allocated_cong)
  have st: "layout t" "meta_used t" "nfree t = nfree s" "data_blk t = data_blk s" "data_held t"
    using inv(2,3,4) layout_keep [OF t(7)] al fkeepD(4) [OF t(7)] ind t(6)
    by (simp_all add: meta_used_def nfree_def data_blk_def data_held_def fun_eq_iff)
  have sp2: "spare t 2" using inv(4,5) t(6,9) by (simp add: spare_def)
  have nf: "1 \<le> nfree t" using st(3) inv(6) by simp
  obtain a t2 where t2: "balloc ROOTDEV t = Ret a t2" "grow {} 1 t t2" "icache t2 = icache t" "data_blk t2 a"
    "\<not> allocated t a" "\<And>i. i < BSIZE \<Longrightarrow> view t2 a i = 0" "a \<noteq> 0" "lh_n (log t2) \<le> lh_n (log t) + 2"
    by (rule balloc_grow [OF t(2) st(1,2,5) sp2 nf]) (rule that; assumption)
  have ne: "a \<noteq> ind" using t2(5) ind al by (auto simp: data_blk_def)
  have v2: "view t2 ind = view s ind" using growD(9) [OF t2(2), of ind] ind st(4) t(5) by simp
  have h2: "holds t2 bp ind" using txD(5) [OF growD(1) [OF t2(2)] t(3)] .
  obtain v where v: "upd_data bp (wr32 (4 * k) a) t2 = Ret () v" "linv v" "view v = (view t2)(ind := wr32 (4 * k) a (view t2 ind))"
    "lockd v = lockd t2" "fkeep t2 v" "icache v = icache t2" "log v = log t2" "\<And>b' bn'. holds t2 b' bn' \<Longrightarrow> holds v b' bn'"
    by (rule tx_upd [OF growD(2) [OF t2(2)] h2, where f = "wr32 (4 * k) a"]) (rule that; assumption)
  have k2: "fkeep s t2" using fkeep_trans [OF t(7) txD(3) [OF growD(1) [OF t2(2)]]] .
  have kv: "fkeep s v" using fkeep_trans [OF k2 v(5)] .
  have lk: "lockd v = {ind}" using v(4) growD(6) [OF t2(2)] t(6) inv(4) by simp
  have "lh_n (log v) \<le> lh_n (log s) + 2" using v(7) t2(8) t(9) by simp
  then have spv: "spare v 0" using inv(4,5) fkeepD [OF kv] lk by (simp add: spare_def)
  have av: "ind \<notin> log_area v" using di(2) fkeepD(10) [OF kv] by simp
  obtain w where w: "log_write bp v = Ret () w" "linv w" "logged w = absorbed ind (logged v)"
    "view w = view v" "lockd w = lockd v" "fkeep v w" "icache w = icache v"
    "lh_n (log w) \<le> lh_n (log v) + 1" "\<And>b' bn'. holds v b' bn' \<Longrightarrow> holds w b' bn'"
    by (rule tx_log_write [OF v(2) v(8) [OF h2] av spv]) (rule that; assumption)
  have "settled w ind" using w(3) by (simp add: settled_def absorbed_def)
  then obtain u where u: "brelse bp w = Ret () u" "linv u" "view u = view w" "lockd u = lockd w - {ind}"
    "fkeep w u" "icache u = icache w" "log u = log w"
    by (rule tx_close [OF w(2) w(9) [OF v(8) [OF h2]]]) (rule that; assumption)
  have lg: "set (logged s) \<subseteq> set (logged u)"
    using w(3) txD(4) [OF growD(1) [OF t2(2)]] by (auto simp: logged_def u(7) v(7) t(9) absorbed_def)
  have tu: "tx s u"
    by (rule tx_quiet [OF inv(4) u(2) _ _ lg]) (use u(4) w(5) lk fkeep_trans [OF kv fkeep_trans [OF w(6) u(5)]] in auto)
  have vu: "view u = (view t2)(ind := wr32 (4 * k) a (view t2 ind))" using u(3) w(4) v(3) by simp
  have d2: "data_blk t2 ind" using grow_data_blk [OF t2(2)] ind st(4) by simp
  have g: "grow {ind} 1 s u"
    by (rule grow_store [OF t2(2) t(5) fkeepD(4) [OF t(7)] st(1) d2 tu vu])
  have lt2: "layout t2" using growD(5) [OF t2(2)] st(1) by simp
  have sbu: "sb u = sb t2" using txD(6) [OF tu] fkeepD(4) [OF k2] by simp
  have "data_blk u a"
    using t2(4) data_blkD(4) [OF lt2 d2] vu sbu by (auto simp: data_blk_def allocated_def)
  moreover have "lh_n (log u) \<le> lh_n (log s) + 3" using u(7) w(8) v(7) t2(8) t(9) by simp
  moreover have "\<not> allocated s a" using t2(5) al by simp
  moreover have "view u a i = 0" if "i < BSIZE" for i using vu ne t2(6) that by simp
  moreover have "view u ind = wr32 (4 * k) a (view s ind)" using vu v2 by simp
  moreover have "icache u = icache s" using u(6) w(7) v(6) t2(3) t(8) by simp
  ultimately show ?thesis
    by (intro that [OF t(1,4,8) t2(1,7) v(1) w(1) u(1) _ g])
qed

lemma grow_same:
  assumes "tx s u" and "view u = view s" and "meta_used s"
  shows "grow A n s u"
proof -
  have "allocated u = allocated s" using assms(2) txD(6) [OF assms(1)] by (rule allocated_cong)
  with assms txD(6) [OF assms(1)] show ?thesis by (auto simp: grow_def meta_used_def nfree_def)
qed

lemma grow_trans_fresh:
  assumes g: "grow A n s t" "grow B m t u" and f: "\<And>b. b \<in> B \<Longrightarrow> \<not> allocated s b"
  shows "grow A (n + m) s u"
proof -
  note gu = grow_trans [OF g]
  have "view u a = view s a" if "data_blk s a" "a \<notin> A" for a
    using growD(9) [OF gu that(1)] that f by (auto simp: data_blk_def)
  with gu show ?thesis by (auto simp: grow_def)
qed

lemma bmap_entered:
  assumes ok: "file_ok s x" and x: "x = icache s ip" and ind: "i_addrs x NDIRECT \<noteq> 0" and k: "i = NDIRECT + k" "k < NINDIRECT"
    and new: "faddr (view s) x i = 0" and l: "layout s"
    and u: "icache u = icache s" "grow {i_addrs x NDIRECT} 1 s u" "data_blk u a" "\<not> allocated s a" "a \<noteq> 0"
    "\<And>i. i < BSIZE \<Longrightarrow> view u a i = 0" "view u (i_addrs x NDIRECT) = wr32 (4 * k) a (view s (i_addrs x NDIRECT))"
  shows "bmapped ip i s a 1 u"
proof -
  let ?d = "view s (i_addrs x NDIRECT)"
  have lt: "a < 2 ^ 32"
    using u(3) l growD(4,5) [OF u(2)] by (simp add: data_blk_def layout_def kconsts)
  have m: "faddr (view u) x j = (if j = i then a else faddr (view s) x j)" if "j < MAXFILE" for j
  proof (cases "j < NDIRECT")
    case False
    then have "faddr (view u) x j = uint_array.elem (wr32 (4 * k) a ?d) (j - NDIRECT)"
      using ind u(7) by (simp add: faddr_def uint_array.elem_def)
    also have "\<dots> = (if j - NDIRECT = k then a else uint_array.elem ?d (j - NDIRECT))"
      by (rule uint_array.elem_upd [OF lt])
    finally show ?thesis using False ind k by (auto simp: faddr_def uint_array.elem_def)
  qed (simp add: faddr_def k)
  have ne: "faddr (view s) x j \<noteq> a" if "j < MAXFILE" for j
    using file_okD(4) [OF ok that] u(4,5) by (auto simp: data_blk_def)
  have na: "a \<noteq> i_addrs x NDIRECT" using file_okD(6) [OF ok ind] u(4) by (auto simp: data_blk_def)
  have "file_ok u x"
    by (rule attach_ok [OF ok u(3) na ne u(5) refl refl refl refl m])
      (use grow_data_blk [OF u(2)] growD(4) [OF u(2)] in auto)
  moreover have "fbyte (view u) x p = fbyte (view s) x p" if "p < MAXFILE * BSIZE" for p
    by (rule attach_fbyte [OF m new u(6) _ that])
      (use growD(9) [OF u(2) file_okD(4) [OF ok]] file_okD(5) [OF ok] in auto)
  moreover have "\<forall>b. b \<in> fblocks (view u) x \<and> data_blk s b \<longrightarrow> b \<in> fblocks (view s) x"
    using fblocks_attach [of "view u" x i a "view s" x] m u(4) by (auto simp: data_blk_def)
  moreover have "i < MAXFILE" using k by (simp add: MAXFILE_def)
  ultimately show ?thesis using u(1,2,5) m x ind by (simp add: bmapped_def Let_def)
qed

lemma bmap_indirect_old:
  fixes s :: "'x fstate_scheme"
  assumes inv: "linv s" "layout s" "meta_used s" "lockd s = {}" "spare s 4" "1 \<le> nfree s"
    and ok: "file_ok s (icache s ip)" and i: "i = NDIRECT + k" "k < NINDIRECT" and ind: "i_addrs (icache s ip) NDIRECT \<noteq> 0"
  obtains a t where "bmap ip i s = Ret a t" and "bmapped ip i s a 1 t" and "lh_n (log t) \<le> lh_n (log s) + 3"
proof -
  let ?x = "icache s ip" and ?ind = "i_addrs (icache s ip) NDIRECT"
  note db = file_okD(6) [OF ok ind]
  note di = data_blkD [OF inv(2) db] and dev = file_okD(1) [OF ok]
  have fe: "faddr (view s) ?x i = rd32 (view s ?ind) (4 * k)" using ind i by (simp add: faddr_def)
  have sp0: "spare s 0" and nl: "?ind \<notin> lockd s" using inv(4,5) by (simp_all add: spare_def)
  show ?thesis
  proof (cases "faddr (view s) ?x i = 0")
    case False
    obtain bp t u where t: "bread ROOTDEV ?ind s = Ret bp t" "b_data (bcache t bp) = view s ?ind" "icache t = icache s"
      "brelse bp t = Ret () u" "tx s u" "view u = view s" "icache u = icache s" "log u = log s"
      by (rule tx_read [OF inv(1) di(1) nl sp0]) (rule that; assumption)
    have "bmap ip i s = Ret (faddr (view s) ?x i) u" using i ind t(1-4) dev fe False by (simp add: bmap_def)
    moreover have g: "grow {?ind} 1 s u" using t(5,6) inv(3) by (rule grow_same)
    have "file_ok u ?x" using ok grow_data_blk [OF g] growD(4) [OF g] t(6) unfolding file_ok_def by auto
    then have "bmapped ip i s (faddr (view s) ?x i) 1 u" using g t(6,7) False by (simp add: bmapped_def)
    ultimately show ?thesis using t(8) that by simp
  next
    case True
    obtain bp t a t2 v w u where e: "bread ROOTDEV ?ind s = Ret bp t" "b_data (bcache t bp) = view s ?ind" "icache t = icache s"
      "balloc ROOTDEV t = Ret a t2" "a \<noteq> 0" "upd_data bp (wr32 (4 * k) a) t2 = Ret () v"
      "log_write bp v = Ret () w" "brelse bp w = Ret () u" "icache u = icache s"
      "grow {?ind} 1 s u" "lh_n (log u) \<le> lh_n (log s) + 3" "data_blk u a" "\<not> allocated s a"
      "\<And>i. i < BSIZE \<Longrightarrow> view u a i = 0" "view u ?ind = wr32 (4 * k) a (view s ?ind)"
      by (rule enter_indirect [OF inv db i(2)]) (rule that; assumption)
    have "bmap ip i s = Ret a u" using i ind e(1-8) dev fe True by (simp add: bmap_def)
    moreover have "bmapped ip i s a 1 u"
      by (rule bmap_entered [OF ok refl ind i True inv(2) e(9,10,12,13,5,14,15)])
    ultimately show ?thesis using e(11) that by blast
  qed
qed

lemma bmap_indirect_new:
  fixes s :: "'x fstate_scheme"
  assumes inv: "linv s" "layout s" "meta_used s" "lockd s = {}" "spare s 6" "2 \<le> nfree s"
    and ok: "file_ok s (icache s ip)" and i: "i = NDIRECT + k" "k < NINDIRECT" and ind: "i_addrs (icache s ip) NDIRECT = 0"
  obtains a t where "bmap ip i s = Ret a t" and "bmapped ip i s a 2 t" and "lh_n (log t) \<le> lh_n (log s) + 5"
proof -
  let ?x = "icache s ip"
  have sp2: "spare s 2" using inv(5) by (rule spare_mono) simp
  have nf1: "1 \<le> nfree s" using inv(6) by simp
  obtain n t where t: "balloc ROOTDEV s = Ret n t" "icache t = icache s" "n \<noteq> 0" "\<not> allocated s n" "grow {} 1 s t"
    "lh_n (log t) \<le> lh_n (log s) + 2" "file_ok t (?x\<lparr>i_addrs := (i_addrs ?x)(NDIRECT := n)\<rparr>)"
    "\<And>j. j < MAXFILE \<Longrightarrow> faddr (view t) (?x\<lparr>i_addrs := (i_addrs ?x)(NDIRECT := n)\<rparr>) j = faddr (view s) ?x j"
    by (rule ensure_indirect [OF inv(1-4) sp2 nf1 ok ind]) (rule that; assumption)
  let ?y = "?x\<lparr>i_addrs := (i_addrs ?x)(NDIRECT := n)\<rparr>"
  let ?t = "t\<lparr>icache := (icache t)(ip := (icache t ip)\<lparr>i_addrs := (i_addrs (icache t ip))(NDIRECT := n)\<rparr>)\<rparr>"
  have y: "icache ?t ip = ?y" using t(2) by simp
  have g1: "grow {} 1 s ?t" using t(5) by (rule grow_icache)
  have st: "linv ?t" "layout ?t" "meta_used ?t" "lockd ?t = {}" using growD [OF g1] inv by simp_all
  have sp4: "spare ?t 4" by (rule tx_spare [OF inv(5) growD(1) [OF g1], where j = 2]) (use t(6) in simp_all)
  have nf: "1 \<le> nfree ?t" using growD(7) [OF g1] inv(6) by linarith
  have fo: "file_ok ?t (icache ?t ip)" "i_addrs (icache ?t ip) NDIRECT \<noteq> 0" unfolding y using t(3,7) by simp_all
  obtain a u where u: "bmap ip i ?t = Ret a u" "bmapped ip i ?t a 1 u" "lh_n (log u) \<le> lh_n (log ?t) + 3"
    by (rule bmap_indirect_old [OF st sp4 nf fo(1) i fo(2)]) (rule that; assumption)
  have "bmap ip i s = bmap ip i ?t" using i ind t(1-3) file_okD(1) [OF ok] by (simp add: bmap_def)
  moreover have "bmapped ip i s a 2 u"
  proof -
    have b: "grow {n} 1 ?t u" "\<forall>j. j \<noteq> ip \<longrightarrow> icache u j = icache ?t j" "addrs_only ?y (icache u ip)"
      "file_ok u (icache u ip)" "faddr (view u) (icache u ip) i = a" "a \<noteq> 0"
      "\<forall>j<MAXFILE. j \<noteq> i \<longrightarrow> faddr (view u) (icache u ip) j = faddr (view t) ?y j"
      "\<forall>p<MAXFILE * BSIZE. fbyte (view u) (icache u ip) p = fbyte (view t) ?y p"
      "\<forall>b. b \<in> fblocks (view u) (icache u ip) \<and> data_blk t b \<longrightarrow> b \<in> fblocks (view t) ?y"
      using u(2) unfolding bmapped_def Let_def y by simp_all
    have "grow {} (1 + 1) s u" by (rule grow_trans_fresh [OF g1 b(1)]) (use t(4) in simp)
    then have "grow {i_addrs ?x NDIRECT} 2 s u" by (rule grow_mono) simp_all
    moreover have "fbyte (view t) ?y p = fbyte (view s) ?x p" if "p < MAXFILE * BSIZE" for p
      using t(8) [of "p div BSIZE"] that growD(9) [OF t(5) file_okD(4) [OF ok]]
      by (auto simp: fbyte_def Let_def less_mult_imp_div_less)
    moreover have "b \<in> fblocks (view s) ?x" if "b \<in> fblocks (view u) (icache u ip)" "data_blk s b" for b
    proof -
      have "b \<in> fblocks (view t) ?y" using b(9) that grow_data_blk [OF t(5)] by blast
      moreover have "b \<noteq> n" using that(2) t(4) by (auto simp: data_blk_def)
      ultimately show ?thesis using t(8) by (auto simp: fblocks_def)
    qed
    moreover have "addrs_only ?x (icache u ip)" using addrs_only_trans [OF addrs_only_refl(2) b(3)] .
    ultimately show ?thesis using b t(2,8) ind unfolding bmapped_def Let_def by simp
  qed
  ultimately show ?thesis using u(1,3) t(6) by (intro that [of a u]) simp_all
qed

lemma bmap_ret:
  fixes s :: "'x fstate_scheme"
  assumes inv: "linv s" "layout s" "meta_used s" "lockd s = {}" "spare s 6" "2 \<le> nfree s"
    and ok: "file_ok s (icache s ip)" and i: "i < MAXFILE"
  obtains a t where "bmap ip i s = Ret a t" and "bmapped ip i s a 2 t" and "lh_n (log t) \<le> lh_n (log s) + 5"
proof -
  have sp: "spare s 2" "spare s 4" using inv(5) by (auto intro: spare_mono)
  have nf: "1 \<le> nfree s" using inv(6) by simp
  have mono: "bmapped ip i s a 1 t \<Longrightarrow> bmapped ip i s a 2 t" for a t
    using grow_mono [OF _ subset_refl, of _ 1 s t 2] by (simp add: bmapped_def Let_def)
  consider "i < NDIRECT" | k where "i = NDIRECT + k" "k < NINDIRECT"
    using i unfolding MAXFILE_def by (metis add_less_cancel_left le_Suc_ex linorder_not_less)
  then show ?thesis
  proof cases
    case 1
    obtain a t where "bmap ip i s = Ret a t" "bmapped ip i s a 1 t" "lh_n (log t) \<le> lh_n (log s) + 2"
      by (rule bmap_direct [OF inv(1-4) sp(1) nf ok 1]) (rule that; assumption)
    with mono show ?thesis by (intro that [of a t]) simp_all
  next
    case 2
    show ?thesis
    proof (cases "i_addrs (icache s ip) NDIRECT = 0")
      case True
      show ?thesis by (rule bmap_indirect_new [OF inv ok 2 True]) (rule that; assumption)
    next
      case False
      obtain a t where "bmap ip i s = Ret a t" "bmapped ip i s a 1 t" "lh_n (log t) \<le> lh_n (log s) + 3"
        by (rule bmap_indirect_old [OF inv(1-4) sp(2) nf ok 2 False]) (rule that; assumption)
      with mono show ?thesis by (intro that [of a t]) simp_all
    qed
  qed
qed

end
