(* ===== verification/Fileio.thy ===== *)
theory Fileio
  imports Content
begin

text \<open>\<^verbatim>\<open>readi\<close> and \<^verbatim>\<open>writei\<close> of \<^verbatim>\<open>kernel/fs.c\<close> against the contents of the file.\<close>

section \<open>Reading\<close>

text \<open>Looking up a block that exists changes nothing but the cache.\<close>

definition looked :: "'x fstate_scheme \<Rightarrow> 'x fstate_scheme \<Rightarrow> bool" where
  "looked s t \<longleftrightarrow> tx s t \<and> view t = view s \<and> icache t = icache s \<and> log t = log s"

lemma looked_refl: "linv s \<Longrightarrow> looked s s"
  by (simp add: looked_def tx_refl)

lemma looked_trans: "looked s t \<Longrightarrow> looked t u \<Longrightarrow> looked s u"
  by (auto simp: looked_def intro: tx_trans)

lemma lookedD:
  assumes "looked s t"
  shows "tx s t" "view t = view s" "icache t = icache s" "log t = log s" "linv t" "sb t = sb s" "lockd t = lockd s"
    "layout t = layout s" "spare t k = spare s k" "file_ok t = file_ok s" "dense t = dense s" "data_blk t = data_blk s"
proof -
  show tx: "tx s t" "view t = view s" "icache t = icache s" "log t = log s" using assms by (simp_all add: looked_def)
  show b: "linv t" "sb t = sb s" "lockd t = lockd s" using txD [OF tx(1)] by simp_all
  have "allocated t = allocated s" using tx(2) b(2) by (rule allocated_cong)
  then show d: "data_blk t = data_blk s" using b(2) by (simp add: data_blk_def fun_eq_iff)
  show "layout t = layout s" by (rule layout_keep [OF txD(3) [OF tx(1)]])
  show "spare t k = spare s k" using tx(4) b(3) by (simp add: spare_def)
  show "file_ok t = file_ok s" by (rule ext) (simp add: file_ok_def tx(2) b(2) d)
  show "dense t = dense s" by (rule ext) (simp add: dense_def tx(2))
qed

lemma bmap_old:
  fixes s :: "'x fstate_scheme"
  assumes inv: "linv s" "layout s" "lockd s = {}" "spare s 0" and ok: "file_ok s (icache s ip)"
    and i: "i < MAXFILE" "faddr (view s) (icache s ip) i \<noteq> 0"
  obtains t where "bmap ip i s = Ret (faddr (view s) (icache s ip) i) t" and "looked s t"
proof (cases "i < NDIRECT")
  case True
  then have "bmap ip i s = Ret (faddr (view s) (icache s ip) i) s" using i(2) by (simp add: bmap_def faddr_def)
  then show ?thesis using looked_refl [OF inv(1)] that by blast
next
  case False
  let ?ind = "i_addrs (icache s ip) NDIRECT"
  have ind: "?ind \<noteq> 0" "faddr (view s) (icache s ip) i = rd32 (view s ?ind) (4 * (i - NDIRECT))" "i - NDIRECT < NINDIRECT"
    using False i by (auto simp: faddr_def MAXFILE_def split: if_splits)
  note di = data_blkD [OF inv(2) file_okD(6) [OF ok ind(1)]]
  have nl: "?ind \<notin> lockd s" using inv(3) by simp
  obtain bp t u where t: "bread ROOTDEV ?ind s = Ret bp t" "b_data (bcache t bp) = view s ?ind" "icache t = icache s"
    "brelse bp t = Ret () u" "tx s u" "view u = view s" "icache u = icache s" "log u = log s"
    by (rule tx_read [OF inv(1) di(1) nl inv(4)]) (rule that; assumption)
  have "bmap ip i s = Ret (faddr (view s) (icache s ip) i) u"
    using False i(2) t(1-4) ind file_okD(1) [OF ok] by (simp add: bmap_def)
  with t(5-8) show ?thesis by (intro that [of u]) (simp_all add: looked_def)
qed

lemma chunk_bounds:
  fixes off m n :: nat
  assumes "m = min n (BSIZE - off mod BSIZE)" and "0 < n"
  shows "0 < m" "m \<le> n" "off mod BSIZE + m \<le> BSIZE"
    "j < m \<Longrightarrow> (off + j) div BSIZE = off div BSIZE \<and> (off + j) mod BSIZE = off mod BSIZE + j"
proof -
  have "off mod BSIZE < BSIZE" by (simp add: BSIZE_def)
  then show m: "0 < m" "m \<le> n" "off mod BSIZE + m \<le> BSIZE" using assms by auto
  assume "j < m"
  then have "off mod BSIZE + j < BSIZE" using m(3) by simp
  moreover have "off + j = BSIZE * (off div BSIZE) + (off mod BSIZE + j)" by simp
  ultimately show "(off + j) div BSIZE = off div BSIZE \<and> (off + j) mod BSIZE = off mod BSIZE + j"
    by (metis Euclidean_Rings.div_eq_0_iff Nat.add_0_right div_mult_self4 mod_less mod_mult_self4 mult.commute not_less0)
qed

lemma chunk_bytes:
  assumes "m = min n (BSIZE - off mod BSIZE)" and "0 < n" and "faddr v x (off div BSIZE) \<noteq> 0"
  shows "get_bytes (v (faddr v x (off div BSIZE))) (off mod BSIZE) m = map (fbyte v x) [off..<off + m]"
  using chunk_bounds(4) [OF assms(1,2)] assms(3)
  by (intro nth_equalityI) (simp_all add: fbyte_def Let_def)

lemma readi_loop_ret:
  fixes s :: "'x fstate_scheme"
  assumes "linv s" "layout s" "lockd s = {}" "spare s 0" "file_ok s (icache s ip)" "dense s (icache s ip)"
    and "off + (n - tot) \<le> i_size (icache s ip)" and "tot \<le> n" and "n - tot \<le> k"
  shows "\<exists>m t. readi_loop k ip out off n tot acc s = Ret (tot + m, acc @ map (fbyte (view s) (icache s ip)) [off..<off + m]) t \<and>
     looked s t \<and> m \<le> n - tot \<and> (m = n - tot \<or> (\<exists>bs. \<not> out (tot + m) bs))"
  using assms
proof (induction k arbitrary: s off tot acc)
  case 0
  then show ?case using looked_refl [OF 0(1)] by (intro exI [of _ 0]) simp
next
  case (Suc k)
  let ?x = "icache s ip"
  define M where "M = min (n - tot) (BSIZE - off mod BSIZE)"
  let ?a = "faddr (view s) ?x (off div BSIZE)"
  show ?case
  proof (cases "tot < n")
    case False
    then show ?thesis using Suc.prems(8) looked_refl [OF Suc.prems(1)] by (intro exI [of _ 0]) simp
  next
    case lt: True
    then have pos: "0 < n - tot" by simp
    note cb = chunk_bounds [OF M_def pos]
    have "off div BSIZE * BSIZE < i_size ?x"
      using Suc.prems(7) pos div_mult_mod_eq [of off BSIZE] by linarith
    then have a: "?a \<noteq> 0" using Suc.prems(6) by (simp add: dense_def)
    have im: "off div BSIZE < MAXFILE"
      using Suc.prems(7) pos file_okD(3) [OF Suc.prems(5)] by (intro less_mult_imp_div_less) linarith
    obtain t where t: "bmap ip (off div BSIZE) s = Ret ?a t" "looked s t"
      by (rule bmap_old [OF Suc.prems(1-5) im a]) (rule that; assumption)
    note lt' = lookedD [OF t(2)]
    note da = data_blkD [OF Suc.prems(2) file_okD(4) [OF Suc.prems(5) im a]]
    have nl: "?a \<notin> lockd t" "spare t 0" using Suc.prems(3,4) lt'(7,9) by simp_all
    obtain bp t2 u where u: "bread ROOTDEV ?a t = Ret bp t2" "b_data (bcache t2 bp) = view t ?a"
      "brelse bp t2 = Ret () u" "tx t u" "view u = view t" "icache u = icache t" "log u = log t"
      by (rule tx_read [OF lt'(5) da(1) nl]) (rule that; assumption)
    have lu: "looked s u" using looked_trans [OF t(2), of u] u(4-7) by (simp add: looked_def)
    note lu' = lookedD [OF lu]
    let ?bs = "map (fbyte (view s) ?x) [off..<off + M]"
    have bs: "get_bytes (b_data (bcache t2 bp)) (off mod BSIZE) M = ?bs"
      using chunk_bytes [OF M_def pos a] u(2) lt'(2) by simp
    have run: "readi_loop (Suc k) ip out off n tot acc s =
        (if \<not> out tot ?bs then Ret (tot, acc) u else readi_loop k ip out (off + M) n (tot + M) (acc @ ?bs) u)"
      using lt t(1) u(1,3) lt'(3) file_okD(1) [OF Suc.prems(5)] by (simp add: bs Let_def flip: M_def)
    show ?thesis
    proof (cases "out tot ?bs")
      case False
      then show ?thesis using run lu by (intro exI [of _ 0] exI [of _ u]) auto
    next
      case True
      have pre: "linv u" "layout u" "lockd u = {}" "spare u 0" "file_ok u (icache u ip)" "dense u (icache u ip)"
        using Suc.prems(1-6) lu' by simp_all
      have b: "off + M + (n - (tot + M)) \<le> i_size (icache u ip)" "tot + M \<le> n" "n - (tot + M) \<le> k"
        using Suc.prems(7,9) cb(1,2) lt lu'(3) by auto
      obtain m t3 where m: "readi_loop k ip out (off + M) n (tot + M) (acc @ ?bs) u =
          Ret (tot + M + m, (acc @ ?bs) @ map (fbyte (view u) (icache u ip)) [off + M..<off + M + m]) t3"
        "looked u t3" "m \<le> n - (tot + M)" "m = n - (tot + M) \<or> (\<exists>bs. \<not> out (tot + M + m) bs)"
        using Suc.IH [OF pre b] by blast
      have "[off..<off + (M + m)] = [off..<off + M] @ [off + M..<off + M + m]"
        using upt_add_eq_append [of off "off + M" m] by (simp add: add.assoc)
      then have "map (fbyte (view s) ?x) [off..<off + (M + m)] =
          ?bs @ map (fbyte (view u) (icache u ip)) [off + M..<off + M + m]"
        using lu'(2,3) by (simp only: map_append)
      then have "Ret (tot + M + m, (acc @ ?bs) @ map (fbyte (view u) (icache u ip)) [off + M..<off + M + m]) t3 =
          Ret (tot + (M + m), acc @ map (fbyte (view s) ?x) [off..<off + (M + m)]) t3"
        by (simp only: append_assoc add.assoc)
      with run True m(1) have "readi_loop (Suc k) ip out off n tot acc s =
          Ret (tot + (M + m), acc @ map (fbyte (view s) ?x) [off..<off + (M + m)]) t3"
        by (simp only: not_True_eq_False if_False)
      moreover have "M + m \<le> n - tot" using m(3) cb(2) lt by linarith
      moreover have "M + m = n - tot \<or> (\<exists>bs. \<not> out (tot + (M + m)) bs)"
        using m(4) cb(2) lt by (metis add.assoc diff_diff_left le_add_diff_inverse)
      ultimately show ?thesis using looked_trans [OF lu m(2)] by blast
    qed
  qed
qed

lemma readi_ret:
  fixes s :: "'x fstate_scheme"
  assumes inv: "linv s" "layout s" "lockd s = {}" "spare s 0" "file_ok s (icache s ip)" "dense s (icache s ip)"
    and ty: "i_type (icache s ip) \<in> {T_FILE, T_SYMLINK, T_DIR}" and n: "off + n < 2 ^ 32"
  shows "\<exists>m t. readi ip out off n s = Ret (int m, take m (drop off (content s ip))) t \<and> looked s t \<and>
     m \<le> min n (i_size (icache s ip) - off) \<and> (m = min n (i_size (icache s ip) - off) \<or> (\<exists>bs. \<not> out m bs))"
proof -
  let ?x = "icache s ip"
  define n' where "n' = (if off + n > i_size ?x then i_size ?x - off else n)"
  show ?thesis
  proof (cases "off > i_size ?x")
    case True
    then have "readi ip out off n s = Ret (0, []) s" using ty by (auto simp: readi_def Let_def)
    then show ?thesis using True looked_refl [OF inv(1)] by (intro exI [of _ 0] exI [of _ s]) simp
  next
    case False
    then have n': "n' = min n (i_size ?x - off)" "off + (n' - 0) \<le> i_size ?x" by (auto simp: n'_def)
    obtain m t where m: "readi_loop n' ip out off n' 0 [] s = Ret (0 + m, [] @ map (fbyte (view s) ?x) [off..<off + m]) t"
      "looked s t" "m \<le> n' - 0" "m = n' - 0 \<or> (\<exists>bs. \<not> out (0 + m) bs)"
      using readi_loop_ret [OF inv n'(2), of n' out "[]"] by auto
    have "(off + n) mod 2 ^ 32 = off + n" using n by simp
    then have "readi ip out off n s = Ret (int m, map (fbyte (view s) ?x) [off..<off + m]) t"
      using False ty m(1) by (auto simp: readi_def Let_def n'_def [symmetric])
    moreover have "take m (drop off (content s ip)) = map (fbyte (view s) ?x) [off..<off + m]"
      using m(3) n'(2) by (simp add: content_def drop_map take_map)
    ultimately show ?thesis using m(2-4) n'(1) by auto
  qed
qed

section \<open>Writing\<close>

lemma put_bytes_fbyte:
  assumes ok: "file_ok t y" and i: "i < MAXFILE" and a: "faddr (view t) y i = a" "a \<noteq> 0" and o: "o' + length bs \<le> BSIZE"
    and u: "view u = (view t)(a := put_bytes o' bs (view t a))"
  shows "faddr (view u) y j = faddr (view t) y j"
    and "p < MAXFILE * BSIZE \<Longrightarrow> fbyte (view u) y p =
      (if i * BSIZE + o' \<le> p \<and> p < i * BSIZE + o' + length bs then bs ! (p - (i * BSIZE + o')) else fbyte (view t) y p)"
proof -
  have ne: "a \<noteq> i_addrs y NDIRECT" using file_okD(5) [OF ok i] a by auto
  show f: "faddr (view u) y j = faddr (view t) y j" for j using u ne by (simp add: faddr_def)
  assume p: "p < MAXFILE * BSIZE"
  then have pm: "p div BSIZE < MAXFILE" by (rule less_mult_imp_div_less)
  show "fbyte (view u) y p =
      (if i * BSIZE + o' \<le> p \<and> p < i * BSIZE + o' + length bs then bs ! (p - (i * BSIZE + o')) else fbyte (view t) y p)"
  proof (cases "p div BSIZE = i")
    case True
    then have "p = i * BSIZE + p mod BSIZE" by (metis div_mult_mod_eq)
    then obtain q where q: "p = i * BSIZE + q" "p mod BSIZE = q" by blast
    show ?thesis using True a u f q by (auto simp: fbyte_def Let_def put_bytes_def)
  next
    case False
    then have "faddr (view t) y (p div BSIZE) \<noteq> a" using file_okD(7) [OF ok i pm] a by auto
    moreover have "\<not> (i * BSIZE + o' \<le> p \<and> p < i * BSIZE + o' + length bs)"
    proof
      assume h: "i * BSIZE + o' \<le> p \<and> p < i * BSIZE + o' + length bs"
      then have "i * BSIZE \<le> p" "p < Suc i * BSIZE" using o by simp_all
      then have "p div BSIZE = i" by (simp add: div_nat_eqI mult.commute)
      with False show False by simp
    qed
    ultimately show ?thesis using u f by (auto simp: fbyte_def Let_def)
  qed
qed

lemma grow_restrict: "grow A n s u \<Longrightarrow> (\<And>b. b \<in> A \<Longrightarrow> data_blk s b \<Longrightarrow> b \<in> B) \<Longrightarrow> grow B n s u"
  unfolding grow_def by blast

text \<open>One round of the loop of \<^verbatim>\<open>writei\<close>, from the block map to the release of the buffer.\<close>

lemma write_round:
  fixes s :: "'x fstate_scheme"
  assumes inv: "linv s" "layout s" "meta_used s" "lockd s = {}" "spare s 6" "2 \<le> nfree s"
    and ok: "file_ok s (icache s ip)" and i: "i < MAXFILE" and o: "o' + length bs \<le> BSIZE"
  obtains a t bp t2 v w u where "bmap ip i s = Ret a t" and "bread ROOTDEV a t = Ret bp t2" and "i_dev (icache t ip) = ROOTDEV"
    and "upd_data bp (put_bytes o' bs) t2 = Ret () v" and "log_write bp v = Ret () w" and "brelse bp w = Ret () u"
    and "grow (fblocks (view s) (icache s ip)) 2 s u" and "lh_n (log u) \<le> lh_n (log s) + 6"
    and "\<forall>j. j \<noteq> ip \<longrightarrow> icache u j = icache s j" and "addrs_only (icache s ip) (icache u ip)" and "file_ok u (icache u ip)"
    and "faddr (view u) (icache u ip) i \<noteq> 0"
    and "\<And>j. j < MAXFILE \<Longrightarrow> j \<noteq> i \<Longrightarrow> faddr (view u) (icache u ip) j = faddr (view s) (icache s ip) j"
    and "\<And>p. p < MAXFILE * BSIZE \<Longrightarrow> fbyte (view u) (icache u ip) p =
      (if i * BSIZE + o' \<le> p \<and> p < i * BSIZE + o' + length bs then bs ! (p - (i * BSIZE + o')) else fbyte (view s) (icache s ip) p)"
    and "\<And>b. b \<in> fblocks (view u) (icache u ip) \<Longrightarrow> data_blk s b \<Longrightarrow> b \<in> fblocks (view s) (icache s ip)"
proof -
  obtain a t where t: "bmap ip i s = Ret a t" "bmapped ip i s a 2 t" "lh_n (log t) \<le> lh_n (log s) + 5"
    by (rule bmap_ret [OF inv ok i]) (rule that; assumption)
  let ?x = "icache s ip" and ?y = "icache t ip"
  have b: "grow {i_addrs ?x NDIRECT} 2 s t" "\<forall>j. j \<noteq> ip \<longrightarrow> icache t j = icache s j" "addrs_only ?x ?y"
    "file_ok t ?y" "faddr (view t) ?y i = a" "a \<noteq> 0"
    "\<forall>j<MAXFILE. j \<noteq> i \<longrightarrow> faddr (view t) ?y j = faddr (view s) ?x j"
    "\<forall>p<MAXFILE * BSIZE. fbyte (view t) ?y p = fbyte (view s) ?x p"
    "\<forall>b. b \<in> fblocks (view t) ?y \<and> data_blk s b \<longrightarrow> b \<in> fblocks (view s) ?x"
    using t(2) unfolding bmapped_def Let_def by simp_all
  have lt: "layout t" "lockd t = {}" using growD [OF b(1)] inv by simp_all
  have da: "data_blk t a" using file_okD(4) [OF b(4) i] b(5,6) by simp
  note da' = data_blkD [OF lt(1) da]
  have nl: "a \<notin> lockd t" using lt(2) by simp
  have sp: "spare t 1" by (rule tx_spare [OF inv(5) growD(1) [OF b(1)], where j = 5]) (use t(3) in simp_all)
  obtain bp t2 v w u where u: "bread ROOTDEV a t = Ret bp t2"
    "upd_data bp (put_bytes o' bs) t2 = Ret () v" "log_write bp v = Ret () w" "brelse bp w = Ret () u"
    "tx t u" "view u = (view t)(a := put_bytes o' bs (view t a))" "icache u = icache t" "lh_n (log u) \<le> lh_n (log t) + 1"
    by (rule tx_write [OF growD(2) [OF b(1)] da'(1) nl da'(2) sp, where f = "put_bytes o' bs"]) (rule that; assumption)
  note pb = put_bytes_fbyte [OF b(4) i b(5,6) o u(6)]
  have fb: "fblocks (view u) ?y = fblocks (view t) ?y" using pb(1) by (simp add: fblocks_def)
  have af: "a \<in> fblocks (view t) ?y" using b(5) i by (auto simp: fblocks_def)
  have g2: "grow {a} 0 t u"
    by (rule grow_store [OF grow_refl [OF growD(2,3) [OF b(1)], of "{}" 0] refl refl lt(1) da u(5,6)])
  have "grow ({i_addrs ?x NDIRECT} \<union> {a}) (2 + 0) s u" by (rule grow_trans [OF b(1) g2])
  then have gu: "grow (fblocks (view s) ?x) (2 + 0) s u"
    by (rule grow_restrict) (use b(9) af in \<open>auto simp: fblocks_def\<close>)
  have fo: "file_ok u ?y"
    by (rule grow_file(2) [OF g2 b(4) lt(1)]) (use file_okD(5) [OF b(4) i] b(5,6) in auto)
  show ?thesis
  proof (rule that [OF t(1) u(1) _ u(2-4)])
    show "i_dev ?y = ROOTDEV" by (rule file_okD(1) [OF b(4)])
    show "grow (fblocks (view s) ?x) 2 s u" using gu by simp
    show "lh_n (log u) \<le> lh_n (log s) + 6" using u(8) t(3) by simp
  qed (use b(2,3,5-9) u(7) fo pb fb in simp_all)
qed

text \<open>The number of blocks that \<open>m\<close> bytes from offset \<open>off\<close> on touch.\<close>

definition chunks :: "nat \<Rightarrow> nat \<Rightarrow> nat" where
  "chunks off m = (if m = 0 then 0 else (off + m - 1) div BSIZE - off div BSIZE + 1)"

lemma chunks_step:
  assumes M: "M = min m (BSIZE - off mod BSIZE)" and "0 < m"
  shows "chunks off m = Suc (chunks (off + M) (m - M))"
proof -
  let ?q = "off div BSIZE" and ?r = "off mod BSIZE"
  have B: "0 < BSIZE" "?r < BSIZE" by (simp_all add: BSIZE_def)
  have off: "BSIZE * ?q + ?r = off" by simp
  have Bq: "BSIZE * Suc ?q = BSIZE * ?q + BSIZE" by simp
  show ?thesis
  proof (cases "m \<le> BSIZE - ?r")
    case True
    have "BSIZE * ?q \<le> off + m - 1" "off + m - 1 < BSIZE * Suc ?q"
      using True assms(2) B off Bq by linarith+
    then have "(off + m - 1) div BSIZE = ?q" by (rule div_nat_eqI)
    with True assms show ?thesis by (simp add: chunks_def)
  next
    case False
    then have M': "M = BSIZE - ?r" "M < m" using M by auto
    then have next': "off + M = BSIZE * Suc ?q" using B(2) off Bq by linarith
    have d: "(off + M) div BSIZE = Suc ?q" unfolding next' using B(1) by simp
    have "BSIZE * Suc ?q \<le> off + m - 1" using next' M'(2) by linarith
    then have "Suc ?q \<le> (off + m - 1) div BSIZE" using B(1) by (simp add: less_eq_div_iff_mult_less_eq mult.commute)
    moreover have "off + M + (m - M) - 1 = off + m - 1" using M'(2) by simp
    ultimately show ?thesis using assms(2) M'(2) d by (simp add: chunks_def)
  qed
qed

text \<open>
  What writing the bytes \<open>bs\<close> at offset \<open>off\<close> of the file achieves; at most two new blocks and six log
  entries for each of \<open>c\<close> blocks.
\<close>

definition wrote_file :: "nat \<Rightarrow> nat \<Rightarrow> byte list \<Rightarrow> nat \<Rightarrow> 'x fstate_scheme \<Rightarrow> 'x fstate_scheme \<Rightarrow> bool" where
  "wrote_file ip off bs c s t \<longleftrightarrow>
     (let x = icache s ip; y = icache t ip in
      grow (fblocks (view s) x) (2 * c) s t \<and> lh_n (log t) \<le> lh_n (log s) + int (6 * c) \<and>
      (\<forall>j. j \<noteq> ip \<longrightarrow> icache t j = icache s j) \<and> addrs_only x y \<and> file_ok t y \<and>
      (\<forall>i<MAXFILE. faddr (view s) x i \<noteq> 0 \<longrightarrow> faddr (view t) y i \<noteq> 0) \<and>
      (\<forall>p. off \<le> p \<and> p < off + length bs \<longrightarrow> faddr (view t) y (p div BSIZE) \<noteq> 0) \<and>
      (\<forall>p<MAXFILE * BSIZE. fbyte (view t) y p =
         (if off \<le> p \<and> p < off + length bs then bs ! (p - off) else fbyte (view s) x p)) \<and>
      (\<forall>b. b \<in> fblocks (view t) y \<and> data_blk s b \<longrightarrow> b \<in> fblocks (view s) x))"

lemma wrote_fileD:
  assumes "wrote_file ip off bs c s t"
  shows "grow (fblocks (view s) (icache s ip)) (2 * c) s t" "lh_n (log t) \<le> lh_n (log s) + int (6 * c)"
    "j \<noteq> ip \<Longrightarrow> icache t j = icache s j" "addrs_only (icache s ip) (icache t ip)" "file_ok t (icache t ip)"
    "i < MAXFILE \<Longrightarrow> faddr (view s) (icache s ip) i \<noteq> 0 \<Longrightarrow> faddr (view t) (icache t ip) i \<noteq> 0"
    "off \<le> p \<Longrightarrow> p < off + length bs \<Longrightarrow> faddr (view t) (icache t ip) (p div BSIZE) \<noteq> 0"
    "p < MAXFILE * BSIZE \<Longrightarrow> fbyte (view t) (icache t ip) p =
         (if off \<le> p \<and> p < off + length bs then bs ! (p - off) else fbyte (view s) (icache s ip) p)"
    "b \<in> fblocks (view t) (icache t ip) \<Longrightarrow> data_blk s b \<Longrightarrow> b \<in> fblocks (view s) (icache s ip)"
  using assms unfolding wrote_file_def Let_def by blast+

lemma wrote_file_Nil:
  assumes "linv s" "meta_used s" "file_ok s (icache s ip)"
  shows "wrote_file ip off [] 0 s s"
  using assms by (auto simp: wrote_file_def Let_def grow_refl)

lemma wrote_file_append:
  assumes 1: "wrote_file ip off bs c s t" and 2: "wrote_file ip (off + length bs) cs d t u"
    and len: "off + length bs + length cs \<le> MAXFILE * BSIZE"
  shows "wrote_file ip off (bs @ cs) (c + d) s u"
proof -
  note a = wrote_fileD [OF 1] and b = wrote_fileD [OF 2]
  have g0: "grow (fblocks (view s) (icache s ip) \<union> fblocks (view t) (icache t ip)) (2 * (c + d)) s u"
    unfolding distrib_left by (rule grow_trans [OF a(1) b(1)])
  have g: "grow (fblocks (view s) (icache s ip)) (2 * (c + d)) s u"
    by (rule grow_restrict [OF g0]) (use a(9) in blast)
  have m: "p div BSIZE < MAXFILE" if "p < off + length (bs @ cs)" for p
    using that len by (intro less_mult_imp_div_less) simp
  have f: "faddr (view u) (icache u ip) (p div BSIZE) \<noteq> 0" if "off \<le> p" "p < off + length (bs @ cs)" for p
    using that a(7) [of p] b(7) [of p] b(6) [OF m [OF that(2)]] by (cases "p < off + length bs") auto
  have y: "fbyte (view u) (icache u ip) p =
      (if off \<le> p \<and> p < off + length (bs @ cs) then (bs @ cs) ! (p - off) else fbyte (view s) (icache s ip) p)"
    if "p < MAXFILE * BSIZE" for p
    using a(8) [OF that] b(8) [OF that] by (auto simp: nth_append)
  have z: "b' \<in> fblocks (view s) (icache s ip)" if "b' \<in> fblocks (view u) (icache u ip)" "data_blk s b'" for b'
    using a(9) [OF b(9) [OF that(1) grow_data_blk [OF a(1) that(2)]] that(2)] .
  have lh: "lh_n (log u) \<le> lh_n (log s) + int (6 * (c + d))" using a(2) b(2) by simp
  show ?thesis
    unfolding wrote_file_def Let_def
    using g lh a(3) b(3,5) addrs_only_trans [OF a(4) b(4)] a(6) b(6) f y z by simp
qed

text \<open>A source whose copies all succeed and deliver \<open>data\<close>.\<close>

definition delivers :: "(nat \<Rightarrow> nat \<Rightarrow> byte list \<times> bool) \<Rightarrow> byte list \<Rightarrow> bool" where
  "delivers src data \<longleftrightarrow> (\<forall>tot m. tot + m \<le> length data \<longrightarrow> src tot m = (take m (drop tot data), True))"

lemma delivers_kernel: "delivers (kernel_src data) data"
  by (simp add: delivers_def kernel_src_def)

text \<open>One round of the loop.\<close>

lemma writei_round:
  fixes s :: "'x fstate_scheme"
  assumes inv: "linv s" "layout s" "meta_used s" "lockd s = {}" "spare s 6" "2 \<le> nfree s"
    and ok: "file_ok s (icache s ip)" and src: "delivers src data" and tot: "tot < length data"
    and max: "off + (length data - tot) \<le> MAXFILE * BSIZE" and M: "M = min (length data - tot) (BSIZE - off mod BSIZE)"
  obtains u where "writei_loop (Suc k) ip src off (length data) tot s = writei_loop k ip src (off + M) (length data) (tot + M) u"
    and "wrote_file ip off (take M (drop tot data)) 1 s u"
proof -
  let ?bs = "take M (drop tot data)"
  note cb = chunk_bounds [OF M, simplified, OF tot]
  have len: "length ?bs = M" using cb(2) by simp
  have im: "off div BSIZE < MAXFILE" using max tot by (intro less_mult_imp_div_less) linarith
  have o: "off mod BSIZE + length ?bs \<le> BSIZE" using cb(3) len by simp
  obtain a t bp t2 v w u where u: "bmap ip (off div BSIZE) s = Ret a t" "bread ROOTDEV a t = Ret bp t2" "i_dev (icache t ip) = ROOTDEV"
    "upd_data bp (put_bytes (off mod BSIZE) ?bs) t2 = Ret () v" "log_write bp v = Ret () w" "brelse bp w = Ret () u"
    "grow (fblocks (view s) (icache s ip)) 2 s u" "lh_n (log u) \<le> lh_n (log s) + 6"
    "\<forall>j. j \<noteq> ip \<longrightarrow> icache u j = icache s j" "addrs_only (icache s ip) (icache u ip)" "file_ok u (icache u ip)"
    "faddr (view u) (icache u ip) (off div BSIZE) \<noteq> 0"
    "\<And>j. j < MAXFILE \<Longrightarrow> j \<noteq> off div BSIZE \<Longrightarrow> faddr (view u) (icache u ip) j = faddr (view s) (icache s ip) j"
    "\<And>p. p < MAXFILE * BSIZE \<Longrightarrow> fbyte (view u) (icache u ip) p =
      (if off div BSIZE * BSIZE + off mod BSIZE \<le> p \<and> p < off div BSIZE * BSIZE + off mod BSIZE + length ?bs
       then ?bs ! (p - (off div BSIZE * BSIZE + off mod BSIZE)) else fbyte (view s) (icache s ip) p)"
    "\<And>b. b \<in> fblocks (view u) (icache u ip) \<Longrightarrow> data_blk s b \<Longrightarrow> b \<in> fblocks (view s) (icache s ip)"
    by (rule write_round [OF inv ok im o]) (rule that; assumption)
  have s: "src tot M = (?bs, True)" using src cb(2) tot by (simp add: delivers_def)
  have run: "writei_loop (Suc k) ip src off (length data) tot s = writei_loop k ip src (off + M) (length data) (tot + M) u"
    unfolding writei_loop.simps M [symmetric] by (simp only: tot if_True u(1-6) kbind_Ret kthen_Ret Let_def s fst_conv snd_conv not_True_eq_False if_False)
  have pq: "p div BSIZE = off div BSIZE" if "off \<le> p" "p < off + M" for p
    using cb(4) [of "p - off"] that by auto
  have "wrote_file ip off ?bs 1 s u"
    unfolding wrote_file_def Let_def
  proof (intro conjI)
    show "\<forall>i<MAXFILE. faddr (view s) (icache s ip) i \<noteq> 0 \<longrightarrow> faddr (view u) (icache u ip) i \<noteq> 0"
      using u(12,13) by metis
    show "\<forall>p. off \<le> p \<and> p < off + length ?bs \<longrightarrow> faddr (view u) (icache u ip) (p div BSIZE) \<noteq> 0"
      unfolding len using u(12) pq by metis
    show "\<forall>p<MAXFILE * BSIZE. fbyte (view u) (icache u ip) p =
        (if off \<le> p \<and> p < off + length ?bs then ?bs ! (p - off) else fbyte (view s) (icache s ip) p)"
      using u(14) unfolding div_mult_mod_eq by blast
  qed (use u(7-11,15) in simp_all)
  with run show ?thesis by (rule that)
qed

lemma writei_loop_ret:
  fixes s :: "'x fstate_scheme"
  assumes "linv s" "layout s" "meta_used s" "lockd s = {}" "spare s (6 * chunks off (length data - tot))"
    and "2 * chunks off (length data - tot) \<le> nfree s" and "file_ok s (icache s ip)" and src: "delivers src data"
    and "off + (length data - tot) \<le> MAXFILE * BSIZE" and "tot \<le> length data" and "length data - tot \<le> k"
  shows "\<exists>t. writei_loop k ip src off (length data) tot s = Ret (off + (length data - tot)) t \<and>
     wrote_file ip off (drop tot data) (chunks off (length data - tot)) s t"
  using assms(1-7,9-11)
proof (induction k arbitrary: s off tot)
  case 0
  then show ?case using wrote_file_Nil [OF 0(1,3,7)] by (intro exI [of _ s]) (simp add: chunks_def)
next
  case (Suc k)
  let ?n = "length data"
  show ?case
  proof (cases "tot < ?n")
    case False
    then have "drop tot data = []" "?n - tot = 0" by simp_all
    then show ?thesis using wrote_file_Nil [OF Suc.prems(1,3,7)] False by (intro exI [of _ s]) (simp add: chunks_def)
  next
    case lt: True
    define M where "M = min (?n - tot) (BSIZE - off mod BSIZE)"
    have pos: "0 < ?n - tot" using lt by simp
    note cb = chunk_bounds [OF M_def pos]
    have c: "chunks off (?n - tot) = Suc (chunks (off + M) (?n - (tot + M)))"
      using chunks_step [OF M_def pos] by simp
    let ?c = "chunks (off + M) (?n - (tot + M))"
    have pre: "spare s 6" "2 \<le> nfree s" using Suc.prems(5,6) unfolding c by (auto intro: spare_mono)
    obtain u where u: "writei_loop (Suc k) ip src off ?n tot s = writei_loop k ip src (off + M) ?n (tot + M) u"
      "wrote_file ip off (take M (drop tot data)) 1 s u"
      by (rule writei_round [OF Suc.prems(1-4) pre Suc.prems(7) src lt Suc.prems(8) M_def]) (rule that; assumption)
    note w = wrote_fileD [OF u(2)]
    have sp: "spare u (6 * ?c)" by (rule tx_spare [OF Suc.prems(5) growD(1) [OF w(1)] w(2)]) (simp add: c)
    have nf: "2 * ?c \<le> nfree u" using growD(7) [OF w(1)] Suc.prems(6) unfolding c by simp
    have b: "off + M + (?n - (tot + M)) \<le> MAXFILE * BSIZE" "tot + M \<le> ?n" "?n - (tot + M) \<le> k"
      using Suc.prems(8-10) cb(1,2) lt by linarith+
    have iu: "linv u" "layout u" "meta_used u" "lockd u = {}" using growD [OF w(1)] Suc.prems(2,4) by simp_all
    obtain t where t: "writei_loop k ip src (off + M) ?n (tot + M) u = Ret (off + M + (?n - (tot + M))) t"
      "wrote_file ip (off + M) (drop (tot + M) data) ?c u t"
      using Suc.IH [OF iu sp nf w(5) b] by blast
    have len: "length (take M (drop tot data)) = M" using cb(2) by simp
    have "wrote_file ip off (take M (drop tot data) @ drop (tot + M) data) (1 + ?c) s t"
      by (rule wrote_file_append [OF u(2)], unfold len) (use t(2) b(1) in \<open>simp_all only: length_drop\<close>)
    moreover have "take M (drop tot data) @ drop (tot + M) data = drop tot data"
      by (metis append_take_drop_id drop_drop add.commute)
    moreover have "off + M + (?n - (tot + M)) = off + (?n - tot)" using cb(2) by linarith
    ultimately show ?thesis unfolding u(1) t(1) c by simp
  qed
qed

text \<open>Writing an inode block leaves the contents of every file alone.\<close>

lemma inode_block_keep:
  assumes l: "layout s" and j: "j < sb_ninodes (sb s)" and v: "view t = (view s)(IBLOCK j (sb s) := d)" and sb: "sb t = sb s"
    and ok: "file_ok s x"
  shows "faddr (view t) x i = faddr (view s) x i" "p < MAXFILE * BSIZE \<Longrightarrow> fbyte (view t) x p = fbyte (view s) x p" "file_ok t x"
proof -
  have keep: "view t a = view s a" if "data_blk s a" for a using data_blkD(5) [OF l that j] v by auto
  show f: "faddr (view t) x i = faddr (view s) x i" for i
    using keep [OF file_okD(6) [OF ok]] by (auto simp: faddr_def)
  show "fbyte (view t) x p = fbyte (view s) x p" if "p < MAXFILE * BSIZE"
    using keep [OF file_okD(4) [OF ok less_mult_imp_div_less [OF that]]] f by (auto simp: fbyte_def Let_def)
  have al: "allocated t b = allocated s b" if "b < sb_size (sb s)" for b
    by (rule allocated_agree [OF _ sb refl that]) (use IBLOCK_layout(4) [OF l j] v in auto)
  have "data_blk t = data_blk s" using al by (auto simp: data_blk_def sb fun_eq_iff)
  then show "file_ok t x" using ok unfolding file_ok_def f sb by simp
qed

lemma content_written:
  assumes y: "\<And>p. p < i_size y \<Longrightarrow> fbyte w y p = (if off \<le> p \<and> p < off + length bs then bs ! (p - off) else fbyte v x p)"
    and size: "i_size y = max (i_size x) (off + length bs)" and off: "off \<le> i_size x"
  shows "map (fbyte w y) [0..<i_size y] =
     take off (map (fbyte v x) [0..<i_size x]) @ bs @ drop (off + length bs) (map (fbyte v x) [0..<i_size x])"
proof (rule nth_equalityI)
  show "length (map (fbyte w y) [0..<i_size y]) =
      length (take off (map (fbyte v x) [0..<i_size x]) @ bs @ drop (off + length bs) (map (fbyte v x) [0..<i_size x]))"
    using size off by simp
  fix p assume "p < length (map (fbyte w y) [0..<i_size y])"
  then have "p < i_size y" by simp
  then show "map (fbyte w y) [0..<i_size y] ! p =
      (take off (map (fbyte v x) [0..<i_size x]) @ bs @ drop (off + length bs) (map (fbyte v x) [0..<i_size x])) ! p"
    using y [OF \<open>p < i_size y\<close>] size off by (auto simp: nth_append min_def)
qed

text \<open>The end of \<^verbatim>\<open>writei\<close>: the new size and the inode itself.\<close>

lemma writei_tail:
  fixes s :: "'x fstate_scheme"
  assumes inv: "linv s" "layout s" "meta_used s" "lockd s = {}" "spare s 1" and ok: "file_ok s (icache s ip)"
    and end': "end' \<le> MAXFILE * BSIZE"
  defines "y \<equiv> (icache s ip)\<lparr>i_size := max (i_size (icache s ip)) end'\<rparr>"
  obtains t where
    "kthen (\<lambda>s. if end' > i_size (icache s ip) then upd_inode ip (\<lambda>x. x\<lparr>i_size := end'\<rparr>) s else Ret () s) (iupdate ip) s = Ret () t"
    and "tx s t" and "icache t = (icache s)(ip := y)"
    and "view t = (view s)(IBLOCK (i_inum y) (sb s) := put_dinode (dip_off (i_inum y)) y (view s (IBLOCK (i_inum y) (sb s))))"
    and "lh_n (log t) \<le> lh_n (log s) + 1"
proof -
  let ?s = "s\<lparr>icache := (icache s)(ip := y)\<rparr>"
  have y: "i_dev y = ROOTDEV" "i_inum y = i_inum (icache s ip)" "i_inum y < sb_ninodes (sb s)"
    using file_okD(1,2) [OF ok] by (simp_all add: y_def)
  have run: "(if end' > i_size (icache s ip) then upd_inode ip (\<lambda>x. x\<lparr>i_size := end'\<rparr>) s else Ret () s) = Ret () ?s"
  proof (cases "end' > i_size (icache s ip)")
    case False
    then have "y = icache s ip" by (simp add: y_def max_def)
    with False show ?thesis by simp
  qed (simp add: y_def max_def)
  have inv': "linv ?s" "layout ?s" "spare ?s 1" "lockd ?s = {}" using inv by (simp_all add: layout_def spare_def)
  have pre: "i_dev (icache ?s ip) = ROOTDEV" "i_inum (icache ?s ip) < sb_ninodes (sb ?s)"
    "IBLOCK (i_inum (icache ?s ip)) (sb ?s) \<notin> lockd ?s" using y inv'(4) by simp_all
  obtain t where t: "iupdate ip ?s = Ret () t" "tx ?s t" "icache t = icache ?s"
    "view t = (view ?s)(IBLOCK (i_inum (icache ?s ip)) (sb ?s) :=
       put_dinode (dip_off (i_inum (icache ?s ip))) (icache ?s ip) (view ?s (IBLOCK (i_inum (icache ?s ip)) (sb ?s))))"
    "lh_n (log t) \<le> lh_n (log ?s) + 1"
    by (rule iupdate_ret [OF inv'(1,2) pre inv'(3)]) (rule that; assumption)
  show ?thesis
  proof (rule that [of t])
    show "kthen (\<lambda>s. if end' > i_size (icache s ip) then upd_inode ip (\<lambda>x. x\<lparr>i_size := end'\<rparr>) s else Ret () s) (iupdate ip) s = Ret () t"
      using t(1) run by (simp only: kthen_Ret [where m = "\<lambda>s. if end' > i_size (icache s ip) then upd_inode ip (\<lambda>x. x\<lparr>i_size := end'\<rparr>) s else Ret () s", OF run])
    show "tx s t" using tx_trans [OF tx_icache [OF inv(1)] t(2)] .
  qed (use t(3-5) in simp_all)
qed

lemma file_size_upd [simp]:
  "faddr v (x\<lparr>i_size := n\<rparr>) = faddr v x" "fbyte v (x\<lparr>i_size := n\<rparr>) = fbyte v x" "fblocks v (x\<lparr>i_size := n\<rparr>) = fblocks v x"
  by (auto simp: faddr_def fbyte_def fblocks_def fun_eq_iff)

lemma file_ok_size: "file_ok s x \<Longrightarrow> n \<le> MAXFILE * BSIZE \<Longrightarrow> file_ok s (x\<lparr>i_size := n\<rparr>)"
  by (simp add: file_ok_def)

lemma file_ok_wf:
  assumes "layout s" and "file_ok s x"
  shows "dinode_wf x"
proof -
  have "i_addrs x i < 2 ^ 32" if "i < NDIRECT + 1" for i
  proof (cases "i_addrs x i = 0")
    case False
    have "data_blk s (i_addrs x i)"
    proof (cases "i = NDIRECT")
      case True
      then show ?thesis using file_okD(6) [OF assms(2)] False by simp
    next
      case ne: False
      then have "i < NDIRECT" "i < MAXFILE" using that by (simp_all add: kconsts)
      then show ?thesis using file_okD(4) [OF assms(2), of i] False by (simp add: faddr_def)
    qed
    from data_blkD(1) [OF assms(1) this] show ?thesis by (simp add: kconsts)
  qed simp
  moreover have "i_size x < 2 ^ 32" using file_okD(3) [OF assms(2)] by (simp add: kconsts BSIZE_def)
  ultimately show ?thesis by (simp add: dinode_wf_def)
qed

text \<open>The bytes \<open>data\<close> in place of the old ones from offset \<open>off\<close> on.\<close>

definition file_put :: "byte list \<Rightarrow> nat \<Rightarrow> byte list \<Rightarrow> byte list" where
  "file_put c off data = take off c @ data @ drop (off + length data) c"

text \<open>Nothing of a file that shares no block with file \<open>x\<close> changes.\<close>

definition others_kept :: "inode \<Rightarrow> 'x fstate_scheme \<Rightarrow> 'x fstate_scheme \<Rightarrow> bool" where
  "others_kept x s t \<longleftrightarrow>
     (\<forall>z. file_ok s z \<and> fblocks (view s) z \<inter> fblocks (view s) x \<subseteq> {0} \<longrightarrow>
        file_ok t z \<and> (\<forall>p<MAXFILE * BSIZE. fbyte (view t) z p = fbyte (view s) z p))"

lemma grow_others:
  assumes g: "grow (fblocks (view s) x) n s t" and l: "layout s"
  shows "others_kept x s t"
proof -
  have g': "grow (fblocks (view s) x - {0}) n s t"
    by (rule grow_restrict [OF g]) (use data_blkD(3) [OF l] in auto)
  show ?thesis
    unfolding others_kept_def
  proof (intro allI impI)
    fix z assume z: "file_ok s z \<and> fblocks (view s) z \<inter> fblocks (view s) x \<subseteq> {0}"
    then have n: "i_addrs z NDIRECT \<notin> fblocks (view s) x - {0}"
      and m: "\<And>i. i < MAXFILE \<Longrightarrow> faddr (view s) z i \<notin> fblocks (view s) x - {0}" by (auto simp: fblocks_def)
    have ok: "file_ok s z" using z by simp
    show "file_ok t z \<and> (\<forall>p<MAXFILE * BSIZE. fbyte (view t) z p = fbyte (view s) z p)"
      using grow_file(2,3) [OF g' ok l n] m by blast
  qed
qed

lemma others_kept_inode_block:
  assumes o: "others_kept x s t" and "layout t" "j < sb_ninodes (sb t)" "view u = (view t)(IBLOCK j (sb t) := d)" "sb u = sb t"
  shows "others_kept x s u"
  using o inode_block_keep(2,3) [OF assms(2-5)] unfolding others_kept_def by simp

lemma writei_dense:
  assumes w: "wrote_file ip off bs c s t" and d: "dense s (icache s ip)" and ok: "file_ok s (icache s ip)"
    and off: "off \<le> i_size (icache s ip)" "off + length bs \<le> MAXFILE * BSIZE"
    and i: "i * BSIZE < max (i_size (icache s ip)) (off + length bs)"
  shows "faddr (view t) (icache t ip) i \<noteq> 0"
proof (cases "i * BSIZE < i_size (icache s ip)")
  case True
  then have "i * BSIZE < MAXFILE * BSIZE" using file_okD(3) [OF ok] by linarith
  then have "i < MAXFILE" by simp
  with True d show ?thesis using wrote_fileD(6) [OF w] by (simp add: dense_def)
next
  case False
  then have "off \<le> i * BSIZE" "i * BSIZE < off + length bs" using i off(1) by linarith+
  from wrote_fileD(7) [OF w this] show ?thesis by (simp add: BSIZE_def)
qed

lemma writei_ret:
  fixes s :: "'x fstate_scheme"
  assumes inv: "linv s" "layout s" "meta_used s" "lockd s = {}" "spare s (6 * chunks off (length data) + 1)"
    "2 * chunks off (length data) \<le> nfree s" and ok: "file_ok s (icache s ip)" and d: "dense s (icache s ip)"
    and src: "delivers src data" and off: "off \<le> i_size (icache s ip)" "off + length data \<le> MAXFILE * BSIZE" and ne: "data \<noteq> []"
  shows "\<exists>t. writei ip src off (length data) s = Ret (int (length data)) t \<and> tx s t \<and>
     lh_n (log t) \<le> lh_n (log s) + int (6 * chunks off (length data) + 1) \<and> content t ip = file_put (content s ip) off data \<and> file_ok t (icache t ip) \<and> dense t (icache t ip) \<and>
     addrs_only ((icache s ip)\<lparr>i_size := max (i_size (icache s ip)) (off + length data)\<rparr>) (icache t ip) \<and>
     on_disk t (i_inum (icache s ip)) = dinode_of (icache t ip) \<and>
     (\<forall>j. j \<noteq> ip \<longrightarrow> icache t j = icache s j) \<and> others_kept (icache s ip) s t"
proof -
  let ?n = "length data" and ?x = "icache s ip"
  let ?z = "max (i_size ?x) (off + ?n)"
  have sp: "spare s (6 * chunks off (?n - 0))" and nf: "2 * chunks off (?n - 0) \<le> nfree s"
    and mx: "off + (?n - 0) \<le> MAXFILE * BSIZE" and kk: "?n - 0 \<le> ?n"
    using inv(5,6) off by (auto intro: spare_mono)
  obtain u where u: "writei_loop ?n ip src off ?n 0 s = Ret (off + ?n) u" "wrote_file ip off data (chunks off ?n) s u"
    using writei_loop_ret [OF inv(1-4) sp nf ok src mx le0 kk] by auto
  note w = wrote_fileD [OF u(2)]
  note g = growD [OF w(1)] and a = addrs_onlyD [OF w(4)]
  have iu: "linv u" "layout u" "meta_used u" "lockd u = {}" using g inv by simp_all
  have su: "spare u 1" by (rule tx_spare [OF inv(5) g(1) w(2)]) simp
  define y where "y = (icache u ip)\<lparr>i_size := ?z\<rparr>"
  obtain t where t: "kthen (\<lambda>s. if off + ?n > i_size (icache s ip) then upd_inode ip (\<lambda>x. x\<lparr>i_size := off + ?n\<rparr>) s else Ret () s)
      (iupdate ip) u = Ret () t" "tx u t" "icache t = (icache u)(ip := y)"
    "view t = (view u)(IBLOCK (i_inum y) (sb u) := put_dinode (dip_off (i_inum y)) y (view u (IBLOCK (i_inum y) (sb u))))"
    "lh_n (log t) \<le> lh_n (log u) + 1"
    by (rule writei_tail [OF iu su w(5) off(2), unfolded a(10), folded y_def]) (rule that; assumption)
  have "(off + ?n) mod 2 ^ 32 = off + ?n" using off(2) by (simp add: kconsts BSIZE_def)
  then have run: "writei ip src off ?n s = Ret (int ?n) t"
    using off u(1) ne t(1) by (simp add: writei_def)
  have yok: "file_ok u y" unfolding y_def
    by (rule file_ok_size [OF w(5)]) (use file_okD(3) [OF ok] off(2) in simp)
  have yi: "i_inum y = i_inum ?x" "i_size y = ?z" "i_inum y < sb_ninodes (sb u)"
    using a(2) file_okD(2) [OF ok] g(4) by (simp_all add: y_def)
  have ty: "icache t ip = y" using t(3) by simp
  have sbt: "sb t = sb u" using txD(6) [OF t(2)] .
  note k = inode_block_keep [OF iu(2) yi(3) t(4) sbt]
  have zmx: "?z \<le> MAXFILE * BSIZE" using file_okD(3) [OF ok] off(2) by simp
  have "fbyte (view t) y p = (if off \<le> p \<and> p < off + ?n then data ! (p - off) else fbyte (view s) ?x p)"
    if "p < i_size y" for p
  proof -
    have "p < MAXFILE * BSIZE" using that yi(2) zmx by linarith
    from k(2) [OF yok this] w(8) [OF this] show ?thesis unfolding y_def file_size_upd by (rule trans)
  qed
  from content_written [OF this yi(2) off(1)] have c: "content t ip = file_put (content s ip) off data"
    unfolding content_def file_put_def ty .
  have dn: "dense t y"
    unfolding dense_def yi(2) k(1) [OF yok] using writei_dense [OF u(2) d ok off] by (simp add: y_def)
  have od: "on_disk t (i_inum ?x) = dinode_of y"
    using on_disk_upd [OF t(4) sbt file_ok_wf [OF iu(2) yok], of "i_inum y"] yi(1) by simp
  have ot: "others_kept ?x s t"
    by (rule others_kept_inode_block [OF grow_others [OF w(1) inv(2)] iu(2) yi(3) t(4) sbt])
  obtain f where f: "icache u ip = ?x\<lparr>i_addrs := f\<rparr>" using w(4) unfolding addrs_only_def by blast
  have ao: "addrs_only (?x\<lparr>i_size := ?z\<rparr>) y" unfolding addrs_only_def y_def f by (rule exI [of _ f]) simp
  have oth: "\<forall>j. j \<noteq> ip \<longrightarrow> icache t j = icache s j" using w(3) t(3) by simp
  have lh: "lh_n (log t) \<le> lh_n (log s) + int (6 * chunks off ?n + 1)" using w(2) t(5) by simp
  show ?thesis
    unfolding ty [symmetric] using lh tx_trans [OF g(1) t(2)] c k(3) [OF yok] dn ao od ot oth run ty by blast
qed

section \<open>Properties\<close>

text \<open>
  C25. Inside a transaction, on a file without holes whose blocks are in use and not shared,
  \<^verbatim>\<open>writei\<close> of \<open>data\<close> at an offset up to the size of the file returns the number of bytes, the contents
  of the file have the new bytes in place of the old ones (and are longer by what exceeds the old
  end), the file stays well formed, the inode blocks have the new size and addresses, and no other
  file and no other cache entry changes. After that \<^verbatim>\<open>readi\<close> at every offset and length returns
  exactly the bytes of these contents. Blocks are taken for the data and the indirect block.
\<close>

theorem writei_readi:
  fixes s :: "'x fstate_scheme"
  assumes "linv s" "layout s" "meta_used s" "lockd s = {}" "spare s (6 * chunks off (length data) + 1)"
    and "2 * chunks off (length data) \<le> nfree s" and "file_ok s (icache s ip)" and "dense s (icache s ip)"
    and "i_type (icache s ip) \<in> {T_FILE, T_SYMLINK, T_DIR}" and "delivers src data"
    and "off \<le> i_size (icache s ip)" "off + length data \<le> MAXFILE * BSIZE" and "data \<noteq> []"
  shows "\<exists>t. writei ip src off (length data) s = Ret (int (length data)) t \<and>
     content t ip = file_put (content s ip) off data \<and> file_ok t (icache t ip) \<and> dense t (icache t ip) \<and>
     on_disk t (i_inum (icache s ip)) = dinode_of (icache t ip) \<and>
     (\<forall>j. j \<noteq> ip \<longrightarrow> icache t j = icache s j) \<and> others_kept (icache s ip) s t \<and>
     (\<forall>o' n. o' + n < 2 ^ 32 \<longrightarrow> (\<exists>u. readi ip kernel_dst o' n t =
        Ret (int (min n (length (content t ip) - o')), take n (drop o' (file_put (content s ip) off data))) u))"
proof -
  obtain t where t: "writei ip src off (length data) s = Ret (int (length data)) t" "tx s t"
    "lh_n (log t) \<le> lh_n (log s) + int (6 * chunks off (length data) + 1)"
    "content t ip = file_put (content s ip) off data" "file_ok t (icache t ip)" "dense t (icache t ip)"
    "addrs_only ((icache s ip)\<lparr>i_size := max (i_size (icache s ip)) (off + length data)\<rparr>) (icache t ip)"
    "on_disk t (i_inum (icache s ip)) = dinode_of (icache t ip)"
    "\<forall>j. j \<noteq> ip \<longrightarrow> icache t j = icache s j" "others_kept (icache s ip) s t"
    using writei_ret [OF assms(1-8,10-13)] by blast
  have sp: "spare t 0" by (rule tx_spare [OF assms(5) t(2,3)]) simp
  have inv: "linv t" "layout t" "lockd t = {}" using txD [OF t(2)] layout_keep [OF txD(3) [OF t(2)]] assms(2,4) by simp_all
  have ty: "i_type (icache t ip) \<in> {T_FILE, T_SYMLINK, T_DIR}" using assms(9) addrs_onlyD(6) [OF t(7)] by simp
  have r: "\<exists>u. readi ip kernel_dst o' n t =
      Ret (int (min n (length (content t ip) - o')), take n (drop o' (file_put (content s ip) off data))) u"
    if H: "o' + n < 2 ^ 32" for o' n
  proof -
    have z: "length (content t ip) = i_size (icache t ip)" by (simp add: content_def)
    obtain m u where u: "readi ip kernel_dst o' n t = Ret (int m, take m (drop o' (content t ip))) u"
      "m = min n (i_size (icache t ip) - o')"
      using readi_ret [OF inv sp t(5,6) ty H, of kernel_dst] by (auto simp: kernel_dst_def)
    have "take m (drop o' (content t ip)) = take n (drop o' (content t ip))"
      unfolding u(2) z [symmetric] by (simp add: take_all_iff min_def)
    with u show ?thesis unfolding z t(4) [symmetric] by auto
  qed
  show ?thesis using t(1,4-6,8-10) r by blast
qed

lemma sample_file:
  defines "s \<equiv> mounted fresh_disk (\<lambda>_. sample_inode)"
  shows "file_ok s (icache s ip)" "dense s (icache s ip)" "content s ip = []" "nfree s = 2002" "icache s ip = sample_inode"
proof -
  show ic: "icache s ip = sample_inode" by (simp add: s_def mounted_fields)
  have "faddr v sample_inode i = 0" for v i by (simp add: faddr_def sample_inode_def no_inode_def)
  then show "file_ok s (icache s ip)" "dense s (icache s ip)" "content s ip = []"
    unfolding ic by (simp_all add: file_ok_def dense_def content_def s_def mounted_fields mkfs_sb_def sample_inode_def no_inode_def kconsts)
  have "sb_size (sb s) = 2048" by (simp add: s_def mounted_fields mkfs_sb_def)
  then have "{b. b < sb_size (sb s) \<and> \<not> allocated s b} = {46..<2048}" using fresh_fs(2) by (auto simp: s_def)
  then show "nfree s = 2002" by (simp add: nfree_def)
qed

theorem writei_readi_witness:
  "\<exists>t u. writei 0 (kernel_src [104, 105, 33]) 0 3 (mounted fresh_disk (\<lambda>_. sample_inode)) = Ret 3 t \<and>
     content t 0 = [104, 105, 33] \<and> readi 0 kernel_dst 1 100 t = Ret (2, [105, 33]) u"
proof -
  let ?s = "mounted fresh_disk (\<lambda>_. sample_inode)" and ?d = "[104, 105, 33] :: byte list"
  have c: "chunks 0 (length ?d) = 1" by (simp add: chunks_def BSIZE_def)
  have pre: "spare ?s (6 * chunks 0 (length ?d) + 1)" "2 * chunks 0 (length ?d) \<le> nfree ?s"
    "i_type (icache ?s 0) \<in> {T_FILE, T_SYMLINK, T_DIR}" "0 \<le> i_size (icache ?s 0)" "0 + length ?d \<le> MAXFILE * BSIZE" "?d \<noteq> []"
    unfolding c sample_file(4,5) by (simp_all add: mounted_linv(5) kconsts BSIZE_def) (simp add: sample_inode_def kconsts)
  obtain t where t: "writei 0 (kernel_src ?d) 0 (length ?d) ?s = Ret (int (length ?d)) t"
    "content t 0 = file_put (content ?s 0) 0 ?d"
    "\<forall>o' n. o' + n < 2 ^ 32 \<longrightarrow> (\<exists>u. readi 0 kernel_dst o' n t =
        Ret (int (min n (length (content t 0) - o')), take n (drop o' (file_put (content ?s 0) 0 ?d))) u)"
    using writei_readi [OF mounted_linv(1) fresh_fs(1,3) mounted_linv(2) pre(1,2) sample_file(1,2) pre(3)
        delivers_kernel pre(4-6)] by blast
  have "file_put (content ?s 0) 0 ?d = ?d" by (simp add: file_put_def sample_file(3))
  with t(3) [rule_format, of 1 100] t(2) obtain u where "readi 0 kernel_dst 1 100 t = Ret (2, [105, 33]) u" by auto
  moreover have "content t 0 = ?d" using t(2) \<open>file_put (content ?s 0) 0 ?d = ?d\<close> by simp
  ultimately show ?thesis using t(1) by (simp add: numeral_3_eq_3)
qed

end
