(* ===== verification/Spinlock.thy ===== *)
theory Spinlock
  imports Prelude
begin

text \<open>
  The spinlocks of \<^verbatim>\<open>kernel/spinlock.c\<close> on several CPUs. A CPU is a number; \<open>sie\<close> is the interrupt
  enable bit of its status register. \<^verbatim>\<open>acquire\<close> is split at the atomic swap, which other CPUs run
  between: \<open>acquire_begin\<close> is the part before the loop, \<open>acquire_try\<close> one round of the loop with, when
  the swap finds the lock free, what follows it.
\<close>

section \<open>Definitions\<close>

record spinlock =
  sl_locked :: bool
  sl_cpu :: "nat option"

record cpu =
  noff :: int
  intena :: bool
  sie :: bool

record cpus =
  cpu_of :: "nat \<Rightarrow> cpu"
  locks :: "nat \<Rightarrow> spinlock"

definition initlock :: "spinlock" where
  "initlock = \<lparr>sl_locked = False, sl_cpu = None\<rparr>"

definition upd_cpu :: "nat \<Rightarrow> (cpu \<Rightarrow> cpu) \<Rightarrow> ('x cpus_scheme, unit) kernel" where
  "upd_cpu c f = kmod (\<lambda>s. s\<lparr>cpu_of := (cpu_of s)(c := f (cpu_of s c))\<rparr>)"

definition upd_lock :: "nat \<Rightarrow> (spinlock \<Rightarrow> spinlock) \<Rightarrow> ('x cpus_scheme, unit) kernel" where
  "upd_lock lk f = kmod (\<lambda>s. s\<lparr>locks := (locks s)(lk := f (locks s lk))\<rparr>)"

definition push_off :: "nat \<Rightarrow> ('x cpus_scheme, unit) kernel" where
  "push_off c s =
     (let old = sie (cpu_of s c) in
      kthen (upd_cpu c (\<lambda>x. x\<lparr>sie := False\<rparr>))
     (kthen (upd_cpu c (\<lambda>x. if noff x = 0 then x\<lparr>intena := old\<rparr> else x))
            (upd_cpu c (\<lambda>x. x\<lparr>noff := noff x + 1\<rparr>))) s)"

definition pop_off :: "nat \<Rightarrow> ('x cpus_scheme, unit) kernel" where
  "pop_off c s =
     (if sie (cpu_of s c) then Panic ''pop_off - interruptible''
      else if noff (cpu_of s c) < 1 then Panic ''pop_off''
      else kthen (upd_cpu c (\<lambda>x. x\<lparr>noff := noff x - 1\<rparr>))
                 (upd_cpu c (\<lambda>x. if noff x = 0 \<and> intena x then x\<lparr>sie := True\<rparr> else x)) s)"

definition holding :: "nat \<Rightarrow> nat \<Rightarrow> 'x cpus_scheme \<Rightarrow> bool" where
  "holding c lk s \<longleftrightarrow> sl_locked (locks s lk) \<and> sl_cpu (locks s lk) = Some c"

definition acquire_begin :: "nat \<Rightarrow> nat \<Rightarrow> ('x cpus_scheme, unit) kernel" where
  "acquire_begin c lk = kthen (push_off c) (\<lambda>s. if holding c lk s then Panic ''acquire'' else Ret () s)"

definition acquire_try :: "nat \<Rightarrow> nat \<Rightarrow> ('x cpus_scheme, bool) kernel" where
  "acquire_try c lk s =
     (let old = sl_locked (locks s lk) in
      kthen (upd_lock lk (\<lambda>x. x\<lparr>sl_locked := True\<rparr>))
            (if old then kret False
             else kthen (upd_lock lk (\<lambda>x. x\<lparr>sl_cpu := Some c\<rparr>)) (kret True)) s)"

text \<open>\<^verbatim>\<open>acquire\<close> when no other CPU acts meanwhile: on a lock that is taken it spins for ever.\<close>

definition acquire :: "nat \<Rightarrow> nat \<Rightarrow> ('x cpus_scheme, unit) kernel" where
  "acquire c lk =
     kthen (acquire_begin c lk)
    (kbind (acquire_try c lk) (\<lambda>got. if got then kret () else (\<lambda>s. Loop)))"

definition release :: "nat \<Rightarrow> nat \<Rightarrow> ('x cpus_scheme, unit) kernel" where
  "release c lk s =
     (if \<not> holding c lk s then Panic ''release''
      else kthen (upd_lock lk (\<lambda>x. x\<lparr>sl_cpu := None\<rparr>))
          (kthen (upd_lock lk (\<lambda>x. x\<lparr>sl_locked := False\<rparr>))
                 (pop_off c)) s)"

section \<open>CPUs that contend for locks\<close>

text \<open>
  Each CPU takes locks, in any order and nested, and releases those it holds, most recent first or
  not. \<open>want\<close> is the lock a CPU spins on, \<open>held\<close> the locks between its \<^verbatim>\<open>acquire\<close> and \<^verbatim>\<open>release\<close>.
\<close>

record locking =
  cs :: cpus
  want :: "nat \<Rightarrow> nat option"
  held :: "nat \<Rightarrow> nat set"

inductive lstep :: "locking \<Rightarrow> locking \<Rightarrow> bool" where
  begin_acquire: "want g c = None \<Longrightarrow> lk \<notin> held g c \<Longrightarrow> acquire_begin c lk (cs g) = Ret () s \<Longrightarrow>
     lstep g (g\<lparr>cs := s, want := (want g)(c := Some lk)\<rparr>)"
| spin: "want g c = Some lk \<Longrightarrow> acquire_try c lk (cs g) = Ret False s \<Longrightarrow> lstep g (g\<lparr>cs := s\<rparr>)"
| got: "want g c = Some lk \<Longrightarrow> acquire_try c lk (cs g) = Ret True s \<Longrightarrow>
     lstep g (g\<lparr>cs := s, want := (want g)(c := None), held := (held g)(c := insert lk (held g c))\<rparr>)"
| unlock: "want g c = None \<Longrightarrow> lk \<in> held g c \<Longrightarrow> release c lk (cs g) = Ret () s \<Longrightarrow>
     lstep g (g\<lparr>cs := s, held := (held g)(c := held g c - {lk})\<rparr>)"

inductive_cases lstepE: "lstep g g'"

text \<open>All locks free and no CPU inside \<^verbatim>\<open>push_off\<close>.\<close>

definition lstart :: "locking \<Rightarrow> bool" where
  "lstart g \<longleftrightarrow> (\<forall>lk. \<not> sl_locked (locks (cs g) lk)) \<and> (\<forall>c. want g c = None \<and> held g c = {} \<and> noff (cpu_of (cs g) c) = 0)"

text \<open>
  The invariant: \<open>n c\<close> is what \<^verbatim>\<open>noff\<close> has to be, and \<open>e c\<close> the interrupt enable bit that CPU \<open>c\<close> had
  before it took its first lock.
\<close>

definition depth :: "locking \<Rightarrow> nat \<Rightarrow> int" where
  "depth g c = int (card (held g c)) + (if want g c = None then 0 else 1)"

definition lock_inv :: "(nat \<Rightarrow> bool) \<Rightarrow> locking \<Rightarrow> bool" where
  "lock_inv e g \<longleftrightarrow>
     (\<forall>c lk. lk \<in> held g c \<longleftrightarrow> holding c lk (cs g)) \<and>
     (\<forall>lk. sl_locked (locks (cs g) lk) \<longrightarrow> sl_cpu (locks (cs g) lk) \<noteq> None) \<and>
     (\<forall>c. finite (held g c) \<and> (\<forall>lk. want g c = Some lk \<longrightarrow> lk \<notin> held g c) \<and>
          noff (cpu_of (cs g) c) = depth g c \<and>
          (if depth g c = 0 then sie (cpu_of (cs g) c) = e c
           else \<not> sie (cpu_of (cs g) c) \<and> intena (cpu_of (cs g) c) = e c))"

lemma lock_invD:
  assumes "lock_inv e g"
  shows "lk \<in> held g c \<longleftrightarrow> holding c lk (cs g)" "sl_locked (locks (cs g) lk) \<Longrightarrow> sl_cpu (locks (cs g) lk) \<noteq> None"
    "finite (held g c)" "want g c = Some lk \<Longrightarrow> lk \<notin> held g c" "noff (cpu_of (cs g) c) = depth g c"
    "depth g c = 0 \<Longrightarrow> sie (cpu_of (cs g) c) = e c"
    "depth g c \<noteq> 0 \<Longrightarrow> \<not> sie (cpu_of (cs g) c) \<and> intena (cpu_of (cs g) c) = e c"
  using assms unfolding lock_inv_def by (blast | metis)+

lemma push_off_eq:
  "push_off c s = Ret () (s\<lparr>cpu_of := (cpu_of s)(c :=
     \<lparr>noff = noff (cpu_of s c) + 1, intena = (if noff (cpu_of s c) = 0 then sie (cpu_of s c) else intena (cpu_of s c)), sie = False\<rparr>)\<rparr>)"
  by (cases "cpu_of s c") (simp add: push_off_def upd_cpu_def Let_def)

lemma begin_step:
  assumes inv: "lock_inv e g" and "want g c = None" "lk \<notin> held g c"
  shows "\<exists>s. acquire_begin c lk (cs g) = Ret () s \<and> lock_inv e (g\<lparr>cs := s, want := (want g)(c := Some lk)\<rparr>)"
proof -
  note d = lock_invD [OF inv]
  let ?x = "cpu_of (cs g) c"
  let ?s = "(cs g)\<lparr>cpu_of := (cpu_of (cs g))(c := \<lparr>noff = noff ?x + 1, intena = (if noff ?x = 0 then sie ?x else intena ?x), sie = False\<rparr>)\<rparr>"
  let ?g = "g\<lparr>cs := ?s, want := (want g)(c := Some lk)\<rparr>"
  have "\<not> holding c lk ?s" using d(1) [of lk c] assms(3) by (simp add: holding_def)
  then have run: "acquire_begin c lk (cs g) = Ret () ?s" by (simp add: acquire_begin_def push_off_eq)
  have dc: "depth ?g c = depth g c + 1" using assms(2) by (simp add: depth_def)
  have dn: "depth ?g c' = depth g c'" if "c' \<noteq> c" for c' using that by (simp add: depth_def)
  have pos: "0 \<le> depth g c" by (simp add: depth_def)
  have "lock_inv e ?g"
    unfolding lock_inv_def
  proof (intro conjI allI)
    fix c' lk'
    show "lk' \<in> held ?g c' \<longleftrightarrow> holding c' lk' (cs ?g)" using d(1) by (simp add: holding_def)
    show "sl_locked (locks (cs ?g) lk') \<longrightarrow> sl_cpu (locks (cs ?g) lk') \<noteq> None" using d(2) by simp
    show "finite (held ?g c')" "want ?g c' = Some lk' \<longrightarrow> lk' \<notin> held ?g c'" using d(3,4) assms(3) by auto
    show "noff (cpu_of (cs ?g) c') = depth ?g c'" using d(5) dc dn by (cases "c' = c") auto
    show "if depth ?g c' = 0 then sie (cpu_of (cs ?g) c') = e c'
        else \<not> sie (cpu_of (cs ?g) c') \<and> intena (cpu_of (cs ?g) c') = e c'"
    proof (cases "c' = c")
      case True
      then show ?thesis using dc pos d(5) [of c] d(6) [of c] d(7) [of c] by auto
    next
      case False
      then show ?thesis using dn [OF False] d(6,7) [of c'] by auto
    qed
  qed
  with run show ?thesis by blast
qed

lemma lock_invI:
  assumes "\<And>c lk. lk \<in> held g c \<longleftrightarrow> holding c lk (cs g)"
    and "\<And>lk. sl_locked (locks (cs g) lk) \<Longrightarrow> sl_cpu (locks (cs g) lk) \<noteq> None"
    and "\<And>c. finite (held g c)" and "\<And>c lk. want g c = Some lk \<Longrightarrow> lk \<notin> held g c"
    and "\<And>c. noff (cpu_of (cs g) c) = depth g c"
    and "\<And>c. if depth g c = 0 then sie (cpu_of (cs g) c) = e c else \<not> sie (cpu_of (cs g) c) \<and> intena (cpu_of (cs g) c) = e c"
  shows "lock_inv e g"
  using assms unfolding lock_inv_def by blast

lemma try_step:
  assumes inv: "lock_inv e g" and w: "want g c = Some lk"
  shows "\<exists>s. if sl_locked (locks (cs g) lk) then acquire_try c lk (cs g) = Ret False s \<and> lock_inv e (g\<lparr>cs := s\<rparr>)
     else acquire_try c lk (cs g) = Ret True s \<and>
       lock_inv e (g\<lparr>cs := s, want := (want g)(c := None), held := (held g)(c := insert lk (held g c))\<rparr>)"
proof (cases "sl_locked (locks (cs g) lk)")
  case True
  then have e: "(locks (cs g) lk)\<lparr>sl_locked := True\<rparr> = locks (cs g) lk" by simp
  have "acquire_try c lk (cs g) = Ret False (cs g)"
    using True by (simp add: acquire_try_def upd_lock_def e)
  with True inv show ?thesis by simp
next
  case False
  note d = lock_invD [OF inv]
  let ?s = "(cs g)\<lparr>locks := (locks (cs g))(lk := \<lparr>sl_locked = True, sl_cpu = Some c\<rparr>)\<rparr>"
  let ?g = "g\<lparr>cs := ?s, want := (want g)(c := None), held := (held g)(c := insert lk (held g c))\<rparr>"
  have run: "acquire_try c lk (cs g) = Ret True ?s"
    using False by (cases "locks (cs g) lk") (simp add: acquire_try_def upd_lock_def)
  have n: "lk \<notin> held g c'" for c' using d(1) [of lk c'] False by (simp add: holding_def)
  have dep: "depth ?g c' = depth g c'" for c' using w d(3) [of c] n [of c] by (simp add: depth_def)
  have "lock_inv e ?g"
  proof (rule lock_invI)
    fix c' lk'
    show "lk' \<in> held ?g c' \<longleftrightarrow> holding c' lk' (cs ?g)" using d(1) n by (auto simp: holding_def)
    show "sl_locked (locks (cs ?g) lk') \<Longrightarrow> sl_cpu (locks (cs ?g) lk') \<noteq> None" using d(2) by (simp split: if_splits)
    show "finite (held ?g c')" "want ?g c' = Some lk' \<Longrightarrow> lk' \<notin> held ?g c'" using d(3,4) by (auto split: if_splits)
    show "noff (cpu_of (cs ?g) c') = depth ?g c'"
      "if depth ?g c' = 0 then sie (cpu_of (cs ?g) c') = e c' else \<not> sie (cpu_of (cs ?g) c') \<and> intena (cpu_of (cs ?g) c') = e c'"
      unfolding dep using d(5-7) [of c'] by simp_all
  qed
  with run False show ?thesis by auto
qed

lemma release_step:
  assumes inv: "lock_inv e g" and w: "want g c = None" and h: "lk \<in> held g c"
  shows "\<exists>s. release c lk (cs g) = Ret () s \<and> lock_inv e (g\<lparr>cs := s, held := (held g)(c := held g c - {lk})\<rparr>)"
proof -
  note d = lock_invD [OF inv]
  have hl: "holding c lk (cs g)" using d(1) h by simp
  let ?x = "cpu_of (cs g) c"
  let ?y = "\<lparr>noff = noff ?x - 1, intena = intena ?x, sie = (noff ?x = 1 \<and> intena ?x)\<rparr>"
  let ?s = "(cs g)\<lparr>locks := (locks (cs g))(lk := \<lparr>sl_locked = False, sl_cpu = None\<rparr>), cpu_of := (cpu_of (cs g))(c := ?y)\<rparr>"
  let ?g = "g\<lparr>cs := ?s, held := (held g)(c := held g c - {lk})\<rparr>"
  have card: "card (held g c) = Suc (card (held g c - {lk}))" using card.remove [OF d(3) h] .
  then have pos: "1 \<le> depth g c" "depth g c \<noteq> 0" using w by (simp_all add: depth_def)
  have x: "\<not> sie ?x" "intena ?x = e c" "noff ?x = depth g c" using d(5,7) [of c] pos by simp_all
  have run: "release c lk (cs g) = Ret () ?s"
    using hl x(1,3) pos(1)
    by (cases "locks (cs g) lk"; cases "cpu_of (cs g) c"; cases "noff ?x = 1 \<and> intena ?x")
      (auto simp: release_def upd_lock_def pop_off_def upd_cpu_def)
  have dc: "depth ?g c = depth g c - 1" using w card by (simp add: depth_def)
  have dn: "depth ?g c' = depth g c'" if "c' \<noteq> c" for c' using that by (simp add: depth_def)
  have "lock_inv e ?g"
  proof (rule lock_invI)
    fix c' lk'
    have "lk \<in> held g c' \<longleftrightarrow> c' = c" using d(1) [of lk c'] hl by (auto simp: holding_def)
    then show "lk' \<in> held ?g c' \<longleftrightarrow> holding c' lk' (cs ?g)" using d(1) [of lk' c'] by (auto simp: holding_def)
    show "sl_locked (locks (cs ?g) lk') \<Longrightarrow> sl_cpu (locks (cs ?g) lk') \<noteq> None" using d(2) by (simp split: if_splits)
    show "finite (held ?g c')" "want ?g c' = Some lk' \<Longrightarrow> lk' \<notin> held ?g c'" using d(3,4) by auto
    show "noff (cpu_of (cs ?g) c') = depth ?g c'"
      "if depth ?g c' = 0 then sie (cpu_of (cs ?g) c') = e c' else \<not> sie (cpu_of (cs ?g) c') \<and> intena (cpu_of (cs ?g) c') = e c'"
      using d(5-7) [of c'] dc dn [of c'] x pos by (cases "c' = c"; simp)+
  qed
  with run show ?thesis by blast
qed

lemma lstep_inv: "lstep g g' \<Longrightarrow> lock_inv e g \<Longrightarrow> lock_inv e g'"
proof (induction rule: lstep.induct)
  case (begin_acquire g c lk s)
  from begin_step [OF begin_acquire.prems begin_acquire.hyps(1,2)] begin_acquire.hyps(3) show ?case by auto
next
  case (spin g c lk s)
  then show ?case using try_step [OF spin.prems spin.hyps(1)] by (auto split: if_splits)
next
  case (got g c lk s)
  then show ?case using try_step [OF got.prems got.hyps(1)] by (auto split: if_splits)
next
  case (unlock g c lk s)
  from release_step [OF unlock.prems unlock.hyps(1,2)] unlock.hyps(3) show ?case by auto
qed

lemma lstart_inv:
  assumes "lstart g"
  shows "lock_inv (\<lambda>c. sie (cpu_of (cs g) c)) g"
  using assms by (intro lock_invI) (simp_all add: lstart_def holding_def depth_def)

lemma reachable_inv:
  assumes "lstep\<^sup>*\<^sup>* g0 g" and "lstart g0"
  shows "lock_inv (\<lambda>c. sie (cpu_of (cs g0) c)) g"
  using assms by (induction rule: rtranclp_induct) (auto intro: lstart_inv lstep_inv)

section \<open>Property\<close>


definition sample_cpus :: locking where
  "sample_cpus = \<lparr>cs = \<lparr>cpu_of = (\<lambda>_. \<lparr>noff = 0, intena = False, sie = True\<rparr>), locks = (\<lambda>_. initlock)\<rparr>,
     want = (\<lambda>_. None), held = (\<lambda>_. {})\<rparr>"


end
