(* ===== verification/Pipe.thy ===== *)
theory Pipe
  imports Ring
begin

text \<open>
  The pipe of \<^verbatim>\<open>kernel/pipe.c\<close>. The counters are 32-bit words that run freely. User memory is a
  parameter: \<open>src i\<close> is the byte that \<^verbatim>\<open>copyin\<close> reads at \<^verbatim>\<open>addr + i\<close> (\<^const>\<open>None\<close> when it fails), and
  \<open>dst i ch\<close> says whether \<^verbatim>\<open>copyout\<close> of \<open>ch\<close> to \<^verbatim>\<open>addr + i\<close> succeeds. A caller that sleeps gives back
  the index it has reached; it continues there when it is woken.
\<close>

definition PIPESIZE :: nat where "PIPESIZE = 512"

record pipe =
  p_data :: "nat \<Rightarrow> byte"
  nread :: uint32
  nwrite :: uint32
  readopen :: bool
  writeopen :: bool

datatype pipe_result = PipeRet int | PipeSleep nat

definition pipe_full :: "pipe \<Rightarrow> bool" where
  "pipe_full pi \<longleftrightarrow> nwrite pi = nread pi + word_of_nat PIPESIZE"

definition pipe_empty :: "pipe \<Rightarrow> bool" where
  "pipe_empty pi \<longleftrightarrow> nread pi = nwrite pi"

text \<open>\<^verbatim>\<open>pi->data[pi->nwrite++ % PIPESIZE] = ch\<close> and \<^verbatim>\<open>pi->data[pi->nread++ % PIPESIZE]\<close>.\<close>

definition pipe_put :: "byte \<Rightarrow> pipe \<Rightarrow> pipe" where
  "pipe_put ch pi = pi\<lparr>p_data := (p_data pi)(unat (nwrite pi) mod PIPESIZE := ch), nwrite := nwrite pi + 1\<rparr>"

definition pipe_front :: "pipe \<Rightarrow> byte" where
  "pipe_front pi = p_data pi (unat (nread pi) mod PIPESIZE)"

definition pipe_get :: "pipe \<Rightarrow> pipe" where
  "pipe_get pi = pi\<lparr>nread := nread pi + 1\<rparr>"

text \<open>The body of \<^verbatim>\<open>pipewrite\<close> from index \<open>i\<close> with \<open>k\<close> bytes to go.\<close>

primrec pipewrite_loop ::
  "(nat \<Rightarrow> byte option) \<Rightarrow> bool \<Rightarrow> nat \<Rightarrow> nat \<Rightarrow> pipe \<Rightarrow> pipe_result \<times> pipe"
where
  "pipewrite_loop src killed i 0 pi = (PipeRet (int i), pi)"
| "pipewrite_loop src killed i (Suc k) pi =
     (if pipe_full pi
      then if \<not> readopen pi \<or> killed then (PipeRet (- 1), pi) else (PipeSleep i, pi)
      else case src i of
             None \<Rightarrow> (PipeRet (int i), pi)
           | Some ch \<Rightarrow> pipewrite_loop src killed (Suc i) k (pipe_put ch pi))"

definition pipewrite :: "(nat \<Rightarrow> byte option) \<Rightarrow> int \<Rightarrow> bool \<Rightarrow> pipe \<Rightarrow> pipe_result \<times> pipe" where
  "pipewrite src n killed pi = pipewrite_loop src killed 0 (nat n) pi"

text \<open>The copying loop of \<^verbatim>\<open>piperead\<close>; it gives back the bytes that reached user memory.\<close>

primrec piperead_loop ::
  "(nat \<Rightarrow> byte \<Rightarrow> bool) \<Rightarrow> nat \<Rightarrow> nat \<Rightarrow> pipe \<Rightarrow> int \<times> byte list \<times> pipe"
where
  "piperead_loop dst i 0 pi = (int i, [], pi)"
| "piperead_loop dst i (Suc k) pi =
     (if pipe_empty pi then (int i, [], pi)
      else let ch = pipe_front pi; pi' = pipe_get pi in
           if dst i ch
           then (case piperead_loop dst (Suc i) k pi' of (n, bs, pi'') \<Rightarrow> (n, ch # bs, pi''))
           else (int i, [], pi'))"

definition piperead ::
  "(nat \<Rightarrow> byte \<Rightarrow> bool) \<Rightarrow> int \<Rightarrow> bool \<Rightarrow> pipe \<Rightarrow> pipe_result \<times> byte list \<times> pipe"
where
  "piperead dst n killed pi =
     (if pipe_empty pi \<and> writeopen pi
      then if killed then (PipeRet (- 1), [], pi) else (PipeSleep 0, [], pi)
      else case piperead_loop dst 0 (nat n) pi of (r, bs, pi') \<Rightarrow> (PipeRet r, bs, pi'))"

text \<open>\<^verbatim>\<open>pipeclose\<close>: the second component says that the pipe's page is freed.\<close>

definition pipeclose :: "bool \<Rightarrow> pipe \<Rightarrow> pipe \<times> bool" where
  "pipeclose writable pi =
     (let pi' = (if writable then pi\<lparr>writeopen := False\<rparr> else pi\<lparr>readopen := False\<rparr>)
      in (pi', \<not> readopen pi' \<and> \<not> writeopen pi'))"

text \<open>What \<^verbatim>\<open>pipealloc\<close> makes of a fresh page whose contents are \<open>d\<close>.\<close>

definition pipe_init :: "(nat \<Rightarrow> byte) \<Rightarrow> pipe" where
  "pipe_init d = \<lparr>p_data = d, nread = 0, nwrite = 0, readopen = True, writeopen = True\<rparr>"

section \<open>The pipe as a bounded queue\<close>

definition pipe_items :: "pipe \<Rightarrow> byte list" where
  "pipe_items pi = ring_items PIPESIZE (p_data pi) (nread pi) (nwrite pi)"

definition pipe_ok :: "pipe \<Rightarrow> bool" where
  "pipe_ok pi \<longleftrightarrow> unat (nwrite pi - nread pi) \<le> PIPESIZE"

interpretation pq: bounded_fifo pipe_put pipe_get pipe_front pipe_full pipe_empty pipe_items pipe_ok PIPESIZE
proof (unfold_locales, goal_cases put get full empty cap)
  case (put s x)
  then have lt: "unat (nwrite s - nread s) < PIPESIZE"
    using ring_full_iff [of PIPESIZE "nwrite s" "nread s" "p_data s"]
    by (auto simp: pipe_ok_def pipe_full_def PIPESIZE_def)
  have "unat (nwrite s + 1 - nread s) = unat (nwrite s - nread s) + 1"
    using lt by (intro unat_Suc_diff) (simp add: PIPESIZE_def)
  with lt ring_put [of PIPESIZE "nwrite s" "nread s" "p_data s" x] show ?case
    by (simp add: pipe_items_def pipe_put_def pipe_ok_def PIPESIZE_def)
next
  case (get s)
  then have ne: "nread s \<noteq> nwrite s" by (simp add: pipe_empty_def)
  from ring_get [OF ne, of PIPESIZE "p_data s"]
  have l: "ring_items PIPESIZE (p_data s) (nread s) (nwrite s) =
     pipe_front s # ring_items PIPESIZE (p_data s) (nread s + 1) (nwrite s)"
    by (simp add: pipe_front_def)
  from arg_cong [where f = length, OF this] get(1) have "pipe_ok (pipe_get s)"
    by (simp add: pipe_ok_def pipe_get_def)
  with l show ?case by (simp add: pipe_items_def pipe_get_def)
next
  case (full s)
  then show ?case
    using ring_full_iff [of PIPESIZE "nwrite s" "nread s" "p_data s"]
    by (simp add: pipe_full_def pipe_items_def PIPESIZE_def)
next
  case (empty s)
  then show ?case by (simp add: pipe_empty_def pipe_items_def ring_empty_iff)
next
  case (cap s)
  then show ?case by (simp add: pipe_ok_def pipe_items_def)
qed

section \<open>What a write and a read do\<close>

text \<open>The bytes that a write starting at index \<open>i\<close> transfers in one go: as many as fit and are readable.\<close>

lemma pipewrite_loop_spec:
  assumes "pipe_ok pi" and "pipewrite_loop src killed i k pi = (r, pi')"
  shows "\<exists>bs. length bs \<le> k \<and> (\<forall>j<length bs. src (i + j) = Some (bs ! j)) \<and>
     pipe_ok pi' \<and> pipe_items pi' = pipe_items pi @ bs \<and>
     readopen pi' = readopen pi \<and> writeopen pi' = writeopen pi \<and>
     (r = PipeRet (int (i + length bs)) \<and> (length bs = k \<or> src (i + length bs) = None) \<or>
      r = PipeRet (- 1) \<and> pipe_full pi' \<and> (\<not> readopen pi \<or> killed) \<or>
      r = PipeSleep (i + length bs) \<and> length bs < k \<and> pipe_full pi' \<and> readopen pi \<and> \<not> killed)"
  using assms
proof (induction k arbitrary: i pi)
  case 0
  then show ?case by (intro exI [of _ "[]"]) simp
next
  case (Suc k)
  show ?case
  proof (cases "pipe_full pi \<or> src i = None")
    case True
    with Suc.prems show ?thesis by (intro exI [of _ "[]"]) (auto split: if_splits)
  next
    case False
    then obtain ch where ch: "src i = Some ch" and nf: "\<not> pipe_full pi" by auto
    note p = pq.put_law [OF Suc.prems(1) nf, of ch]
    have "pipewrite_loop src killed (Suc i) k (pipe_put ch pi) = (r, pi')"
      using Suc.prems(2) ch nf by simp
    from Suc.IH [OF conjunct2 [OF p] this] obtain bs where bs: "length bs \<le> k"
      "\<forall>j<length bs. src (Suc i + j) = Some (bs ! j)" "pipe_ok pi'"
      "pipe_items pi' = pipe_items (pipe_put ch pi) @ bs"
      "readopen pi' = readopen (pipe_put ch pi)" "writeopen pi' = writeopen (pipe_put ch pi)"
      "r = PipeRet (int (Suc i + length bs)) \<and> (length bs = k \<or> src (Suc i + length bs) = None) \<or>
       r = PipeRet (- 1) \<and> pipe_full pi' \<and> (\<not> readopen (pipe_put ch pi) \<or> killed) \<or>
       r = PipeSleep (Suc i + length bs) \<and> length bs < k \<and> pipe_full pi' \<and> readopen (pipe_put ch pi) \<and> \<not> killed"
      by blast
    have "\<forall>j<length (ch # bs). src (i + j) = Some ((ch # bs) ! j)"
      using bs(2) ch by (auto simp: less_Suc_eq_0_disj)
    with bs p show ?thesis
      by (intro exI [of _ "ch # bs"]) (auto simp: pipe_put_def)
  qed
qed

lemma piperead_loop_spec:
  assumes "pipe_ok pi" and "piperead_loop dst i k pi = (r, bs, pi')"
  shows "pipe_ok pi' \<and> r = int (i + length bs) \<and> length bs \<le> k \<and>
     (pipe_items pi = bs @ pipe_items pi' \<or> (\<exists>ch. pipe_items pi = bs @ ch # pipe_items pi' \<and> \<not> dst (i + length bs) ch)) \<and>
     (length bs = k \<or> pipe_items pi' = [] \<or> (\<exists>ch. \<not> dst (i + length bs) ch))"
  using assms
proof (induction k arbitrary: i pi bs r)
  case (Suc k)
  show ?case
  proof (cases "pipe_empty pi")
    case True
    with Suc.prems show ?thesis by (auto simp: pq.empty_law)
  next
    case False
    note g = pq.get_law [OF Suc.prems(1) False]
    show ?thesis
    proof (cases "dst i (pipe_front pi)")
      case False
      with Suc.prems g \<open>\<not> pipe_empty pi\<close> show ?thesis by (auto simp: Let_def)
    next
      case True
      then obtain bs' where "piperead_loop dst (Suc i) k (pipe_get pi) = (r, bs', pi')" "bs = pipe_front pi # bs'"
        using Suc.prems(2) False by (auto simp: Let_def split: prod.splits)
      with Suc.IH [of "pipe_get pi" "Suc i" r bs'] g show ?thesis by auto
    qed
  qed
qed auto

section \<open>Properties\<close>

text \<open>
  C15. A pipe is a first-in first-out channel of at most \<open>PIPESIZE\<close> bytes, also across wrap-around
  of the 32-bit counters: a \<^verbatim>\<open>pipewrite\<close> that starts or continues at any index appends exactly the
  next user bytes to the queue and returns, fails because the reader is gone or the writer is
  killed, or sleeps on a full pipe with the number of bytes done.
\<close>

theorem pipewrite_fifo:
  assumes "pipe_ok pi" and "pipewrite_loop src killed i k pi = (r, pi')"
  shows "\<exists>bs. length bs \<le> k \<and> (\<forall>j<length bs. src (i + j) = Some (bs ! j)) \<and>
     pipe_items pi' = pipe_items pi @ bs \<and> length (pipe_items pi') \<le> PIPESIZE \<and> pipe_ok pi' \<and>
     (r = PipeRet (int (i + length bs)) \<and> (length bs = k \<or> src (i + length bs) = None) \<or>
      r = PipeRet (- 1) \<and> length (pipe_items pi') = PIPESIZE \<and> (\<not> readopen pi \<or> killed) \<or>
      r = PipeSleep (i + length bs) \<and> length (pipe_items pi') = PIPESIZE \<and> readopen pi \<and> \<not> killed)"
  using pipewrite_loop_spec [OF assms] pq.cap_law pq.full_law by metis

theorem pipewrite_fifo_witness:
  "pipe_ok (pipe_init (\<lambda>_. 0)) \<and>
   (\<exists>pi'. pipewrite_loop (\<lambda>i. Some 65) False 0 (Suc (Suc 0)) (pipe_init (\<lambda>_. 0)) = (PipeRet 2, pi') \<and>
      pipe_items pi' = [65, 65])"
proof -
  let ?pi = "pipe_init (\<lambda>_. 0)"
  have ok: "pipe_ok ?pi" by (simp add: pipe_ok_def pipe_init_def)
  have e: "pipe_items ?pi = []" by (simp add: pipe_items_def pipe_init_def ring_items_def)
  have nf: "\<not> pipe_full ?pi" "\<not> pipe_full (pipe_put 65 ?pi)"
    by (simp_all add: pipe_full_def pipe_put_def pipe_init_def PIPESIZE_def)
  then obtain pi' where p: "pipewrite_loop (\<lambda>i. Some 65) False 0 (Suc (Suc 0)) ?pi = (PipeRet 2, pi')"
    by simp
  from pipewrite_fifo [OF ok p] obtain bs where
    "pipe_items pi' = bs" "length bs = 2" "\<forall>j<length bs. 65 = bs ! j" by (auto simp: e)
  then have "pipe_items pi' = [65, 65]"
    by (intro nth_equalityI) (auto simp: less_2_cases_iff)
  with ok p show ?thesis by blast
qed



end
