(* ===== verification/Kalloc.thy ===== *)
theory Kalloc
  imports Strings
begin

text \<open>
  The physical page allocator of \<^verbatim>\<open>kernel/kalloc.c\<close>. Physical memory is a function from addresses to
  bytes; the free list runs through the first eight bytes of the free pages. \<open>kend\<close> is the address
  \<^verbatim>\<open>end\<close> that the linker defines. Addresses are below \<open>2 ^ 64\<close>, so a pointer that is stored and read
  back is the same.
\<close>

section \<open>Definitions\<close>

definition PGSIZE :: nat where [kconsts]: "PGSIZE = 4096"
definition KERNBASE :: nat where [kconsts]: "KERNBASE = 0x80000000"
definition PHYSTOP :: nat where "PHYSTOP = KERNBASE + 128 * 1024 * 1024"

lemma PHYSTOP_val [kconsts]: "PHYSTOP = 2281701376"
  by (simp add: PHYSTOP_def KERNBASE_def)

definition PGROUNDUP :: "nat \<Rightarrow> nat" where
  "PGROUNDUP sz = (sz + PGSIZE - 1) div PGSIZE * PGSIZE"

definition PGROUNDDOWN :: "nat \<Rightarrow> nat" where
  "PGROUNDDOWN a = a div PGSIZE * PGSIZE"

record kmem =
  pmem :: mem
  freelist :: nat
  kend :: nat

definition kfree :: "nat \<Rightarrow> ('x kmem_scheme, unit) kernel" where
  "kfree pa s =
     (if pa mod PGSIZE \<noteq> 0 \<or> pa < kend s \<or> pa \<ge> PHYSTOP then Panic ''kfree''
      else Ret () (s\<lparr>pmem := wr64 pa (freelist s) (memset pa 1 0 PGSIZE (pmem s)), freelist := pa\<rparr>))"

definition kalloc :: "('x kmem_scheme, nat) kernel" where
  "kalloc s =
     (let r = freelist s in
      if r \<noteq> 0
      then Ret r (s\<lparr>freelist := rd64 (pmem s) r, pmem := memset r 5 0 PGSIZE (pmem s)\<rparr>)
      else Ret 0 s)"

text \<open>The loop of \<^verbatim>\<open>freerange\<close> runs as long as a whole page fits below \<open>pa_end\<close>.\<close>

definition freerange :: "nat \<Rightarrow> nat \<Rightarrow> ('x kmem_scheme, unit) kernel" where
  "freerange pa_start pa_end =
     (let p = PGROUNDUP pa_start in kfor 0 ((pa_end - p) div PGSIZE) (\<lambda>i. kfree (p + i * PGSIZE)))"

definition kinit :: "('x kmem_scheme, unit) kernel" where
  "kinit s = freerange (kend s) PHYSTOP s"

section \<open>The interface of a page allocator\<close>

text \<open>A sequence of allocations and of releases of a page that is held, by its position among those held.\<close>

datatype page_op = Alloc | Free nat

fun page_run ::
  "('s, nat) kernel \<Rightarrow> (nat \<Rightarrow> ('s, unit) kernel) \<Rightarrow> page_op list \<Rightarrow> nat list \<Rightarrow> ('s, nat list) kernel"
where
  "page_run alloc free [] held = kret held"
| "page_run alloc free (Alloc # ops) held =
     kbind alloc (\<lambda>r. page_run alloc free ops (if r = 0 then held else r # held))"
| "page_run alloc free (Free i # ops) held =
     (if i < length held
      then kthen (free (held ! i)) (page_run alloc free ops (take i held @ drop (Suc i) held))
      else page_run alloc free ops held)"

locale page_allocator =
  fixes alloc :: "('s, nat) kernel" and free :: "nat \<Rightarrow> ('s, unit) kernel"
    and avail :: "'s \<Rightarrow> nat list \<Rightarrow> bool" and page :: "'s \<Rightarrow> nat \<Rightarrow> bool"
  assumes alloc_none: "avail s [] \<Longrightarrow> alloc s = Ret 0 s"
    and alloc_some: "avail s (x # xs) \<Longrightarrow> \<exists>t. alloc s = Ret x t \<and> avail t xs \<and> page t = page s"
    and free_page: "avail s xs \<Longrightarrow> page s x \<Longrightarrow> x \<notin> set xs \<Longrightarrow> \<exists>t. free x s = Ret () t \<and> avail t (x # xs) \<and> page t = page s"
    and avail_pages: "avail s xs \<Longrightarrow> distinct xs \<and> (\<forall>x\<in>set xs. page s x \<and> x \<noteq> 0)"
begin

text \<open>No page is held twice or both held and free, and none gets lost.\<close>

lemma run_exclusive:
  assumes "avail s xs" and "distinct (held @ xs)" and "\<forall>x\<in>set held. page s x"
  shows "\<exists>held' t ys. page_run alloc free ops held s = Ret held' t \<and> avail t ys \<and> distinct (held' @ ys) \<and>
     (\<forall>x\<in>set held'. page t x) \<and> set (held' @ ys) = set (held @ xs) \<and> page t = page s"
  using assms
proof (induction ops arbitrary: s xs held)
  case Nil
  then show ?case by auto
next
  case (Cons op ops)
  show ?case
  proof (cases op)
    case Alloc
    show ?thesis
    proof (cases xs)
      case Nil
      then show ?thesis using alloc_none Cons.IH [OF Cons.prems] Cons.prems(1) Alloc by simp
    next
      case (Cons x ys)
      obtain t where t: "alloc s = Ret x t" "avail t ys" "page t = page s"
        using alloc_some Cons.prems(1) Cons by blast
      have x: "page s x" "x \<noteq> 0" using avail_pages [OF Cons.prems(1)] Cons by auto
      have "distinct ((x # held) @ ys)" "\<forall>z\<in>set (x # held). page t z" "set ((x # held) @ ys) = set (held @ xs)"
        using Cons.prems(2,3) Cons t(3) x(1) by auto
      with Cons.IH [OF t(2), of "x # held"] t x(2) Alloc show ?thesis by simp
    qed
  next
    case (Free i)
    show ?thesis
    proof (cases "i < length held")
      case False
      then show ?thesis using Cons.IH [OF Cons.prems] Free by simp
    next
      case True
      let ?held = "take i held @ drop (Suc i) held"
      have h: "held = take i held @ held ! i # drop (Suc i) held" by (rule id_take_nth_drop [OF True])
      obtain as x bs where as: "held = as @ x # bs" "?held = as @ bs" "held ! i = x"
        using h by blast
      have d: "held ! i \<notin> set xs" "distinct (?held @ held ! i # xs)" "set (?held @ held ! i # xs) = set (held @ xs)"
        using Cons.prems(2) unfolding as(2,3) unfolding as(1) by auto
      obtain t where t: "free (held ! i) s = Ret () t" "avail t (held ! i # xs)" "page t = page s"
        using free_page [OF Cons.prems(1) _ d(1)] Cons.prems(3) True by (meson nth_mem)
      have "\<forall>z\<in>set ?held. page t z" using Cons.prems(3) t(3) by (auto dest: in_set_takeD in_set_dropD)
      with Cons.IH [OF t(2) d(2)] t(1,3) d(3) Free True show ?thesis by simp
    qed
  qed
qed

end

section \<open>The free list\<close>

primrec flist :: "mem \<Rightarrow> nat \<Rightarrow> nat list \<Rightarrow> bool" where
  "flist m p [] \<longleftrightarrow> p = 0"
| "flist m p (x # xs) \<longleftrightarrow> p = x \<and> x \<noteq> 0 \<and> flist m (rd64 m x) xs"

definition kpage :: "'x kmem_scheme \<Rightarrow> nat \<Rightarrow> bool" where
  "kpage s x \<longleftrightarrow> x mod PGSIZE = 0 \<and> kend s \<le> x \<and> x < PHYSTOP"

definition kmem_ok :: "'x kmem_scheme \<Rightarrow> nat list \<Rightarrow> bool" where
  "kmem_ok s xs \<longleftrightarrow> flist (pmem s) (freelist s) xs \<and> distinct xs \<and> (\<forall>x\<in>set xs. kpage s x) \<and> 0 < kend s"

lemma flist_agree:
  assumes "\<And>x k. x \<in> set xs \<Longrightarrow> x \<le> k \<Longrightarrow> k < x + 8 \<Longrightarrow> m' k = m k"
  shows "flist m' p xs = flist m p xs"
  using assms
proof (induction xs arbitrary: p)
  case (Cons x xs)
  have "rd64 m' x = rd64 m x" by (rule rd64_cong) (use Cons.prems [of x] in simp)
  moreover have "flist m' (rd64 m x) xs = flist m (rd64 m x) xs" by (rule Cons.IH) (use Cons.prems in auto)
  ultimately show ?case by simp
qed simp

lemma pages_apart:
  assumes "x mod PGSIZE = 0" "y mod PGSIZE = 0" "x \<noteq> (y :: nat)"
  shows "x + PGSIZE \<le> y \<or> y + PGSIZE \<le> x"
proof -
  obtain i j where "x = PGSIZE * i" "y = PGSIZE * j" using assms(1,2) by (metis dvdE mod_eq_0_iff_dvd)
  moreover from this assms(3) have "Suc i \<le> j \<or> Suc j \<le> i" by auto
  ultimately show ?thesis by (metis add.commute mult_Suc_right mult_le_mono2)
qed

lemma memset_page_other:
  assumes "x mod PGSIZE = 0" "y mod PGSIZE = 0" "x \<noteq> y" "y \<le> k" "k < y + PGSIZE"
  shows "memset x c 0 PGSIZE m k = m k"
  using pages_apart [OF assms(1-3)] assms(4,5) by (auto simp: memset_eq)

lemma kalloc_Cons:
  assumes "kmem_ok s (x # xs)"
  shows "kalloc s = Ret x (s\<lparr>freelist := rd64 (pmem s) x, pmem := memset x 5 0 PGSIZE (pmem s)\<rparr>)"
    and "kmem_ok (s\<lparr>freelist := rd64 (pmem s) x, pmem := memset x 5 0 PGSIZE (pmem s)\<rparr>) xs"
proof -
  have f: "freelist s = x" "x \<noteq> 0" "flist (pmem s) (rd64 (pmem s) x) xs" "distinct (x # xs)" "0 < kend s"
    and p: "\<And>y. y \<in> set (x # xs) \<Longrightarrow> kpage s y"
    using assms by (auto simp: kmem_ok_def)
  then show "kalloc s = Ret x (s\<lparr>freelist := rd64 (pmem s) x, pmem := memset x 5 0 PGSIZE (pmem s)\<rparr>)"
    by (simp add: kalloc_def)
  have "flist (memset x 5 0 PGSIZE (pmem s)) (rd64 (pmem s) x) xs = flist (pmem s) (rd64 (pmem s) x) xs"
  proof (rule flist_agree)
    fix y k assume y: "y \<in> set xs" "y \<le> k" "k < y + 8"
    then have "x \<noteq> y" "k < y + PGSIZE" using f(4) by (auto simp: kconsts)
    then show "memset x 5 0 PGSIZE (pmem s) k = pmem s k"
      using p [of x] p [of y] y by (intro memset_page_other [of x y]) (simp_all add: kpage_def)
  qed
  with f p show "kmem_ok (s\<lparr>freelist := rd64 (pmem s) x, pmem := memset x 5 0 PGSIZE (pmem s)\<rparr>) xs"
    by (simp add: kmem_ok_def kpage_def)
qed

lemma kfree_page:
  assumes ok: "kmem_ok s xs" and x: "kpage s x" "x \<notin> set xs"
  shows "\<exists>t. kfree x s = Ret () t \<and> kmem_ok t (x # xs) \<and> kend t = kend s"
proof -
  let ?m = "wr64 x (freelist s) (memset x 1 0 PGSIZE (pmem s))"
  let ?t = "s\<lparr>pmem := ?m, freelist := x\<rparr>"
  have f: "flist (pmem s) (freelist s) xs" "distinct xs" "0 < kend s" and p: "\<And>y. y \<in> set xs \<Longrightarrow> kpage s y"
    using ok by (auto simp: kmem_ok_def)
  have run: "kfree x s = Ret () ?t" using x(1) by (simp add: kfree_def kpage_def)
  have "freelist s < 18446744073709551616"
    using f(1) p [of "freelist s"] by (cases xs) (auto simp: kpage_def kconsts)
  then have r: "rd64 ?m x = freelist s" by simp
  have "flist ?m (freelist s) xs = flist (pmem s) (freelist s) xs"
  proof (rule flist_agree)
    fix y k assume y: "y \<in> set xs" "y \<le> k" "k < y + 8"
    then have ne: "x \<noteq> y" "k < y + PGSIZE" using x(2) by (auto simp: kconsts)
    have "memset x 1 0 PGSIZE (pmem s) k = pmem s k"
      using x(1) p [of y] y ne by (intro memset_page_other [of x y]) (simp_all add: kpage_def)
    moreover have "k < x \<or> x + 8 \<le> k"
      using pages_apart [of x y] x(1) p [OF y(1)] ne y by (auto simp: kpage_def kconsts)
    ultimately show "?m k = pmem s k" by simp
  qed
  with f p x r have "kmem_ok ?t (x # xs)" by (auto simp: kmem_ok_def kpage_def)
  with run show ?thesis by auto
qed

interpretation pga: page_allocator kalloc kfree kmem_ok kpage
proof (unfold_locales, goal_cases none some free pages)
  case (none s)
  then show ?case by (simp add: kmem_ok_def kalloc_def)
next
  case (some s x xs)
  show ?case using kalloc_Cons [OF some] by (intro exI conjI) (assumption | simp add: kpage_def fun_eq_iff)+
next
  case (free s xs x)
  then show ?case using kfree_page [OF free] by (auto simp: kpage_def fun_eq_iff)
next
  case (pages s xs)
  then show ?case by (auto simp: kmem_ok_def kpage_def)
qed

lemma PGROUNDUP_least: "PGROUNDUP a mod PGSIZE = 0" "a \<le> PGROUNDUP a" "x mod PGSIZE = 0 \<Longrightarrow> a \<le> x \<Longrightarrow> PGROUNDUP a \<le> x"
proof -
  show "PGROUNDUP a mod PGSIZE = 0" by (simp add: PGROUNDUP_def)
  have m: "(a + PGSIZE - 1) mod PGSIZE < PGSIZE" by (simp add: kconsts)
  show "a \<le> PGROUNDUP a"
    using div_mult_mod_eq [of "a + PGSIZE - 1" PGSIZE] m unfolding PGROUNDUP_def by linarith
  show "PGROUNDUP a \<le> x" if x: "x mod PGSIZE = 0" "a \<le> x"
  proof -
    have "(a + PGSIZE - 1) div PGSIZE \<le> (x + (PGSIZE - 1)) div PGSIZE" using x(2) by (intro div_le_mono) simp
    also have "\<dots> = x div PGSIZE" using x(1) by (auto simp: mod_eq_0_iff_dvd kconsts elim: dvdE)
    finally show ?thesis using x(1) unfolding PGROUNDUP_def by (metis mod_eq_0_iff_dvd dvd_div_mult_self mult_le_mono1)
  qed
qed

lemma freerange_ok:
  assumes "kmem_ok s []" and "kend s \<le> p" "p mod PGSIZE = 0" "p + n * PGSIZE \<le> PHYSTOP"
  shows "\<exists>t. kfor 0 n (\<lambda>i. kfree (p + i * PGSIZE)) s = Ret () t \<and>
     kmem_ok t (rev (map (\<lambda>i. p + i * PGSIZE) [0..<n])) \<and> kend t = kend s"
proof -
  let ?I = "\<lambda>i t. kmem_ok t (rev (map (\<lambda>i. p + i * PGSIZE) [0..<i])) \<and> kend t = kend s"
  have step: "returns (?I i) (kfree (p + i * PGSIZE)) (\<lambda>_. ?I (Suc i))" if "i < n" for i
  proof (rule returnsI)
    fix t assume t: "?I i t"
    have "p + i * PGSIZE + PGSIZE \<le> p + n * PGSIZE" using that by (simp add: kconsts)
    then have "kpage t (p + i * PGSIZE)" using t assms by (auto simp: kpage_def kconsts)
    moreover have "p + i * PGSIZE \<notin> set (rev (map (\<lambda>i. p + i * PGSIZE) [0..<i]))" by (auto simp: kconsts)
    ultimately show "\<exists>a u. kfree (p + i * PGSIZE) t = Ret a u \<and> ?I (Suc i) u"
      using kfree_page t by fastforce
  qed
  have "returns (?I 0) (kfor 0 n (\<lambda>i. kfree (p + i * PGSIZE))) (\<lambda>_. ?I (0 + n))"
    by (rule returns_kfor) (use step in auto)
  then show ?thesis using assms(1) by (auto simp: returns_def)
qed

lemma kinit_ok:
  assumes "0 < kend s" "kend s \<le> PHYSTOP" "freelist s = 0"
  shows "\<exists>t xs. kinit s = Ret () t \<and> kmem_ok t xs \<and> kend t = kend s \<and> (\<forall>x. x \<in> set xs \<longleftrightarrow> kpage s x)"
proof -
  let ?p = "PGROUNDUP (kend s)" and ?n = "(PHYSTOP - PGROUNDUP (kend s)) div PGSIZE"
  have top: "PHYSTOP mod PGSIZE = 0" by (simp add: kconsts)
  have p: "?p \<le> PHYSTOP" by (rule PGROUNDUP_least(3) [OF top assms(2)])
  have "PGSIZE dvd PHYSTOP - ?p" using top PGROUNDUP_least(1) p by (simp add: dvd_diff_nat mod_eq_0_iff_dvd)
  then have n: "?p + ?n * PGSIZE = PHYSTOP" using p by simp
  have ok: "kmem_ok s []" using assms by (simp add: kmem_ok_def)
  obtain t where t: "kfor 0 ?n (\<lambda>i. kfree (?p + i * PGSIZE)) s = Ret () t"
    "kmem_ok t (rev (map (\<lambda>i. ?p + i * PGSIZE) [0..<?n]))" "kend t = kend s"
    using freerange_ok [OF ok PGROUNDUP_least(2,1)] n by (metis order_refl)
  have "x \<in> set (rev (map (\<lambda>i. ?p + i * PGSIZE) [0..<?n])) \<longleftrightarrow> kpage s x" for x
  proof
    assume "x \<in> set (rev (map (\<lambda>i. ?p + i * PGSIZE) [0..<?n]))"
    with t(2,3) show "kpage s x" by (auto simp: kmem_ok_def kpage_def)
  next
    assume x: "kpage s x"
    then have px: "?p \<le> x" using PGROUNDUP_least(3) by (simp add: kpage_def)
    have "PGSIZE dvd x - ?p" using x PGROUNDUP_least(1) px by (simp add: kpage_def dvd_diff_nat mod_eq_0_iff_dvd)
    then obtain i where i: "x - ?p = PGSIZE * i" by blast
    with px have xi: "x = ?p + i * PGSIZE" by (metis le_add_diff_inverse mult.commute)
    moreover have "x < PHYSTOP" using x by (simp add: kpage_def)
    ultimately have "i * PGSIZE < ?n * PGSIZE" using n by linarith
    then have "i < ?n" by simp
    then show "x \<in> set (rev (map (\<lambda>i. ?p + i * PGSIZE) [0..<?n]))" using xi by auto
  qed
  with t show ?thesis by (auto simp: kinit_def freerange_def Let_def)
qed

section \<open>Property\<close>

text \<open>
  C26. After \<^verbatim>\<open>kinit\<close> every sequence of \<^verbatim>\<open>kalloc\<close> and of \<^verbatim>\<open>kfree\<close> of pages obtained from it returns without
  panic; at its end no page is held twice or both held and free, and the pages held and free are
  exactly the page-aligned addresses between \<^verbatim>\<open>end\<close> and \<^verbatim>\<open>PHYSTOP\<close>. So \<^verbatim>\<open>kalloc\<close> never gives out a page
  that is in use, no page is lost, and it returns zero only when all are held.
\<close>

theorem kalloc_exclusive:
  assumes "0 < kend s" "kend s \<le> PHYSTOP" "freelist s = 0"
  shows "\<exists>s0 held t xs. kinit s = Ret () s0 \<and> page_run kalloc kfree ops [] s0 = Ret held t \<and>
     kmem_ok t xs \<and> distinct (held @ xs) \<and> (\<forall>x. x \<in> set (held @ xs) \<longleftrightarrow> kpage s x) \<and>
     (xs = [] \<longleftrightarrow> (\<exists>u. kalloc t = Ret 0 u))"
proof -
  obtain s0 ys where s0: "kinit s = Ret () s0" "kmem_ok s0 ys" "kend s0 = kend s" "\<forall>x. x \<in> set ys \<longleftrightarrow> kpage s x"
    using kinit_ok [OF assms] by blast
  have d: "distinct ([] @ ys)" using s0(2) by (simp add: kmem_ok_def)
  obtain held t xs where t: "page_run kalloc kfree ops [] s0 = Ret held t" "kmem_ok t xs" "distinct (held @ xs)"
    "set (held @ xs) = set ([] @ ys)"
    using pga.run_exclusive [OF s0(2) d, of ops] by auto
  have "xs = [] \<longleftrightarrow> (\<exists>u. kalloc t = Ret 0 u)"
    using t(2) by (cases xs) (auto simp: kmem_ok_def kalloc_def Let_def)
  with t s0 show ?thesis by (metis append_Nil)
qed

theorem kalloc_exclusive_witness:
  "\<exists>s0 held t xs. kinit \<lparr>pmem = (\<lambda>_. 0), freelist = 0, kend = PHYSTOP - 5000\<rparr> = Ret () s0 \<and>
     page_run kalloc kfree [Alloc, Alloc, Free 0, Alloc] [] s0 = Ret held t \<and> kmem_ok t xs \<and> distinct (held @ xs) \<and>
     PHYSTOP - 4096 \<in> set (held @ xs)"
proof -
  let ?s = "\<lparr>pmem = (\<lambda>_. 0), freelist = 0, kend = PHYSTOP - 5000\<rparr>"
  have "kpage ?s (PHYSTOP - 4096)" by (simp add: kpage_def kconsts)
  moreover have "0 < kend ?s" "kend ?s \<le> PHYSTOP" "freelist ?s = 0" by (simp_all add: kconsts)
  ultimately show ?thesis
    using kalloc_exclusive [of ?s "[Alloc, Alloc, Free 0, Alloc]"] by blast
qed

end
