(* ===== verification/Vm.thy ===== *)
theory Vm
  imports Kalloc
begin

unbundle bit_operations_syntax

text \<open>
  Page tables, \<^verbatim>\<open>kernel/vm.c\<close>. A page table is the physical address of its root page; its entries
  are 64-bit numbers in physical memory. A pointer to an entry is its address, a null pointer is
  \<^const>\<open>None\<close>. The kernel runs with physical memory mapped at its own addresses, so a kernel pointer
  to a page is its physical address. Buffers of the kernel that are not pages are byte lists: a copy
  to the user takes the bytes, a copy from the user gives the bytes stored so far together with the
  result. \<open>etext\<close> and \<open>trampoline\<close> are the linker's symbols.
\<close>

section \<open>Constants\<close>

definition PTE_V :: nat where "PTE_V = push_bit 0 1"
definition PTE_R :: nat where "PTE_R = push_bit 1 1"
definition PTE_W :: nat where "PTE_W = push_bit 2 1"
definition PTE_X :: nat where "PTE_X = push_bit 3 1"
definition PTE_U :: nat where "PTE_U = push_bit 4 1"

definition PA2PTE :: "nat \<Rightarrow> nat" where "PA2PTE pa = push_bit 10 (drop_bit 12 pa)"
definition PTE2PA :: "nat \<Rightarrow> nat" where "PTE2PA pte = push_bit 12 (drop_bit 10 pte)"
definition PTE_FLAGS :: "nat \<Rightarrow> nat" where "PTE_FLAGS pte = pte AND 0x3FF"

definition PXSHIFT :: "nat \<Rightarrow> nat" where "PXSHIFT level = 12 + 9 * level"
definition PX :: "nat \<Rightarrow> nat \<Rightarrow> nat" where "PX level va = drop_bit (PXSHIFT level) va AND 0x1FF"

definition MAXVA :: nat where "MAXVA = push_bit (9 + 9 + 9 + 12 - 1) 1"
definition MAKE_SATP :: "nat \<Rightarrow> nat" where "MAKE_SATP pt = push_bit 60 8 OR drop_bit 12 pt"

definition UART0 :: nat where "UART0 = 0x10000000"
definition VIRTIO0 :: nat where "VIRTIO0 = 0x10001000"
definition CLINT :: nat where "CLINT = 0x2000000"
definition PLIC :: nat where "PLIC = 0x0c000000"
definition TRAMPOLINE :: nat where "TRAMPOLINE = MAXVA - PGSIZE"
definition TRAPFRAME :: nat where "TRAPFRAME = TRAMPOLINE - PGSIZE"
definition KSTACK :: "nat \<Rightarrow> nat" where "KSTACK p = TRAMPOLINE - (p + 1) * 2 * PGSIZE"

record vmem = kmem +
  kernel_pagetable :: nat
  satp :: nat
  etext :: nat
  trampoline :: nat

definition rd_pte :: "nat \<Rightarrow> 'x kmem_scheme \<Rightarrow> nat" where
  "rd_pte pte s = rd64 (pmem s) pte"

definition wr_pte :: "nat \<Rightarrow> nat \<Rightarrow> ('x kmem_scheme, unit) kernel" where
  "wr_pte pte v = kmod (\<lambda>s. s\<lparr>pmem := wr64 pte v (pmem s)\<rparr>)"

definition memset_page :: "nat \<Rightarrow> byte \<Rightarrow> ('x kmem_scheme, unit) kernel" where
  "memset_page pa c = kmod (\<lambda>s. s\<lparr>pmem := memset pa c 0 PGSIZE (pmem s)\<rparr>)"

section \<open>Walking and mapping\<close>

primrec walk_loop :: "nat \<Rightarrow> nat \<Rightarrow> nat \<Rightarrow> bool \<Rightarrow> ('x kmem_scheme, nat option) kernel" where
  "walk_loop 0 pagetable va alloc = kret (Some (pagetable + 8 * PX 0 va))"
| "walk_loop (Suc l) pagetable va alloc =
     (\<lambda>s. let pte = pagetable + 8 * PX (Suc l) va in
          if rd_pte pte s AND PTE_V \<noteq> 0 then walk_loop l (PTE2PA (rd_pte pte s)) va alloc s
          else if \<not> alloc then Ret None s
          else kbind kalloc (\<lambda>pagetable.
                 if pagetable = 0 then kret None
                 else kthen (memset_page pagetable 0)
                     (kthen (wr_pte pte (PA2PTE pagetable OR PTE_V))
                            (walk_loop l pagetable va alloc))) s)"

definition walk :: "nat \<Rightarrow> nat \<Rightarrow> bool \<Rightarrow> ('x kmem_scheme, nat option) kernel" where
  "walk pagetable va alloc =
     (if va \<ge> MAXVA then kpanic ''walk'' else walk_loop 2 pagetable va alloc)"

definition walkaddr :: "nat \<Rightarrow> nat \<Rightarrow> ('x kmem_scheme, nat) kernel" where
  "walkaddr pagetable va =
     (if va \<ge> MAXVA then kret 0
      else kbind (walk pagetable va False) (\<lambda>pte.
             case pte of
               None \<Rightarrow> kret 0
             | Some pte \<Rightarrow>
                 (\<lambda>s. if rd_pte pte s AND PTE_V = 0 then Ret 0 s
                      else if rd_pte pte s AND PTE_U = 0 then Ret 0 s
                      else Ret (PTE2PA (rd_pte pte s)) s)))"

text \<open>
  The loop of \<^verbatim>\<open>mappages\<close> ends at the page \<open>last\<close>. It does not get past \<^verbatim>\<open>MAXVA\<close>, where \<^verbatim>\<open>walk\<close> panics,
  so \<open>MAXVA div PGSIZE + 1\<close> rounds are enough; \<open>va + size - 1\<close> wraps around at 64 bits.
\<close>

primrec mappages_loop :: "nat \<Rightarrow> nat \<Rightarrow> nat \<Rightarrow> nat \<Rightarrow> nat \<Rightarrow> nat \<Rightarrow> ('x kmem_scheme, int) kernel" where
  "mappages_loop 0 pagetable a last' pa perm = (\<lambda>s. Loop)"
| "mappages_loop (Suc k) pagetable a last' pa perm =
     kbind (walk pagetable a True) (\<lambda>pte.
       case pte of
         None \<Rightarrow> kret (- 1)
       | Some pte \<Rightarrow>
           (\<lambda>s. if rd_pte pte s AND PTE_V \<noteq> 0 then Panic ''remap''
                else kthen (wr_pte pte (PA2PTE pa OR perm OR PTE_V))
                           (if a = last' then kret 0
                            else mappages_loop k pagetable (a + PGSIZE) last' (pa + PGSIZE) perm) s))"

definition mappages :: "nat \<Rightarrow> nat \<Rightarrow> nat \<Rightarrow> nat \<Rightarrow> nat \<Rightarrow> ('x kmem_scheme, int) kernel" where
  "mappages pagetable va sz pa perm =
     mappages_loop (Suc (MAXVA div PGSIZE)) pagetable (PGROUNDDOWN va)
       (PGROUNDDOWN ((va + sz + (2 ^ 64 - 1)) mod 2 ^ 64)) pa perm"

definition kvmmap :: "nat \<Rightarrow> nat \<Rightarrow> nat \<Rightarrow> nat \<Rightarrow> ('x vmem_scheme, unit) kernel" where
  "kvmmap va pa sz perm s =
     kbind (mappages (kernel_pagetable s) va sz pa perm) (\<lambda>r. if r \<noteq> 0 then kpanic ''kvmmap'' else kret ()) s"

definition kvminit :: "('x vmem_scheme, unit) kernel" where
  "kvminit =
     kbind kalloc (\<lambda>pt.
     kthen (kmod (\<lambda>s. s\<lparr>kernel_pagetable := pt\<rparr>))
    (kthen (memset_page pt 0)
    (kthen (kvmmap UART0 UART0 PGSIZE (PTE_R OR PTE_W))
    (kthen (kvmmap VIRTIO0 VIRTIO0 PGSIZE (PTE_R OR PTE_W))
    (kthen (kvmmap CLINT CLINT 0x10000 (PTE_R OR PTE_W))
    (kthen (kvmmap PLIC PLIC 0x400000 (PTE_R OR PTE_W))
    (kthen (\<lambda>s. kvmmap KERNBASE KERNBASE (etext s - KERNBASE) (PTE_R OR PTE_X) s)
    (kthen (\<lambda>s. kvmmap (etext s) (etext s) (PHYSTOP - etext s) (PTE_R OR PTE_W) s)
           (\<lambda>s. kvmmap TRAMPOLINE (trampoline s) PGSIZE (PTE_R OR PTE_X) s)))))))))"

definition kvminithart :: "'x vmem_scheme \<Rightarrow> 'x vmem_scheme" where
  "kvminithart s = s\<lparr>satp := MAKE_SATP (kernel_pagetable s)\<rparr>"

definition kvmpa :: "nat \<Rightarrow> ('x vmem_scheme, nat) kernel" where
  "kvmpa va s =
     kbind (walk (kernel_pagetable s) va False) (\<lambda>pte.
       case pte of
         None \<Rightarrow> kpanic ''kvmpa''
       | Some pte \<Rightarrow>
           (\<lambda>s. if rd_pte pte s AND PTE_V = 0 then Panic ''kvmpa''
                else Ret (PTE2PA (rd_pte pte s) + va mod PGSIZE) s)) s"

section \<open>User memory\<close>

definition uvmunmap_page :: "nat \<Rightarrow> bool \<Rightarrow> nat \<Rightarrow> ('x kmem_scheme, unit) kernel" where
  "uvmunmap_page pagetable do_free a =
     kbind (walk pagetable a False) (\<lambda>pte.
       case pte of
         None \<Rightarrow> kpanic ''uvmunmap: walk''
       | Some pte \<Rightarrow>
           (\<lambda>s. if rd_pte pte s AND PTE_V = 0 then Panic ''uvmunmap: not mapped''
                else if PTE_FLAGS (rd_pte pte s) = PTE_V then Panic ''uvmunmap: not a leaf''
                else kthen (kwhen do_free (kfree (PTE2PA (rd_pte pte s)))) (wr_pte pte 0) s))"

definition uvmunmap :: "nat \<Rightarrow> nat \<Rightarrow> nat \<Rightarrow> bool \<Rightarrow> ('x kmem_scheme, unit) kernel" where
  "uvmunmap pagetable va npages do_free =
     (if va mod PGSIZE \<noteq> 0 then kpanic ''uvmunmap: not aligned''
      else kfor 0 npages (\<lambda>i. uvmunmap_page pagetable do_free (va + i * PGSIZE)))"

definition uvmcreate :: "('x kmem_scheme, nat) kernel" where
  "uvmcreate =
     kbind kalloc (\<lambda>pagetable.
       if pagetable = 0 then kret 0
       else kthen (memset_page pagetable 0) (kret pagetable))"

text \<open>\<^verbatim>\<open>uvminit\<close> ignores the result of \<^verbatim>\<open>mappages\<close>; \<open>src\<close> is the code of the first process.\<close>

definition uvminit :: "nat \<Rightarrow> byte list \<Rightarrow> ('x kmem_scheme, unit) kernel" where
  "uvminit pagetable src =
     (if length src \<ge> PGSIZE then kpanic ''inituvm: more than a page''
      else kbind kalloc (\<lambda>pg.
           kthen (memset_page pg 0)
          (kthen (mappages pagetable 0 PGSIZE pg (PTE_W OR PTE_R OR PTE_X OR PTE_U))
                 (kmod (\<lambda>s. s\<lparr>pmem := put_bytes pg src (pmem s)\<rparr>)))))"

definition uvmdealloc :: "nat \<Rightarrow> nat \<Rightarrow> nat \<Rightarrow> ('x kmem_scheme, nat) kernel" where
  "uvmdealloc pagetable oldsz newsz =
     (if newsz \<ge> oldsz then kret oldsz
      else kthen (kwhen (PGROUNDUP newsz < PGROUNDUP oldsz)
                   (uvmunmap pagetable (PGROUNDUP newsz) ((PGROUNDUP oldsz - PGROUNDUP newsz) div PGSIZE) True))
                 (kret newsz))"

text \<open>The loop of \<^verbatim>\<open>uvmalloc\<close> at address \<open>a\<close>; one page per round.\<close>

primrec uvmalloc_loop :: "nat \<Rightarrow> nat \<Rightarrow> nat \<Rightarrow> nat \<Rightarrow> nat \<Rightarrow> ('x kmem_scheme, nat) kernel" where
  "uvmalloc_loop 0 pagetable oldsz newsz a = (if a < newsz then (\<lambda>s. Loop) else kret newsz)"
| "uvmalloc_loop (Suc k) pagetable oldsz newsz a =
     (if a < newsz
      then kbind kalloc (\<lambda>pg.
             if pg = 0 then kthen (uvmdealloc pagetable a oldsz) (kret 0)
             else kthen (memset_page pg 0)
                 (kbind (mappages pagetable a PGSIZE pg (PTE_W OR PTE_X OR PTE_R OR PTE_U)) (\<lambda>r.
                    if r \<noteq> 0 then kthen (kfree pg) (kthen (uvmdealloc pagetable a oldsz) (kret 0))
                    else uvmalloc_loop k pagetable oldsz newsz (a + PGSIZE))))
      else kret newsz)"

definition uvmalloc :: "nat \<Rightarrow> nat \<Rightarrow> nat \<Rightarrow> ('x kmem_scheme, nat) kernel" where
  "uvmalloc pagetable oldsz newsz =
     (if newsz < oldsz then kret oldsz
      else uvmalloc_loop (Suc (newsz div PGSIZE)) pagetable (PGROUNDUP oldsz) newsz (PGROUNDUP oldsz))"

text \<open>\<^verbatim>\<open>freewalk\<close> recurses over the levels; a table has three.\<close>

primrec freewalk :: "nat \<Rightarrow> nat \<Rightarrow> ('x kmem_scheme, unit) kernel" where
  "freewalk 0 pagetable = (\<lambda>s. Loop)"
| "freewalk (Suc k) pagetable =
     kthen (kfor 0 512 (\<lambda>i s.
              let pte = rd_pte (pagetable + 8 * i) s in
              if pte AND PTE_V \<noteq> 0 \<and> pte AND (PTE_R OR PTE_W OR PTE_X) = 0
              then kthen (freewalk k (PTE2PA pte)) (wr_pte (pagetable + 8 * i) 0) s
              else if pte AND PTE_V \<noteq> 0 then Panic ''freewalk: leaf''
              else Ret () s))
           (kfree pagetable)"

definition uvmfree :: "nat \<Rightarrow> nat \<Rightarrow> ('x kmem_scheme, unit) kernel" where
  "uvmfree pagetable sz =
     kthen (kwhen (sz > 0) (uvmunmap pagetable 0 (PGROUNDUP sz div PGSIZE) True))
           (freewalk 3 pagetable)"

primrec uvmcopy_loop :: "nat \<Rightarrow> nat \<Rightarrow> nat \<Rightarrow> nat \<Rightarrow> nat \<Rightarrow> ('x kmem_scheme, int) kernel" where
  "uvmcopy_loop 0 old new sz i = (if i < sz then (\<lambda>s. Loop) else kret 0)"
| "uvmcopy_loop (Suc k) old new sz i =
     (if i < sz
      then kbind (walk old i False) (\<lambda>pte.
             case pte of
               None \<Rightarrow> kpanic ''uvmcopy: pte should exist''
             | Some pte \<Rightarrow>
                 (\<lambda>s. let e = rd_pte pte s in
                      if e AND PTE_V = 0 then Panic ''uvmcopy: page not present''
                      else kbind kalloc (\<lambda>pg.
                             if pg = 0 then kthen (uvmunmap new 0 (i div PGSIZE) True) (kret (- 1))
                             else kthen (kmod (\<lambda>s. s\<lparr>pmem := memmove pg (PTE2PA e) PGSIZE (pmem s)\<rparr>))
                                 (kbind (mappages new i PGSIZE pg (PTE_FLAGS e)) (\<lambda>r.
                                    if r \<noteq> 0
                                    then kthen (kfree pg) (kthen (uvmunmap new 0 (i div PGSIZE) True) (kret (- 1)))
                                    else uvmcopy_loop k old new sz (i + PGSIZE)))) s))
      else kret 0)"

definition uvmcopy :: "nat \<Rightarrow> nat \<Rightarrow> nat \<Rightarrow> ('x kmem_scheme, int) kernel" where
  "uvmcopy old new sz = uvmcopy_loop (Suc (sz div PGSIZE)) old new sz 0"

definition uvmclear :: "nat \<Rightarrow> nat \<Rightarrow> ('x kmem_scheme, unit) kernel" where
  "uvmclear pagetable va =
     kbind (walk pagetable va False) (\<lambda>pte.
       case pte of
         None \<Rightarrow> kpanic ''uvmclear''
       | Some pte \<Rightarrow> (\<lambda>s. wr_pte pte (rd_pte pte s AND (0xFFFFFFFFFFFFFFFF - PTE_U)) s))"

section \<open>Copying\<close>

text \<open>
  Every round of \<^verbatim>\<open>copyout\<close> and \<^verbatim>\<open>copyin\<close> moves at least one byte, so as many rounds as bytes are enough.
  Addresses of \<^verbatim>\<open>MAXVA\<close> and above fail in \<^verbatim>\<open>walkaddr\<close>, so none wraps around.
\<close>

primrec copyout_loop :: "nat \<Rightarrow> nat \<Rightarrow> nat \<Rightarrow> byte list \<Rightarrow> ('x kmem_scheme, int) kernel" where
  "copyout_loop 0 pagetable dstva src = (if src \<noteq> [] then (\<lambda>s. Loop) else kret 0)"
| "copyout_loop (Suc k) pagetable dstva src =
     (if src \<noteq> []
      then let va0 = PGROUNDDOWN dstva in
           kbind (walkaddr pagetable va0) (\<lambda>pa0.
             if pa0 = 0 then kret (- 1)
             else let n = min (PGSIZE - (dstva - va0)) (length src) in
                  kthen (kmod (\<lambda>s. s\<lparr>pmem := put_bytes (pa0 + (dstva - va0)) (take n src) (pmem s)\<rparr>))
                        (copyout_loop k pagetable (va0 + PGSIZE) (drop n src)))
      else kret 0)"

definition copyout :: "nat \<Rightarrow> nat \<Rightarrow> byte list \<Rightarrow> ('x kmem_scheme, int) kernel" where
  "copyout pagetable dstva src = copyout_loop (length src) pagetable dstva src"

primrec copyin_loop :: "nat \<Rightarrow> nat \<Rightarrow> byte list \<Rightarrow> nat \<Rightarrow> nat \<Rightarrow> ('x kmem_scheme, int \<times> byte list) kernel" where
  "copyin_loop 0 pagetable dst srcva len = (if len > 0 then (\<lambda>s. Loop) else kret (0, dst))"
| "copyin_loop (Suc k) pagetable dst srcva len =
     (if len > 0
      then let va0 = PGROUNDDOWN srcva in
           kbind (walkaddr pagetable va0) (\<lambda>pa0.
             if pa0 = 0 then kret (- 1, dst)
             else let n = min (PGSIZE - (srcva - va0)) len in
                  (\<lambda>s. copyin_loop k pagetable (dst @ get_bytes (pmem s) (pa0 + (srcva - va0)) n) (va0 + PGSIZE) (len - n) s))
      else kret (0, dst))"

definition copyin :: "nat \<Rightarrow> nat \<Rightarrow> nat \<Rightarrow> ('x kmem_scheme, int \<times> byte list) kernel" where
  "copyin pagetable srcva len = copyin_loop len pagetable [] srcva len"

text \<open>The inner loop of \<^verbatim>\<open>copyinstr\<close> copies up to a zero byte, or all \<open>n\<close> bytes when there is none.\<close>

primrec copyinstr_loop :: "nat \<Rightarrow> nat \<Rightarrow> byte list \<Rightarrow> nat \<Rightarrow> nat \<Rightarrow> ('x kmem_scheme, int \<times> byte list) kernel" where
  "copyinstr_loop 0 pagetable dst srcva mx = (if mx > 0 then (\<lambda>s. Loop) else kret (- 1, dst))"
| "copyinstr_loop (Suc k) pagetable dst srcva mx =
     (if mx > 0
      then let va0 = PGROUNDDOWN srcva in
           kbind (walkaddr pagetable va0) (\<lambda>pa0.
             if pa0 = 0 then kret (- 1, dst)
             else let n = min (PGSIZE - (srcva - va0)) mx in
                  (\<lambda>s. let bs = get_bytes (pmem s) (pa0 + (srcva - va0)) n in
                       if 0 \<in> set bs then Ret (0, dst @ takeWhile (\<lambda>b. b \<noteq> 0) bs @ [0]) s
                       else copyinstr_loop k pagetable (dst @ bs) (va0 + PGSIZE) (mx - n) s))
      else kret (- 1, dst))"

definition copyinstr :: "nat \<Rightarrow> nat \<Rightarrow> nat \<Rightarrow> ('x kmem_scheme, int \<times> byte list) kernel" where
  "copyinstr pagetable srcva mx = copyinstr_loop mx pagetable [] srcva mx"

end
