(* ===== verification/File.thy ===== *)
theory File
  imports Fs Pipe Vm
begin

text \<open>
  The open-file layer, \<^verbatim>\<open>kernel/file.c\<close> and \<^verbatim>\<open>pipealloc\<close> of \<^verbatim>\<open>kernel/pipe.c\<close>. \<open>ostate\<close> adds to the file
  system the table of open files, the pipes (by the address of their page), the descriptors
  \<^verbatim>\<open>myproc()->ofile\<close> and \<^verbatim>\<open>myproc()->killed\<close> of the calling process, and physical memory. A
  \<^verbatim>\<open>struct file *\<close> is an index into the table. Copies to and from the user are arguments, as in
  \<open>readi\<close> and \<open>writei\<close>; a read gives back the bytes it delivered. The device switch is an argument:
  the functions that \<^verbatim>\<open>consoleinit\<close> and its like have installed.
\<close>

definition NOFILE :: nat where [kconsts]: "NOFILE = 16"
definition NFILE :: nat where [kconsts]: "NFILE = 100"
definition NDEV :: nat where [kconsts]: "NDEV = 10"

datatype ftype = FD_NONE | FD_PIPE | FD_INODE | FD_DEVICE

record kfile =
  f_type :: ftype
  f_ref :: int
  f_readable :: bool
  f_writable :: bool
  f_pipe :: nat
  f_ip :: nat
  f_off :: nat
  f_major :: "16 word"

record ostate = fstate +
  ftable :: "nat \<Rightarrow> kfile"
  ofile :: "nat \<Rightarrow> nat option"
  pipes :: "nat \<Rightarrow> pipe"
  killed :: bool
  vm :: vmem

type_synonym ('s) devread = "(nat \<Rightarrow> byte list \<Rightarrow> bool) \<Rightarrow> int \<Rightarrow> ('s, int \<times> byte list) kernel"
type_synonym ('s) devwrite = "(nat \<Rightarrow> nat \<Rightarrow> byte list \<times> bool) \<Rightarrow> int \<Rightarrow> ('s, int) kernel"

record 's devsw =
  dev_read :: "(nat \<Rightarrow> 's devread option)"
  dev_write :: "(nat \<Rightarrow> 's devwrite option)"

text \<open>An operation on physical memory.\<close>

definition on_vm :: "(vmem, 'a) kernel \<Rightarrow> ('x ostate_scheme, 'a) kernel" where
  "on_vm m s =
     (case m (vm s) of Ret a v \<Rightarrow> Ret a (s\<lparr>vm := v\<rparr>) | Panic e \<Rightarrow> Panic e | Sleep c \<Rightarrow> Sleep c | Loop \<Rightarrow> Loop)"

definition upd_file :: "nat \<Rightarrow> (kfile \<Rightarrow> kfile) \<Rightarrow> ('x ostate_scheme, unit) kernel" where
  "upd_file f g = kmod (\<lambda>s. s\<lparr>ftable := (ftable s)(f := g (ftable s f))\<rparr>)"

section \<open>The table of open files\<close>

primrec filealloc_scan :: "(nat \<Rightarrow> kfile) \<Rightarrow> nat \<Rightarrow> nat \<Rightarrow> nat option" where
  "filealloc_scan ft f 0 = None"
| "filealloc_scan ft f (Suc k) = (if f_ref (ft f) = 0 then Some f else filealloc_scan ft (Suc f) k)"

definition filealloc :: "('x ostate_scheme, nat option) kernel" where
  "filealloc s =
     (case filealloc_scan (ftable s) 0 NFILE of
        Some f \<Rightarrow> kthen (upd_file f (\<lambda>x. x\<lparr>f_ref := 1\<rparr>)) (kret (Some f)) s
      | None \<Rightarrow> Ret None s)"

definition filedup :: "nat \<Rightarrow> ('x ostate_scheme, nat) kernel" where
  "filedup f s =
     (if f_ref (ftable s f) < 1 then Panic ''filedup''
      else kthen (upd_file f (\<lambda>x. x\<lparr>f_ref := f_ref x + 1\<rparr>)) (kret f) s)"

definition pipeclose_at :: "nat \<Rightarrow> bool \<Rightarrow> ('x ostate_scheme, unit) kernel" where
  "pipeclose_at pi writable s =
     (case pipeclose writable (pipes s pi) of
        (p, freed) \<Rightarrow> kthen (kmod (\<lambda>s. s\<lparr>pipes := (pipes s)(pi := p)\<rparr>)) (kwhen freed (on_vm (kfree pi))) s)"

definition fileclose :: "nat \<Rightarrow> ('x ostate_scheme, unit) kernel" where
  "fileclose f s =
     (if f_ref (ftable s f) < 1 then Panic ''fileclose''
      else if f_ref (ftable s f) - 1 > 0 then upd_file f (\<lambda>x. x\<lparr>f_ref := f_ref x - 1\<rparr>) s
      else let ff = ftable s f in
           kthen (upd_file f (\<lambda>x. x\<lparr>f_ref := 0, f_type := FD_NONE\<rparr>))
                 (if f_type ff = FD_PIPE then pipeclose_at (f_pipe ff) (f_writable ff)
                  else if f_type ff = FD_INODE \<or> f_type ff = FD_DEVICE
                  then kthen begin_op (kthen (iput (f_ip ff)) end_op)
                  else kret ()) s)"

text \<open>\<^verbatim>\<open>filestat\<close>: \<open>ok\<close> says whether the copy of the \<^verbatim>\<open>struct stat\<close> to the user succeeds.\<close>

definition filestat :: "nat \<Rightarrow> bool \<Rightarrow> ('x ostate_scheme, int \<times> stat option) kernel" where
  "filestat f ok s =
     (let x = ftable s f in
      if f_type x = FD_INODE \<or> f_type x = FD_DEVICE
      then kthen (ilock (f_ip x))
          (kbind (kget (\<lambda>s. stati (icache s (f_ip x)))) (\<lambda>st.
           kthen (iunlock (f_ip x))
                 (if \<not> ok then kret (- 1, None) else kret (0, Some st)))) s
      else Ret (- 1, None) s)"

section \<open>Reading and writing\<close>

definition pipe_outcome :: "pipe_result \<times> 'b \<Rightarrow> pipe \<Rightarrow> nat \<Rightarrow> (int \<Rightarrow> 'b \<Rightarrow> 'a) \<Rightarrow> ('x ostate_scheme, 'a) kernel" where
  "pipe_outcome r p pi g s =
     (case r of
        (PipeRet n, bs) \<Rightarrow> Ret (g n bs) (s\<lparr>pipes := (pipes s)(pi := p)\<rparr>)
      | (PipeSleep i, bs) \<Rightarrow> Sleep ''pipe'')"

text \<open>\<^verbatim>\<open>piperead\<close> and \<^verbatim>\<open>pipewrite\<close> on the pipe at an address, with the copies of whole chunks.\<close>

definition piperead_at :: "nat \<Rightarrow> (nat \<Rightarrow> byte list \<Rightarrow> bool) \<Rightarrow> int \<Rightarrow> ('x ostate_scheme, int \<times> byte list) kernel" where
  "piperead_at pi out n s =
     (case piperead (\<lambda>i ch. out i [ch]) n (killed s) (pipes s pi) of
        (r, bs, p) \<Rightarrow> pipe_outcome (r, bs) p pi (\<lambda>n bs. (n, bs)) s)"

definition pipewrite_at :: "nat \<Rightarrow> (nat \<Rightarrow> nat \<Rightarrow> byte list \<times> bool) \<Rightarrow> int \<Rightarrow> ('x ostate_scheme, int) kernel" where
  "pipewrite_at pi src n s =
     (case pipewrite (\<lambda>i. if snd (src i 1) then Some (hd (fst (src i 1))) else None) n (killed s) (pipes s pi) of
        (r, p) \<Rightarrow> pipe_outcome (r, ()) p pi (\<lambda>n _. n) s)"

definition fileread ::
  "'x ostate_scheme devsw \<Rightarrow> nat \<Rightarrow> (nat \<Rightarrow> byte list \<Rightarrow> bool) \<Rightarrow> int \<Rightarrow> ('x ostate_scheme, int \<times> byte list) kernel"
where
  "fileread devs f out n s =
     (let x = ftable s f in
      if \<not> f_readable x then Ret (- 1, []) s
      else case f_type x of
        FD_PIPE \<Rightarrow> piperead_at (f_pipe x) out n s
      | FD_DEVICE \<Rightarrow>
          (if sint (f_major x) < 0 \<or> sint (f_major x) \<ge> int NDEV then Ret (- 1, []) s
           else case dev_read devs (unat (f_major x)) of
                  None \<Rightarrow> Ret (- 1, []) s
                | Some rd \<Rightarrow> rd out n s)
      | FD_INODE \<Rightarrow>
          kthen (ilock (f_ip x))
         (kbind (readi (f_ip x) out (f_off x) (nat (n mod 2 ^ 32))) (\<lambda>(r, bs).
          kthen (kwhen (r > 0) (upd_file f (\<lambda>y. y\<lparr>f_off := f_off y + nat r\<rparr>)))
         (kthen (iunlock (f_ip x))
                (kret (r, bs))))) s
      | FD_NONE \<Rightarrow> Panic ''fileread'')"

text \<open>
  The loop of \<^verbatim>\<open>filewrite\<close>, with its result \<open>i\<close>: each round is a transaction that writes at least one
  byte, so \<open>n\<close> rounds are enough.
\<close>

definition max_write :: nat where
  "max_write = (MAXOPBLOCKS - 1 - 1 - 2) div 2 * BSIZE"

primrec filewrite_loop ::
  "nat \<Rightarrow> nat \<Rightarrow> (nat \<Rightarrow> nat \<Rightarrow> byte list \<times> bool) \<Rightarrow> nat \<Rightarrow> nat \<Rightarrow> ('x ostate_scheme, nat) kernel"
where
  "filewrite_loop 0 f src n i s = (if i < n then Loop else Ret i s)"
| "filewrite_loop (Suc k) f src n i s =
     (if i < n
      then let n1 = min (n - i) max_write in
           kthen begin_op
          (kthen (\<lambda>s. ilock (f_ip (ftable s f)) s)
          (kbind (\<lambda>s. writei (f_ip (ftable s f)) (\<lambda>tot m. src (i + tot) m) (f_off (ftable s f)) n1 s) (\<lambda>r.
           kthen (kwhen (r > 0) (upd_file f (\<lambda>y. y\<lparr>f_off := f_off y + nat r\<rparr>)))
          (kthen (\<lambda>s. iunlock (f_ip (ftable s f)) s)
          (kthen end_op
                 (if r < 0 then kret i
                  else if r \<noteq> int n1 then kpanic ''short filewrite''
                  else filewrite_loop k f src n (i + nat r))))))) s
      else Ret i s)"

definition filewrite ::
  "'x ostate_scheme devsw \<Rightarrow> nat \<Rightarrow> (nat \<Rightarrow> nat \<Rightarrow> byte list \<times> bool) \<Rightarrow> int \<Rightarrow> ('x ostate_scheme, int) kernel"
where
  "filewrite devs f src n s =
     (let x = ftable s f in
      if \<not> f_writable x then Ret (- 1) s
      else case f_type x of
        FD_PIPE \<Rightarrow> pipewrite_at (f_pipe x) src n s
      | FD_DEVICE \<Rightarrow>
          (if sint (f_major x) < 0 \<or> sint (f_major x) \<ge> int NDEV then Ret (- 1) s
           else case dev_write devs (unat (f_major x)) of
                  None \<Rightarrow> Ret (- 1) s
                | Some wr \<Rightarrow> wr src n s)
      | FD_INODE \<Rightarrow>
          kbind (filewrite_loop (nat n) f src (nat n) 0) (\<lambda>i. kret (if int i = n then n else - 1)) s
      | FD_NONE \<Rightarrow> Panic ''filewrite'')"

section \<open>Pipes\<close>

text \<open>
  \<^verbatim>\<open>pipealloc\<close>; the data array follows the 24 bytes of the spinlock in the page. On failure the file
  structures obtained so far are closed.
\<close>

definition pipealloc_bad :: "nat option \<Rightarrow> nat option \<Rightarrow> ('x ostate_scheme, (nat \<times> nat) option) kernel" where
  "pipealloc_bad f0 f1 =
     kthen (case f0 of Some f \<Rightarrow> fileclose f | None \<Rightarrow> kret ())
    (kthen (case f1 of Some f \<Rightarrow> fileclose f | None \<Rightarrow> kret ())
           (kret None))"

definition pipealloc :: "('x ostate_scheme, (nat \<times> nat) option) kernel" where
  "pipealloc =
     kbind filealloc (\<lambda>f0.
       case f0 of
         None \<Rightarrow> pipealloc_bad None None
       | Some rfd \<Rightarrow>
           kbind filealloc (\<lambda>f1.
             case f1 of
               None \<Rightarrow> pipealloc_bad (Some rfd) None
             | Some wfd \<Rightarrow>
                 kbind (on_vm kalloc) (\<lambda>pi.
                   if pi = 0 then pipealloc_bad (Some rfd) (Some wfd)
                   else kthen (kmod (\<lambda>s. s\<lparr>pipes := (pipes s)(pi := pipe_init (\<lambda>i. pmem (vm s) (pi + 24 + i)))\<rparr>))
                       (kthen (upd_file rfd (\<lambda>x. x\<lparr>f_type := FD_PIPE, f_readable := True, f_writable := False, f_pipe := pi\<rparr>))
                       (kthen (upd_file wfd (\<lambda>x. x\<lparr>f_type := FD_PIPE, f_readable := False, f_writable := True, f_pipe := pi\<rparr>))
                              (kret (Some (rfd, wfd))))))))"

end
