(* ===== verification/Proc.thy ===== *)
theory Proc
  imports File
begin

unbundle bit_operations_syntax

text \<open>
  Processes, \<^verbatim>\<open>kernel/proc.c\<close>. \<open>pstate\<close> adds the process table to the state of the file layer; a
  \<^verbatim>\<open>struct proc *\<close> is an index into the table. The process that runs is \<open>cur\<close>; its pid, open files,
  current directory and kill flag are the fields \<open>mypid\<close>, \<open>ofile\<close>, \<open>cwd\<close> and \<open>killed\<close> of the state,
  which \<open>swtch_in\<close> loads and \<open>swtch_out\<close> saves. The locks of the table make each operation one step.
  \<open>forkret_pc\<close> is the address of \<^verbatim>\<open>forkret\<close>.
\<close>

section \<open>The process table\<close>

definition NPROC :: nat where [kconsts]: "NPROC = 64"

datatype procstate = UNUSED | SLEEPING | RUNNABLE | RUNNING | ZOMBIE

text \<open>What processes sleep on: a process structure, or the address of something else.\<close>

datatype chan = ChProc nat | ChAddr nat

record kcontext =
  c_ra :: nat
  c_sp :: nat
  c_s :: "nat \<Rightarrow> nat"

record proc =
  p_state :: procstate
  p_parent :: "nat option"
  p_chan :: "chan option"
  p_killed :: bool
  p_xstate :: int
  p_pid :: int
  p_kstack :: nat
  p_sz :: nat
  p_pagetable :: nat
  p_trapframe :: nat
  p_context :: kcontext
  p_ofile :: "nat \<Rightarrow> nat option"
  p_cwd :: nat
  p_name :: "nat \<Rightarrow> byte"

record pstate = ostate +
  procs :: "nat \<Rightarrow> proc"
  cur :: nat
  nextpid :: int
  initproc :: nat
  fs_first :: bool
  forkret_pc :: nat

definition upd_proc :: "nat \<Rightarrow> (proc \<Rightarrow> proc) \<Rightarrow> ('x pstate_scheme, unit) kernel" where
  "upd_proc i f = kmod (\<lambda>s. s\<lparr>procs := (procs s)(i := f (procs s i))\<rparr>)"

definition procinit :: "('x pstate_scheme, unit) kernel" where
  "procinit =
     kthen (kfor 0 NPROC (\<lambda>i.
              kbind (on_vm kalloc) (\<lambda>pa.
                if pa = 0 then kpanic ''kalloc''
                else kthen (on_vm (kvmmap (KSTACK i) pa PGSIZE (PTE_R OR PTE_W)))
                           (upd_proc i (\<lambda>p. p\<lparr>p_kstack := KSTACK i\<rparr>)))))
           (kmod (\<lambda>s. s\<lparr>vm := kvminithart (vm s)\<rparr>))"

text \<open>\<^verbatim>\<open>nextpid\<close> is an \<^verbatim>\<open>int\<close>: it wraps around after \<open>2 ^ 31\<close> processes.\<close>

definition allocpid :: "('x pstate_scheme, int) kernel" where
  "allocpid s = Ret (nextpid s) (s\<lparr>nextpid := sint (word_of_int (nextpid s + 1) :: 32 word)\<rparr>)"

definition proc_pagetable :: "nat \<Rightarrow> ('x pstate_scheme, nat) kernel" where
  "proc_pagetable i =
     kbind (on_vm uvmcreate) (\<lambda>pagetable.
       if pagetable = 0 then kret 0
       else kbind (\<lambda>s. on_vm (mappages pagetable TRAMPOLINE PGSIZE (trampoline (vm s)) (PTE_R OR PTE_X)) s) (\<lambda>r.
         if r < 0 then kthen (on_vm (uvmfree pagetable 0)) (kret 0)
         else kbind (\<lambda>s. on_vm (mappages pagetable TRAPFRAME PGSIZE (p_trapframe (procs s i)) (PTE_R OR PTE_W)) s) (\<lambda>r.
           if r < 0
           then kthen (on_vm (uvmunmap pagetable TRAMPOLINE 1 False))
               (kthen (on_vm (uvmfree pagetable 0))
                      (kret 0))
           else kret pagetable)))"

definition proc_freepagetable :: "nat \<Rightarrow> nat \<Rightarrow> (vmem, unit) kernel" where
  "proc_freepagetable pagetable sz =
     kthen (uvmunmap pagetable TRAMPOLINE 1 False)
    (kthen (uvmunmap pagetable TRAPFRAME 1 False)
           (uvmfree pagetable sz))"

definition freeproc :: "nat \<Rightarrow> ('x pstate_scheme, unit) kernel" where
  "freeproc i =
     kthen (\<lambda>s. if p_trapframe (procs s i) \<noteq> 0 then on_vm (kfree (p_trapframe (procs s i))) s else Ret () s)
    (kthen (upd_proc i (\<lambda>p. p\<lparr>p_trapframe := 0\<rparr>))
    (kthen (\<lambda>s. if p_pagetable (procs s i) \<noteq> 0
                then on_vm (proc_freepagetable (p_pagetable (procs s i)) (p_sz (procs s i))) s else Ret () s)
           (upd_proc i (\<lambda>p. p\<lparr>p_pagetable := 0, p_sz := 0, p_pid := 0, p_parent := None, p_name := (p_name p)(0 := 0),
              p_chan := None, p_killed := False, p_xstate := 0, p_state := UNUSED\<rparr>))))"

primrec unused_scan :: "(nat \<Rightarrow> proc) \<Rightarrow> nat \<Rightarrow> nat \<Rightarrow> nat option" where
  "unused_scan ps i 0 = None"
| "unused_scan ps i (Suc k) = (if p_state (ps i) = UNUSED then Some i else unused_scan ps (Suc i) k)"

definition allocproc :: "('x pstate_scheme, nat option) kernel" where
  "allocproc s =
     (case unused_scan (procs s) 0 NPROC of
        None \<Rightarrow> Ret None s
      | Some i \<Rightarrow>
          kbind allocpid (\<lambda>pid.
          kthen (upd_proc i (\<lambda>p. p\<lparr>p_pid := pid\<rparr>))
         (kbind (on_vm kalloc) (\<lambda>tf.
          kthen (upd_proc i (\<lambda>p. p\<lparr>p_trapframe := tf\<rparr>))
            (if tf = 0 then kret None
             else kbind (proc_pagetable i) (\<lambda>pt.
                  kthen (upd_proc i (\<lambda>p. p\<lparr>p_pagetable := pt\<rparr>))
                    (if pt = 0 then kthen (freeproc i) (kret None)
                     else kthen (\<lambda>s. upd_proc i (\<lambda>p. p\<lparr>p_context :=
                                  \<lparr>c_ra = forkret_pc s, c_sp = p_kstack p + PGSIZE, c_s = (\<lambda>_. 0)\<rparr>\<rparr>) s)
                                (kret (Some i)))))))) s)"

text \<open>
  \<^verbatim>\<open>safestrcpy(dst, src, n)\<close> between two name arrays, with \<open>dst\<close> at address 0 and \<open>src\<close> at 16.
\<close>

definition name_copy :: "(nat \<Rightarrow> byte) \<Rightarrow> (nat \<Rightarrow> byte) \<Rightarrow> nat \<Rightarrow> byte" where
  "name_copy dst src = safestrcpy 0 16 16 (\<lambda>a. if a < 16 then dst a else src (a - 16))"

text \<open>Fields of a trap frame, a page in physical memory.\<close>

definition tf_epc :: nat where "tf_epc = 24"
definition tf_sp :: nat where "tf_sp = 48"
definition tf_a :: "nat \<Rightarrow> nat" where "tf_a n = 112 + 8 * n"
definition tf_size :: nat where "tf_size = 288"

definition wr_tf :: "nat \<Rightarrow> nat \<Rightarrow> nat \<Rightarrow> ('x pstate_scheme, unit) kernel" where
  "wr_tf tf off v = on_vm (kmod (\<lambda>m. m\<lparr>pmem := wr64 (tf + off) v (pmem m)\<rparr>))"

definition initcode :: "byte list" where
  "initcode =
     [0x17, 0x05, 0x00, 0x00, 0x13, 0x05, 0x45, 0x02, 0x97,
      0x05, 0x00, 0x00, 0x93, 0x85, 0x35, 0x02, 0x93, 0x08,
      0x70, 0x00, 0x73, 0x00, 0x00, 0x00, 0x93, 0x08, 0x20,
      0x00, 0x73, 0x00, 0x00, 0x00, 0xef, 0xf0, 0x9f, 0xff,
      0x2f, 0x69, 0x6e, 0x69, 0x74, 0x00, 0x00, 0x24, 0x00,
      0x00, 0x00, 0x00, 0x00, 0x00, 0x00, 0x00]"

text \<open>
  \<^verbatim>\<open>userinit\<close>; it uses the result of \<^verbatim>\<open>allocproc\<close> without a check, which at boot is a process. The
  string \<^verbatim>\<open>"initcode"\<close> is given by its bytes.
\<close>

definition userinit :: "nat \<Rightarrow> ('x pstate_scheme, unit) kernel" where
  "userinit fuel =
     kbind allocproc (\<lambda>r.
       case r of
         None \<Rightarrow> kpanic ''null process''
       | Some i \<Rightarrow>
           kthen (kmod (\<lambda>s. s\<lparr>initproc := i\<rparr>))
          (kthen (\<lambda>s. on_vm (uvminit (p_pagetable (procs s i)) initcode) s)
          (kthen (upd_proc i (\<lambda>p. p\<lparr>p_sz := PGSIZE\<rparr>))
          (kthen (\<lambda>s. wr_tf (p_trapframe (procs s i)) tf_epc 0 s)
          (kthen (\<lambda>s. wr_tf (p_trapframe (procs s i)) tf_sp PGSIZE s)
          (kthen (upd_proc i (\<lambda>p. p\<lparr>p_name :=
                    name_copy (p_name p) (put_bytes 0 [105, 110, 105, 116, 99, 111, 100, 101] (\<lambda>_. 0))\<rparr>))
          (kbind (namei fuel [SLASH]) (\<lambda>ip.
             (case ip of
                None \<Rightarrow> kpanic ''null cwd''
              | Some ip \<Rightarrow> kthen (upd_proc i (\<lambda>p. p\<lparr>p_cwd := ip\<rparr>)) (upd_proc i (\<lambda>p. p\<lparr>p_state := RUNNABLE\<rparr>)))))))))))"

text \<open>\<^verbatim>\<open>growproc\<close> keeps the size in a \<^verbatim>\<open>uint\<close>, so the sum with \<open>n\<close> is taken modulo \<open>2 ^ 32\<close>.\<close>

definition growproc :: "int \<Rightarrow> ('x pstate_scheme, int) kernel" where
  "growproc n s =
     (let p = procs s (cur s);
          sz = p_sz p mod 2 ^ 32;
          new = nat ((int sz + n) mod 2 ^ 32)
      in if n > 0
         then kbind (on_vm (uvmalloc (p_pagetable p) sz new)) (\<lambda>sz.
                if sz mod 2 ^ 32 = 0 then kret (- 1)
                else kthen (\<lambda>s. upd_proc (cur s) (\<lambda>p. p\<lparr>p_sz := sz mod 2 ^ 32\<rparr>) s) (kret 0)) s
         else if n < 0
         then kbind (on_vm (uvmdealloc (p_pagetable p) sz new)) (\<lambda>sz.
                kthen (\<lambda>s. upd_proc (cur s) (\<lambda>p. p\<lparr>p_sz := sz mod 2 ^ 32\<rparr>) s) (kret 0)) s
         else kthen (\<lambda>s. upd_proc (cur s) (\<lambda>p. p\<lparr>p_sz := sz\<rparr>) s) (kret 0) s)"

section \<open>Fork, exit, wait\<close>

definition fork_files :: "nat \<Rightarrow> nat \<Rightarrow> ('x pstate_scheme, unit) kernel" where
  "fork_files np i s =
     (case ofile s i of
        None \<Rightarrow> Ret () s
      | Some f \<Rightarrow> kbind (filedup f) (\<lambda>f. upd_proc np (\<lambda>p. p\<lparr>p_ofile := (p_ofile p)(i := Some f)\<rparr>)) s)"

text \<open>\<^verbatim>\<open>fork\<close> once \<^verbatim>\<open>allocproc\<close> has found the entry \<open>np\<close>.\<close>

definition fork_child :: "nat \<Rightarrow> ('x pstate_scheme, int) kernel" where
  "fork_child np =
     kbind (\<lambda>s. on_vm (uvmcopy (p_pagetable (procs s (cur s))) (p_pagetable (procs s np)) (p_sz (procs s (cur s)))) s) (\<lambda>r.
       if r < 0 then kthen (freeproc np) (kret (- 1))
       else kthen (\<lambda>s. upd_proc np (\<lambda>p. p\<lparr>p_sz := p_sz (procs s (cur s)), p_parent := Some (cur s)\<rparr>) s)
           (kthen (\<lambda>s. on_vm (kmod (\<lambda>m. m\<lparr>pmem := memmove (p_trapframe (procs s np)) (p_trapframe (procs s (cur s))) tf_size (pmem m)\<rparr>)) s)
           (kthen (\<lambda>s. wr_tf (p_trapframe (procs s np)) (tf_a 0) 0 s)
           (kthen (kfor 0 NOFILE (fork_files np))
           (kbind (\<lambda>s. idup (cwd s) s) (\<lambda>ip.
            kthen (upd_proc np (\<lambda>p. p\<lparr>p_cwd := ip\<rparr>))
           (kthen (\<lambda>s. upd_proc np (\<lambda>p. p\<lparr>p_name := name_copy (p_name p) (p_name (procs s (cur s)))\<rparr>) s)
           (kbind (kget (\<lambda>s. p_pid (procs s np))) (\<lambda>pid.
            kthen (upd_proc np (\<lambda>p. p\<lparr>p_state := RUNNABLE\<rparr>))
                  (kret pid))))))))))"

definition fork :: "('x pstate_scheme, int) kernel" where
  "fork =
     kbind allocproc (\<lambda>r.
       case r of
         None \<Rightarrow> kret (- 1)
       | Some np \<Rightarrow> fork_child np)"

definition reparent :: "nat \<Rightarrow> 'x pstate_scheme \<Rightarrow> 'x pstate_scheme" where
  "reparent p s =
     s\<lparr>procs := (\<lambda>i. if i < NPROC \<and> p_parent (procs s i) = Some p
                      then (procs s i)\<lparr>p_parent := Some (initproc s)\<rparr> else procs s i)\<rparr>"

definition wakeup1 :: "nat \<Rightarrow> ('x pstate_scheme, unit) kernel" where
  "wakeup1 i =
     upd_proc i (\<lambda>p. if p_chan p = Some (ChProc i) \<and> p_state p = SLEEPING then p\<lparr>p_state := RUNNABLE\<rparr> else p)"

definition exit_files :: "nat \<Rightarrow> ('x pstate_scheme, unit) kernel" where
  "exit_files fd s =
     (case ofile s fd of
        None \<Rightarrow> Ret () s
      | Some f \<Rightarrow> kthen (fileclose f) (kmod (\<lambda>s. s\<lparr>ofile := (ofile s)(fd := None)\<rparr>)) s)"

text \<open>
  \<^verbatim>\<open>exit\<close> up to the call of \<^verbatim>\<open>sched\<close>, from which it does not come back. A process has a parent, since
  only \<^verbatim>\<open>initproc\<close> is without one.
\<close>

definition exit :: "int \<Rightarrow> ('x pstate_scheme, unit) kernel" where
  "exit status s =
     (if cur s = initproc s then Panic ''init exiting''
      else kthen (kfor 0 NOFILE exit_files)
          (kthen begin_op
          (kthen (\<lambda>s. iput (cwd s) s)
          (kthen end_op
          (kthen (\<lambda>s. wakeup1 (initproc s) s)
            (\<lambda>s. case p_parent (procs s (cur s)) of
                   None \<Rightarrow> Panic ''null parent''
                 | Some original_parent \<Rightarrow>
                     kthen (kmod (\<lambda>s. reparent (cur s) s))
                    (kthen (wakeup1 original_parent)
                       (\<lambda>s. upd_proc (cur s) (\<lambda>p. p\<lparr>p_xstate := status, p_state := ZOMBIE\<rparr>) s)) s))))) s)"

text \<open>
  The scan of \<^verbatim>\<open>wait\<close>: the first child that has exited, or whether there is a child at all. Without a
  child that has exited the caller sleeps on its own process structure.
\<close>

primrec wait_scan :: "(nat \<Rightarrow> proc) \<Rightarrow> nat \<Rightarrow> bool \<Rightarrow> nat \<Rightarrow> nat \<Rightarrow> nat + bool" where
  "wait_scan ps p havekids i 0 = Inr havekids"
| "wait_scan ps p havekids i (Suc k) =
     (if p_parent (ps i) = Some p
      then if p_state (ps i) = ZOMBIE then Inl i else wait_scan ps p True (Suc i) k
      else wait_scan ps p havekids (Suc i) k)"

text \<open>The four bytes of an \<^verbatim>\<open>int\<close>.\<close>

definition int_bytes :: "int \<Rightarrow> byte list" where
  "int_bytes v = map (\<lambda>i. word_of_int (v div 256 ^ i)) [0..<4]"

definition wait :: "nat \<Rightarrow> ('x pstate_scheme, int) kernel" where
  "wait addr s =
     (case wait_scan (procs s) (cur s) False 0 NPROC of
        Inl np \<Rightarrow>
          let pid = p_pid (procs s np) in
          kbind (if addr \<noteq> 0
                 then on_vm (copyout (p_pagetable (procs s (cur s))) addr (int_bytes (p_xstate (procs s np))))
                 else kret 0) (\<lambda>r.
            if r < 0 then kret (- 1)
            else kthen (freeproc np) (kret pid)) s
      | Inr havekids \<Rightarrow>
          if \<not> havekids \<or> killed s then Ret (- 1) s
          else Sleep ''wait'')"

section \<open>Scheduling\<close>

text \<open>\<^verbatim>\<open>swtch\<close> to a process, and what the process leaves when it switches back.\<close>

definition swtch_in :: "nat \<Rightarrow> 'x pstate_scheme \<Rightarrow> 'x pstate_scheme" where
  "swtch_in i s =
     s\<lparr>cur := i, mypid := p_pid (procs s i), ofile := p_ofile (procs s i), cwd := p_cwd (procs s i),
       killed := p_killed (procs s i)\<rparr>"

definition swtch_out :: "'x pstate_scheme \<Rightarrow> 'x pstate_scheme" where
  "swtch_out s =
     s\<lparr>procs := (procs s)(cur s := (procs s (cur s))\<lparr>p_ofile := ofile s, p_cwd := cwd s, p_killed := killed s\<rparr>)\<rparr>"

text \<open>
  One pass of \<^verbatim>\<open>scheduler\<close> over the table from entry \<open>i\<close> on; \<open>run i\<close> is what process \<open>i\<close> does until it
  gives up the CPU. The result has the processes that were run.
\<close>

primrec scheduler_pass ::
  "(nat \<Rightarrow> 'x pstate_scheme \<Rightarrow> 'x pstate_scheme) \<Rightarrow> nat \<Rightarrow> nat \<Rightarrow> 'x pstate_scheme \<Rightarrow> nat list \<times> 'x pstate_scheme"
where
  "scheduler_pass run i 0 s = ([], s)"
| "scheduler_pass run i (Suc k) s =
     (if p_state (procs s i) = RUNNABLE
      then let s1 = s\<lparr>procs := (procs s)(i := (procs s i)\<lparr>p_state := RUNNING\<rparr>)\<rparr>;
               s2 = swtch_out (run i (swtch_in i s1))
           in (case scheduler_pass run (Suc i) k s2 of (done', t) \<Rightarrow> (i # done', t))
      else scheduler_pass run (Suc i) k s)"

definition scheduler :: "(nat \<Rightarrow> 'x pstate_scheme \<Rightarrow> 'x pstate_scheme) \<Rightarrow> 'x pstate_scheme \<Rightarrow> nat list \<times> 'x pstate_scheme" where
  "scheduler run s = scheduler_pass run 0 NPROC s"

text \<open>
  \<^verbatim>\<open>sched\<close> checks its caller's conditions; \<open>holds_lock\<close>, \<open>noffs\<close> and \<open>intr\<close> are the caller's lock, the
  depth of \<^verbatim>\<open>push_off\<close> and the interrupt enable bit.
\<close>

definition sched :: "bool \<Rightarrow> int \<Rightarrow> bool \<Rightarrow> ('x pstate_scheme, unit) kernel" where
  "sched holds_lock noffs intr s =
     (if \<not> holds_lock then Panic ''sched p->lock''
      else if noffs \<noteq> 1 then Panic ''sched locks''
      else if p_state (procs s (cur s)) = RUNNING then Panic ''sched running''
      else if intr then Panic ''sched interruptible''
      else Ret () (swtch_out s))"

definition yield :: "('x pstate_scheme, unit) kernel" where
  "yield =
     kthen (\<lambda>s. upd_proc (cur s) (\<lambda>p. p\<lparr>p_state := RUNNABLE\<rparr>) s)
           (sched True 1 False)"

definition forkret :: "nat \<Rightarrow> ('x pstate_scheme, unit) kernel" where
  "forkret dev s =
     (if fs_first s then kthen (kmod (\<lambda>s. s\<lparr>fs_first := False\<rparr>)) (fsinit dev) s else Ret () s)"

text \<open>\<^verbatim>\<open>sleep\<close> before and after \<^verbatim>\<open>sched\<close>; \<open>noffs\<close> counts the locks held besides \<open>lk\<close> and the process lock.\<close>

definition sleep :: "chan \<Rightarrow> int \<Rightarrow> ('x pstate_scheme, unit) kernel" where
  "sleep ch noffs =
     kthen (\<lambda>s. upd_proc (cur s) (\<lambda>p. p\<lparr>p_chan := Some ch, p_state := SLEEPING\<rparr>) s)
           (sched True (1 + noffs) False)"

definition sleep_resume :: "('x pstate_scheme, unit) kernel" where
  "sleep_resume s = upd_proc (cur s) (\<lambda>p. p\<lparr>p_chan := None\<rparr>) s"

definition wakeup :: "chan \<Rightarrow> 'x pstate_scheme \<Rightarrow> 'x pstate_scheme" where
  "wakeup ch s =
     s\<lparr>procs := (\<lambda>i. if i < NPROC \<and> p_state (procs s i) = SLEEPING \<and> p_chan (procs s i) = Some ch
                      then (procs s i)\<lparr>p_state := RUNNABLE\<rparr> else procs s i)\<rparr>"

primrec pid_scan :: "(nat \<Rightarrow> proc) \<Rightarrow> int \<Rightarrow> nat \<Rightarrow> nat \<Rightarrow> nat option" where
  "pid_scan ps pid i 0 = None"
| "pid_scan ps pid i (Suc k) = (if p_pid (ps i) = pid then Some i else pid_scan ps pid (Suc i) k)"

definition kill :: "int \<Rightarrow> ('x pstate_scheme, int) kernel" where
  "kill pid s =
     (case pid_scan (procs s) pid 0 NPROC of
        None \<Rightarrow> Ret (- 1) s
      | Some i \<Rightarrow>
          kthen (upd_proc i (\<lambda>p. p\<lparr>p_killed := True, p_state := (if p_state p = SLEEPING then RUNNABLE else p_state p)\<rparr>))
         (kthen (kmod (\<lambda>s. if i = cur s then s\<lparr>killed := True\<rparr> else s))
                (kret 0)) s)"

section \<open>Copies to and from either space\<close>

definition either_copyout :: "bool \<Rightarrow> nat \<Rightarrow> byte list \<Rightarrow> ('x pstate_scheme, int) kernel" where
  "either_copyout user_dst dst src s =
     (if user_dst then on_vm (copyout (p_pagetable (procs s (cur s))) dst src) s
      else Ret 0 (s\<lparr>vm := (vm s)\<lparr>pmem := put_bytes dst src (pmem (vm s))\<rparr>\<rparr>))"

definition either_copyin :: "bool \<Rightarrow> nat \<Rightarrow> nat \<Rightarrow> ('x pstate_scheme, int \<times> byte list) kernel" where
  "either_copyin user_src src len s =
     (if user_src then on_vm (copyin (p_pagetable (procs s (cur s))) src len) s
      else Ret (0, get_bytes (pmem (vm s)) src len) s)"

end
