(* ===== verification/Procinv.thy ===== *)
theory Procinv
  imports Proc
begin

text \<open>
  Invariants of the process table of \<^verbatim>\<open>kernel/proc.c\<close>: which part of the table the operations of the file
  system and of memory leave alone, the invariant of the family of processes and that every operation keeps
  it, and that the scheduler runs every process that is ready.
\<close>

section \<open>Results of kernel code\<close>

text \<open>\<open>okr P r\<close>: if the code returns, its result and state satisfy \<open>P\<close>.\<close>

definition okr :: "('a \<Rightarrow> 's \<Rightarrow> bool) \<Rightarrow> ('a, 's) outcome \<Rightarrow> bool" where
  "okr P r \<longleftrightarrow> (\<forall>a t. r = Ret a t \<longrightarrow> P a t)"

lemma okr_simps [simp]:
  "okr P (Ret a t) \<longleftrightarrow> P a t" "okr P (Panic e)" "okr P (Sleep c)" "okr P Loop"
  by (simp_all add: okr_def)

lemma okr_weaken: "okr Q r \<Longrightarrow> (\<And>a t. Q a t \<Longrightarrow> P a t) \<Longrightarrow> okr P r"
  unfolding okr_def by blast

lemma okr_kbind: "okr (\<lambda>a t. okr P (k a t)) (m s) \<Longrightarrow> okr P (kbind m k s)"
  unfolding okr_def by (auto elim!: kbind_RetE)

lemma okr_kthen: "okr (\<lambda>_ t. okr P (k t)) (m s) \<Longrightarrow> okr P (kthen m k s)"
  unfolding okr_def by (auto elim!: kthen_RetE)

lemma okrD: "okr P r \<Longrightarrow> r = Ret a t \<Longrightarrow> P a t"
  by (simp add: okr_def)

section \<open>What leaves the table alone\<close>

text \<open>The fields of a process that its place in the family depends on.\<close>

definition pcore :: "proc \<Rightarrow> procstate \<times> nat option \<times> chan option \<times> nat \<times> nat" where
  "pcore p = (p_state p, p_parent p, p_chan p, p_trapframe p, p_pagetable p)"

definition psame :: "'x pstate_scheme \<Rightarrow> 'x pstate_scheme \<Rightarrow> bool" where
  "psame s t \<longleftrightarrow> (\<forall>i. pcore (procs t i) = pcore (procs s i)) \<and> cur t = cur s \<and> initproc t = initproc s"

lemma psame_refl [simp]: "psame s s"
  by (simp add: psame_def)

lemma psame_trans: "psame s t \<Longrightarrow> psame t u \<Longrightarrow> psame s u"
  by (simp add: psame_def)

text \<open>
  The rules below follow the code statement by statement: from a state that agrees with \<open>s0\<close> on the table it
  gets to states that do.
\<close>

named_theorems okp \<open>code that leaves the process table alone\<close>

lemma okp_kbind [okp]:
  "okr (\<lambda>_. psame s0) (m s) \<Longrightarrow> (\<And>a t. psame s0 t \<Longrightarrow> okr (\<lambda>_. psame s0) (k a t)) \<Longrightarrow> okr (\<lambda>_. psame s0) (kbind m k s)"
  unfolding okr_def by (auto elim!: kbind_RetE)

lemma okp_kthen [okp]:
  "okr (\<lambda>_. psame s0) (m s) \<Longrightarrow> (\<And>t. psame s0 t \<Longrightarrow> okr (\<lambda>_. psame s0) (k t)) \<Longrightarrow> okr (\<lambda>_. psame s0) (kthen m k s)"
  unfolding okr_def by (auto elim!: kthen_RetE)

lemma okp_if [okp]:
  "(b \<Longrightarrow> okr P (m s)) \<Longrightarrow> (\<not> b \<Longrightarrow> okr P (n s)) \<Longrightarrow> okr P ((if b then m else n) s)"
  "(b \<Longrightarrow> okr P x) \<Longrightarrow> (\<not> b \<Longrightarrow> okr P y) \<Longrightarrow> okr P (if b then x else y)"
  by simp_all

lemma okp_option [okp]:
  "(x = None \<Longrightarrow> okr P (m s)) \<Longrightarrow> (\<And>a. x = Some a \<Longrightarrow> okr P (n a s)) \<Longrightarrow> okr P ((case x of None \<Rightarrow> m | Some a \<Rightarrow> n a) s)"
  "(x = None \<Longrightarrow> okr P y) \<Longrightarrow> (\<And>a. x = Some a \<Longrightarrow> okr P (z a)) \<Longrightarrow> okr P (case x of None \<Rightarrow> y | Some a \<Rightarrow> z a)"
  by (simp_all split: option.split)

lemma okp_let [okp]: "okr P (f x) \<Longrightarrow> okr P (let y = x in f y)"
  by simp

lemma okp_basic [okp]:
  "psame s0 s \<Longrightarrow> okr (\<lambda>_. psame s0) (Ret a s)" "psame s0 s \<Longrightarrow> okr (\<lambda>_. psame s0) (kret a s)"
  "okr P (Panic e)" "okr P (Sleep e)" "okr P Loop" "okr P (kpanic e s)"
  "psame s0 s \<Longrightarrow> okr (\<lambda>_. psame s0) (kget g s)" "psame s0 (h s) \<Longrightarrow> okr (\<lambda>_. psame s0) (kmod h s)"
  by simp_all

lemma okp_kfor [okp]:
  assumes "psame s0 s" and "\<And>i s. psame s0 s \<Longrightarrow> okr (\<lambda>_. psame s0) (body i s)"
  shows "okr (\<lambda>_. psame s0) (kfor lo n body s)"
  using assms(1) by (induction n arbitrary: lo s) (auto intro!: okp assms(2))

lemma okp_kwhen [okp]: "psame s0 s \<Longrightarrow> (b \<Longrightarrow> okr (\<lambda>_. psame s0) (m s)) \<Longrightarrow> okr (\<lambda>_. psame s0) (kwhen b m s)"
  by (cases b) simp_all

lemma okp_spin_held [okp]: "okr P (m s) \<Longrightarrow> okr P (spin_held m s)"
  by (simp add: spin_held_def okr_def split: outcome.split)

lemma okp_on_vm [okp]: "psame s0 s \<Longrightarrow> okr (\<lambda>_. psame s0) (on_vm m s)"
  by (simp add: on_vm_def psame_def split: outcome.split)

lemma okp_upd [okp]:
  assumes "psame s0 s"
  shows "okr (\<lambda>_. psame s0) (upd_buf b f s)" "okr (\<lambda>_. psame s0) (upd_data b g s)" "okr (\<lambda>_. psame s0) (upd_log h s)"
    "okr (\<lambda>_. psame s0) (upd_inode i f' s)" "okr (\<lambda>_. psame s0) (upd_file n g' s)" "okr (\<lambda>_. psame s0) (bw_print m s)"
    "okr (\<lambda>_. psame s0) (bpin b s)" "okr (\<lambda>_. psame s0) (bunpin b s)" "okr (\<lambda>_. psame s0) (disk_rw b w s)"
    "okr (\<lambda>_. psame s0) (buf_acquiresleep b s)"
  using assms by (simp_all add: upd_buf_def upd_data_def upd_log_def upd_inode_def upd_file_def bw_print_def bpin_def bunpin_def psame_def
    disk_rw_def buf_acquiresleep_def Let_def split: option.split)

lemma okp_bget [okp]: "psame s0 s \<Longrightarrow> okr (\<lambda>_. psame s0) (bget dev bn s)"
  unfolding bget_def by (intro okp)

lemma okp_bread [okp]: "psame s0 s \<Longrightarrow> okr (\<lambda>_. psame s0) (bread dev bn s)"
  unfolding bread_def by (intro okp)

lemma okp_bwrite [okp]: "psame s0 s \<Longrightarrow> okr (\<lambda>_. psame s0) (bwrite b s)"
  unfolding bwrite_def by (intro okp)

lemma okp_brelse [okp]: "psame s0 s \<Longrightarrow> okr (\<lambda>_. psame s0) (brelse b s)"
proof -
  have "psame s0 t \<Longrightarrow> psame s0 (link_front b (unlink_buf b t))" for t
    by (simp add: link_front_def unlink_buf_def Let_def psame_def)
  then show "psame s0 s \<Longrightarrow> okr (\<lambda>_. psame s0) (brelse b s)" unfolding brelse_def by (intro okp)
qed

lemma okp_sum [okp]: "(\<And>a. x = Inl a \<Longrightarrow> okr P (m a)) \<Longrightarrow> (\<And>b. x = Inr b \<Longrightarrow> okr P (n b)) \<Longrightarrow> okr P (case x of Inl a \<Rightarrow> m a | Inr b \<Rightarrow> n b)"
  by (simp split: sum.split)

lemma okp_prod [okp]: "(\<And>a b. x = (a, b) \<Longrightarrow> okr P (m a b)) \<Longrightarrow> okr P (case x of (a, b) \<Rightarrow> m a b)"
  by (simp split: prod.split)

lemma psame_more [okp]: "psame s0 s \<Longrightarrow> psame s0 (s\<lparr>pipes := x\<rparr>)" "psame s0 s \<Longrightarrow> psame s0 (s\<lparr>ofile := y\<rparr>)"
  by (simp_all add: psame_def)

lemma okp_install_step [okp]: "psame s0 s \<Longrightarrow> okr (\<lambda>_. psame s0) (install_step i s)"
  unfolding install_step_def by (intro okp)

lemma okp_install_trans [okp]: "psame s0 s \<Longrightarrow> okr (\<lambda>_. psame s0) (install_trans s)"
  unfolding install_trans_def by (intro okp)

lemma okp_write_head [okp]: "psame s0 s \<Longrightarrow> okr (\<lambda>_. psame s0) (write_head s)"
  unfolding write_head_def by (intro okp)

lemma okp_write_log_step [okp]: "psame s0 s \<Longrightarrow> okr (\<lambda>_. psame s0) (write_log_step i s)"
  unfolding write_log_step_def by (intro okp)

lemma okp_write_log [okp]: "psame s0 s \<Longrightarrow> okr (\<lambda>_. psame s0) (write_log s)"
  unfolding write_log_def by (intro okp)

lemma okp_commit [okp]: "psame s0 s \<Longrightarrow> okr (\<lambda>_. psame s0) (commit s)"
  unfolding commit_def by (intro okp)

lemma okp_begin_op [okp]: "psame s0 s \<Longrightarrow> okr (\<lambda>_. psame s0) (begin_op s)"
  unfolding begin_op_def by (intro okp)

lemma okp_end_op [okp]: "psame s0 s \<Longrightarrow> okr (\<lambda>_. psame s0) (end_op s)"
  unfolding end_op_def by (intro okp)

lemma okp_log_write [okp]: "psame s0 s \<Longrightarrow> okr (\<lambda>_. psame s0) (log_write b s)"
  unfolding log_write_def by (intro okp)

lemma okp_bfree [okp]: "psame s0 s \<Longrightarrow> okr (\<lambda>_. psame s0) (bfree dev bn s)"
  unfolding bfree_def by (intro okp)

lemma okp_iget [okp]: "psame s0 s \<Longrightarrow> okr (\<lambda>_. psame s0) (iget dev inum s)"
  unfolding iget_def by (intro okp)

lemma okp_idup [okp]: "psame s0 s \<Longrightarrow> okr (\<lambda>_. psame s0) (idup ip s)"
  unfolding idup_def by (intro okp)

lemma okp_iupdate [okp]: "psame s0 s \<Longrightarrow> okr (\<lambda>_. psame s0) (iupdate ip s)"
  unfolding iupdate_def by (intro okp)

lemma okp_inode_acquiresleep [okp]: "psame s0 s \<Longrightarrow> okr (\<lambda>_. psame s0) (inode_acquiresleep ip s)"
  unfolding inode_acquiresleep_def by (intro okp)

lemma okp_inode_releasesleep [okp]: "psame s0 s \<Longrightarrow> okr (\<lambda>_. psame s0) (inode_releasesleep ip s)"
  unfolding inode_releasesleep_def by (intro okp)

lemma okp_itrunc_direct [okp]: "psame s0 s \<Longrightarrow> okr (\<lambda>_. psame s0) (itrunc_direct ip i s)"
  unfolding itrunc_direct_def by (intro okp)

lemma okp_itrunc_indirect [okp]: "psame s0 s \<Longrightarrow> okr (\<lambda>_. psame s0) (itrunc_indirect ip bp i s)"
  unfolding itrunc_indirect_def by (intro okp)

lemma okp_itrunc [okp]: "psame s0 s \<Longrightarrow> okr (\<lambda>_. psame s0) (itrunc ip s)"
  unfolding itrunc_def by (intro okp)

lemma okp_iput [okp]: "psame s0 s \<Longrightarrow> okr (\<lambda>_. psame s0) (iput ip s)"
  unfolding iput_def by (intro okp)

lemma okp_pipeclose_at [okp]: "psame s0 s \<Longrightarrow> okr (\<lambda>_. psame s0) (pipeclose_at p w s)"
  unfolding pipeclose_at_def by (intro okp)

lemma okp_fileclose [okp]: "psame s0 s \<Longrightarrow> okr (\<lambda>_. psame s0) (fileclose f s)"
  unfolding fileclose_def by (intro okp)

lemma okp_filedup [okp]: "psame s0 s \<Longrightarrow> okr (\<lambda>_. psame s0) (filedup f s)"
  unfolding filedup_def by (intro okp)

section \<open>The family of processes\<close>

type_synonym pcore = "procstate \<times> nat option \<times> chan option \<times> nat \<times> nat"

fun core_alive :: "pcore \<Rightarrow> bool" where
  "core_alive (st, par, ch, tf, pt) \<longleftrightarrow> st \<noteq> UNUSED \<and> st \<noteq> ZOMBIE"

fun core_ok :: "bool \<Rightarrow> pcore \<Rightarrow> bool" where
  "core_ok is_init (st, par, ch, tf, pt) \<longleftrightarrow>
     (if st = UNUSED then par = None \<and> tf = 0 \<and> pt = 0 else tf \<noteq> 0 \<and> pt \<noteq> 0 \<and> (is_init \<or> par \<noteq> None)) \<and>
     (st = SLEEPING \<longrightarrow> ch \<noteq> None)"

text \<open>
  An entry in use has a trap frame, a page table and, \<^verbatim>\<open>init\<close> apart, a parent; a free one has none of them; a
  sleeping process has a channel. The parent of a process is a process that has not exited, and \<^verbatim>\<open>init\<close> has not.
\<close>

definition family_ok :: "'x pstate_scheme \<Rightarrow> bool" where
  "family_ok s \<longleftrightarrow> cur s < NPROC \<and> initproc s < NPROC \<and> core_alive (pcore (procs s (initproc s))) \<and>
     (\<forall>i<NPROC. core_ok (i = initproc s) (pcore (procs s i))) \<and>
     (\<forall>i<NPROC. \<forall>q. p_parent (procs s i) = Some q \<longrightarrow> q < NPROC \<and> core_alive (pcore (procs s q)))"

lemma family_okD:
  assumes "family_ok s"
  shows "cur s < NPROC" "initproc s < NPROC" "core_alive (pcore (procs s (initproc s)))"
    "i < NPROC \<Longrightarrow> core_ok (i = initproc s) (pcore (procs s i))"
    "i < NPROC \<Longrightarrow> p_parent (procs s i) = Some q \<Longrightarrow> q < NPROC" "i < NPROC \<Longrightarrow> p_parent (procs s i) = Some q \<Longrightarrow> core_alive (pcore (procs s q))"
  using assms unfolding family_ok_def by blast+

text \<open>\<open>slot i c s t\<close>: from \<open>s\<close> to \<open>t\<close> entry \<open>i\<close> has become \<open>c\<close> and the others are as before.\<close>

definition slot :: "nat \<Rightarrow> pcore \<Rightarrow> 'x pstate_scheme \<Rightarrow> 'x pstate_scheme \<Rightarrow> bool" where
  "slot i c s t \<longleftrightarrow> pcore (procs t i) = c \<and> (\<forall>j. j \<noteq> i \<longrightarrow> pcore (procs t j) = pcore (procs s j)) \<and>
     cur t = cur s \<and> initproc t = initproc s"

lemma slot_refl: "psame s t \<Longrightarrow> slot i (pcore (procs s i)) s t"
  by (simp add: slot_def psame_def)

lemma slot_psame: "slot i c s t \<Longrightarrow> psame t u \<Longrightarrow> slot i c s u"
  by (simp add: slot_def psame_def)

lemma slot_okp: "slot i c s t \<Longrightarrow> okr (\<lambda>_. psame t) r \<Longrightarrow> okr (\<lambda>_. slot i c s) r"
  by (erule okr_weaken) (rule slot_psame)

lemma slot_upd: "slot i c s t \<Longrightarrow> (\<And>p. pcore p = c \<Longrightarrow> pcore (f p) = c') \<Longrightarrow> okr (\<lambda>_. slot i c' s) (upd_proc i f t)"
  by (simp add: slot_def upd_proc_def)

lemma p_parent_core: "p_parent p = fst (snd (pcore p))"
  by (simp add: pcore_def)

lemma family_slot:
  assumes s: "family_ok s" and t: "slot i c s t" and i: "i < NPROC" and c: "core_ok (i = initproc s) c"
    and al: "core_alive c \<or> i \<noteq> initproc s \<and> (\<forall>j<NPROC. j \<noteq> i \<longrightarrow> p_parent (procs s j) \<noteq> Some i)"
    and par: "\<And>q. fst (snd c) = Some q \<Longrightarrow> q < NPROC \<and> (if q = i then core_alive c else core_alive (pcore (procs s q)))"
  shows "family_ok t"
proof -
  have ct: "pcore (procs t j) = (if j = i then c else pcore (procs s j))" for j using t by (simp add: slot_def)
  have ne: "cur t = cur s" "initproc t = initproc s" using t by (simp_all add: slot_def)
  have "q < NPROC \<and> core_alive (pcore (procs t q))" if j: "j < NPROC" "p_parent (procs t j) = Some q" for j q
  proof (cases "j = i")
    case True
    then show ?thesis using par [of q] j(2) ct [of i] by (auto simp: p_parent_core ct)
  next
    case False
    then have "p_parent (procs s j) = Some q" using j(2) by (simp add: p_parent_core ct)
    with s j(1) have "q < NPROC \<and> core_alive (pcore (procs s q))" by (simp add: family_ok_def)
    with al False \<open>p_parent (procs s j) = Some q\<close> j(1) show ?thesis by (auto simp: ct)
  qed
  moreover have "core_alive (pcore (procs t (initproc s)))" using s al by (auto simp: family_ok_def ct)
  moreover have "core_ok (j = initproc s) (pcore (procs t j))" if "j < NPROC" for j
    using s c that unfolding family_ok_def ct by (cases "j = i") simp_all
  moreover have "cur t < NPROC \<and> initproc s < NPROC" using s by (simp add: family_ok_def ne)
  ultimately show ?thesis unfolding family_ok_def ne by blast
qed

lemma family_psame: "family_ok s \<Longrightarrow> psame s t \<Longrightarrow> family_ok t"
  by (simp add: family_ok_def psame_def p_parent_core)

text \<open>The operations on one entry.\<close>

lemma okr_bind: "okr Q (m s) \<Longrightarrow> (\<And>a t. Q a t \<Longrightarrow> okr P (k a t)) \<Longrightarrow> okr P (kbind m k s)"
  unfolding okr_def by (auto elim!: kbind_RetE)

lemma okr_then: "okr Q (m s) \<Longrightarrow> (\<And>a t. Q a t \<Longrightarrow> okr P (k t)) \<Longrightarrow> okr P (kthen m k s)"
  unfolding okr_def by (auto elim!: kthen_RetE)

lemma slot_upd_then:
  "slot i c s t \<Longrightarrow> (\<And>p. pcore p = c \<Longrightarrow> pcore (f p) = c') \<Longrightarrow> (\<And>u. slot i c' s u \<Longrightarrow> okr P (k u)) \<Longrightarrow> okr P (kthen (upd_proc i f) k t)"
  by (rule okr_then [OF slot_upd])

lemma slot_okp_then:
  "slot i c s t \<Longrightarrow> okr (\<lambda>_. psame t) (m t) \<Longrightarrow> (\<And>u. slot i c s u \<Longrightarrow> okr P (k u)) \<Longrightarrow> okr P (kthen m k t)"
  by (rule okr_then [OF slot_okp])

lemma slot_okp_bind:
  "slot i c s t \<Longrightarrow> okr (\<lambda>_. psame t) (m t) \<Longrightarrow> (\<And>a u. slot i c s u \<Longrightarrow> okr P (k a u)) \<Longrightarrow> okr P (kbind m k t)"
  by (rule okr_bind [OF slot_okp])

lemma freeproc_slot:
  assumes "slot i (st, par, ch, tf, pt) s t"
  shows "okr (\<lambda>_. slot i (UNUSED, None, None, 0, 0) s) (freeproc i t)"
  unfolding freeproc_def using assms
  apply -
  apply (erule slot_okp_then, intro okp psame_refl)
  apply (erule slot_upd_then [where c' = "(st, par, ch, 0, pt)"], simp add: pcore_def)
  apply (erule slot_okp_then, intro okp psame_refl)
  apply (erule slot_upd, simp add: pcore_def)
  done

lemma unused_scan_Some: "unused_scan ps i k = Some j \<Longrightarrow> p_state (ps j) = UNUSED \<and> j < i + k"
  by (induction k arbitrary: i) (fastforce split: if_splits)+

lemma okp_proc_pagetable [okp]: "psame s0 s \<Longrightarrow> okr (\<lambda>_. psame s0) (proc_pagetable i s)"
  unfolding proc_pagetable_def by (intro okp)

lemma allocproc_slot:
  assumes s: "family_ok s"
  shows "okr (\<lambda>r t. \<exists>i ch tf pt. i < NPROC \<and> p_state (procs s i) = UNUSED \<and> slot i (UNUSED, None, ch, tf, pt) s t \<and>
      (if r = None then tf = 0 \<and> pt = 0 else r = Some i \<and> tf \<noteq> 0 \<and> pt \<noteq> 0) \<or> r = None \<and> t = s) (allocproc s)"
proof (cases "unused_scan (procs s) 0 NPROC")
  case None
  then show ?thesis by (simp add: allocproc_def)
next
  case (Some i)
  let ?ch = "p_chan (procs s i)"
  have i: "i < NPROC" "p_state (procs s i) = UNUSED" using unused_scan_Some [OF Some] by auto
  then have c: "pcore (procs s i) = (UNUSED, None, ?ch, 0, 0)" using family_okD(4) [OF s i(1)] by (simp add: pcore_def)
  have 1: "okr (\<lambda>_. slot i (UNUSED, None, ?ch, 0, 0) s) (allocpid s)"
    using slot_refl [OF psame_refl, of i s] unfolding c by (simp add: allocpid_def slot_def)
  show ?thesis
    unfolding allocproc_def Some option.case
    apply (rule okr_bind, rule 1)
    apply (erule slot_upd_then [where c' = "(UNUSED, None, ?ch, 0, 0)"], simp add: pcore_def)
    apply (erule slot_okp_bind, intro okp psame_refl)
    subgoal for _ _ _ tf
      apply (erule slot_upd_then [where c' = "(UNUSED, None, ?ch, tf, 0)"], simp add: pcore_def)
      apply (rule okp_if)
       apply (use i in \<open>simp; blast\<close>)
      apply (erule slot_okp_bind, intro okp psame_refl)
      subgoal for _ pt
        apply (erule slot_upd_then [where c' = "(UNUSED, None, ?ch, tf, pt)"], simp add: pcore_def)
        apply (rule okp_if)
         apply (rule okr_then [OF freeproc_slot], assumption)
         apply (use i in \<open>simp; blast\<close>)
        apply (rule okr_then [OF slot_upd [where c' = "(UNUSED, None, ?ch, tf, pt)"]], assumption, simp add: pcore_def)
        apply (use i in \<open>simp; blast\<close>)
        done
      done
    done
qed

lemma okp_upd_proc: "psame s0 s \<Longrightarrow> (\<And>p. pcore (f p) = pcore p) \<Longrightarrow> okr (\<lambda>_. psame s0) (upd_proc i f s)"
  by (simp add: upd_proc_def psame_def)

lemma okp_fork_files [okp]: "psame s0 s \<Longrightarrow> okr (\<lambda>_. psame s0) (fork_files np i s)"
  unfolding fork_files_def by (intro okp okp_upd_proc; simp add: pcore_def)

lemma okp_exit_files [okp]: "psame s0 s \<Longrightarrow> okr (\<lambda>_. psame s0) (exit_files fd s)"
  unfolding exit_files_def by (intro okp)

lemma slot_state_then:
  "slot i c s t \<Longrightarrow> (\<And>p. pcore p = c \<Longrightarrow> pcore (f t p) = c') \<Longrightarrow> (\<And>u. slot i c' s u \<Longrightarrow> okr P (k u)) \<Longrightarrow>
   okr P (kthen (\<lambda>s. upd_proc i (f s) s) k t)"
  by (rule okr_then [where Q = "\<lambda>_. slot i c' s"]) (simp_all add: slot_def upd_proc_def)

lemma family_unused:
  assumes "family_ok s" "slot i (UNUSED, None, ch, 0, 0) s t" "i < NPROC" "\<not> core_alive (pcore (procs s i))"
  shows "family_ok t"
proof (rule family_slot [OF assms(1-3)])
  have "i \<noteq> initproc s" using family_okD(3) [OF assms(1)] assms(4) by auto
  moreover have "\<forall>j<NPROC. j \<noteq> i \<longrightarrow> p_parent (procs s j) \<noteq> Some i" using family_okD(6) [OF assms(1)] assms(4) by blast
  ultimately show "core_alive (UNUSED, None, ch, 0, 0) \<or> i \<noteq> initproc s \<and> (\<forall>j<NPROC. j \<noteq> i \<longrightarrow> p_parent (procs s j) \<noteq> Some i)" by blast
qed simp_all

definition running :: "'x pstate_scheme \<Rightarrow> bool" where
  "running s \<longleftrightarrow> p_state (procs s (cur s)) = RUNNING"

lemma running_alive: "running s \<Longrightarrow> core_alive (pcore (procs s (cur s)))"
  by (simp add: running_def pcore_def)

lemma fork_child_slot:
  assumes t: "slot np (UNUSED, None, ch, tf, pt) s t"
  shows "okr (\<lambda>r u. slot np (UNUSED, None, None, 0, 0) s u \<or> slot np (RUNNABLE, Some (cur s), ch, tf, pt) s u) (fork_child np t)"
  unfolding fork_child_def using t
  apply -
  apply (erule slot_okp_bind, intro okp psame_refl)
  apply (rule okp_if)
   apply (rule okr_then, erule freeproc_slot, simp)
  apply (rule slot_state_then [where c' = "(UNUSED, Some (cur s), ch, tf, pt)"], assumption, simp add: pcore_def slot_def)
  apply (thin_tac "slot np (UNUSED, None, ch, tf, pt) s _")
  apply (erule slot_okp_then, intro okp psame_refl)
  apply (erule slot_okp_then, unfold wr_tf_def, intro okp psame_refl)
  apply (erule slot_okp_then, intro okp psame_refl, assumption)
  apply (erule slot_okp_bind, intro okp psame_refl)
  apply (erule slot_upd_then [where c' = "(UNUSED, Some (cur s), ch, tf, pt)"], simp add: pcore_def)
  apply (erule slot_state_then [where c' = "(UNUSED, Some (cur s), ch, tf, pt)"], simp add: pcore_def)
  apply (erule slot_okp_bind, intro okp psame_refl)
  apply (erule slot_upd_then [where c' = "(RUNNABLE, Some (cur s), ch, tf, pt)"], simp add: pcore_def)
  apply simp
  done

text \<open>What a call does to the others: processes that are ready or run stay so.\<close>

definition calm :: "'x pstate_scheme \<Rightarrow> 'x pstate_scheme \<Rightarrow> bool" where
  "calm s t \<longleftrightarrow> cur t = cur s \<and>
     (\<forall>j. p_state (procs s j) = RUNNABLE \<or> p_state (procs s j) = RUNNING \<longrightarrow> p_state (procs t j) = p_state (procs s j))"

lemma p_state_core: "p_state p = fst (pcore p)"
  by (simp add: pcore_def)

lemma calm_refl [simp]: "calm s s"
  by (simp add: calm_def)

lemma calm_slot:
  assumes "slot i c s t" "p_state (procs s i) \<noteq> RUNNABLE" "p_state (procs s i) \<noteq> RUNNING"
  shows "calm s t"
proof -
  have "p_state (procs t j) = p_state (procs s j)" if "j \<noteq> i" for j using assms(1) that by (simp add: slot_def p_state_core)
  moreover have "cur t = cur s" using assms(1) by (simp add: slot_def)
  ultimately show ?thesis using assms(2,3) unfolding calm_def by metis
qed

lemma calm_psame: "psame s t \<Longrightarrow> calm s t"
  by (simp add: psame_def calm_def p_state_core)

lemma calm_running: "calm s t \<Longrightarrow> running s \<Longrightarrow> running t"
  by (simp add: calm_def running_def)

lemma fork_family:
  assumes s: "family_ok s" and r: "running s"
  shows "okr (\<lambda>_ t. family_ok t \<and> calm s t) (fork s)"
  unfolding fork_def
proof (rule okr_bind, rule allocproc_slot [OF s])
  fix r' t
  let ?alloc = "\<lambda>i ch tf pt. i < NPROC \<and> p_state (procs s i) = UNUSED \<and> slot i (UNUSED, None, ch, tf, pt) s t \<and>
      (if r' = None then tf = 0 \<and> pt = 0 else r' = Some i \<and> tf \<noteq> 0 \<and> pt \<noteq> 0)"
  assume "\<exists>i ch tf pt. ?alloc i ch tf pt \<or> r' = None \<and> t = s"
  then consider "r' = None" "t = s" | i ch where "r' = None" "?alloc i ch 0 0" | i ch tf pt where "r' = Some i" "tf \<noteq> 0" "pt \<noteq> 0" "?alloc i ch tf pt"
    by (cases r') auto
  then show "okr (\<lambda>_ t. family_ok t \<and> calm s t) ((case r' of None \<Rightarrow> kret (- 1) | Some np \<Rightarrow> fork_child np) t)"
  proof cases
    case 1
    with s show ?thesis by simp
  next
    case (2 i ch)
    then show ?thesis using family_unused [OF s, of i ch t] calm_slot [of i _ s t] by (auto simp: pcore_def)
  next
    case (3 i ch tf pt)
    have "okr (\<lambda>_ t. family_ok t \<and> calm s t) (fork_child i t)"
    proof (rule okr_weaken, rule fork_child_slot)
      show "slot i (UNUSED, None, ch, tf, pt) s t" using 3(4) by simp
      fix u assume "slot i (UNUSED, None, None, 0, 0) s u \<or> slot i (RUNNABLE, Some (cur s), ch, tf, pt) s u"
      then show "family_ok u \<and> calm s u"
      proof
        assume u: "slot i (UNUSED, None, None, 0, 0) s u"
        show ?thesis using 3(4) by (intro conjI family_unused [OF s u] calm_slot [OF u]) (simp_all add: pcore_def)
      next
        assume u: "slot i (RUNNABLE, Some (cur s), ch, tf, pt) s u"
        show ?thesis using 3(2-4) family_okD(1) [OF s] running_alive [OF r] by (intro conjI family_slot [OF s u] calm_slot [OF u]) auto
      qed
    qed
    with 3(1) show ?thesis by simp
  qed
qed

text \<open>Sleeping processes have been woken at most.\<close>

definition wakes :: "'x pstate_scheme \<Rightarrow> 'x pstate_scheme \<Rightarrow> bool" where
  "wakes s t \<longleftrightarrow> (\<forall>i. pcore (procs t i) = pcore (procs s i) \<or>
     p_state (procs s i) = SLEEPING \<and> pcore (procs t i) = (RUNNABLE, snd (pcore (procs s i)))) \<and>
     cur t = cur s \<and> initproc t = initproc s"

lemma family_wakes:
  assumes s: "family_ok s" and t: "wakes s t"
  shows "family_ok t"
proof -
  have w: "pcore (procs t i) = pcore (procs s i) \<or> p_state (procs s i) = SLEEPING \<and> pcore (procs t i) = (RUNNABLE, snd (pcore (procs s i)))" for i
    using t unfolding wakes_def by blast
  have e: "cur t = cur s" "initproc t = initproc s" using t unfolding wakes_def by blast+
  have par: "p_parent (procs t i) = p_parent (procs s i)" for i using w [of i] by (auto simp: p_parent_core)
  have al: "core_alive (pcore (procs t i))" if "core_alive (pcore (procs s i))" for i using w [of i] that by (cases "pcore (procs s i)") auto
  have ok: "core_ok b (pcore (procs t i))" if "core_ok b (pcore (procs s i))" for i b
    using w [of i] that by (cases "pcore (procs s i)") (auto simp: pcore_def)
  show ?thesis unfolding family_ok_def e par using family_okD [OF s] al ok by blast
qed

lemma wakes_running: "running s \<Longrightarrow> wakes s t \<Longrightarrow> running t"
  unfolding running_def wakes_def by (metis fst_conv pcore_def procstate.distinct(11))

lemma psame_wakes: "psame s t \<Longrightarrow> wakes s t"
  by (simp add: psame_def wakes_def)

lemma wakeup1_wakes: "okr (\<lambda>_. wakes s) (wakeup1 i s)"
  by (simp add: wakeup1_def upd_proc_def wakes_def pcore_def)

lemma wakeup_wakes: "wakes s (wakeup ch s)"
  by (simp add: wakeup_def wakes_def pcore_def)

lemma kill_wakes: "okr (\<lambda>_. wakes s) (kill pid s)"
  by (auto simp: kill_def upd_proc_def wakes_def pcore_def split: option.split)

text \<open>\<^verbatim>\<open>exit\<close>\<close>

definition leaving :: "'x pstate_scheme \<Rightarrow> bool" where
  "leaving s \<longleftrightarrow> family_ok s \<and> running s \<and> cur s \<noteq> initproc s"

lemma leaving_wakes: "leaving s \<Longrightarrow> wakes s t \<Longrightarrow> leaving t"
  using family_wakes wakes_running unfolding leaving_def wakes_def by metis

lemma leaving_okp: "leaving s \<Longrightarrow> okr (\<lambda>_. psame s) r \<Longrightarrow> okr (\<lambda>_. leaving) r"
  by (erule okr_weaken) (erule leaving_wakes, rule psame_wakes)

lemma leaving_okw: "leaving s \<Longrightarrow> okr (\<lambda>_. wakes s) r \<Longrightarrow> okr (\<lambda>_. leaving) r"
  by (erule okr_weaken) (erule leaving_wakes)

definition childless :: "'x pstate_scheme \<Rightarrow> bool" where
  "childless s \<longleftrightarrow> (\<forall>j<NPROC. p_parent (procs s j) \<noteq> Some (cur s))"

lemma reparent_leaving:
  assumes s: "leaving s"
  shows "leaving (reparent (cur s) s)" "childless (reparent (cur s) s)"
proof -
  let ?t = "reparent (cur s) s"
  have f: "family_ok s" "running s" "cur s \<noteq> initproc s" using s by (auto simp: leaving_def)
  have c: "pcore (procs ?t i) = (if i < NPROC \<and> p_parent (procs s i) = Some (cur s)
      then (p_state (procs s i), Some (initproc s), snd (snd (pcore (procs s i)))) else pcore (procs s i))" for i
    by (simp add: reparent_def pcore_def)
  have e: "cur ?t = cur s" "initproc ?t = initproc s" by (simp_all add: reparent_def)
  have st: "core_alive (pcore (procs ?t i)) = core_alive (pcore (procs s i))" for i by (simp add: reparent_def pcore_def)
  have par: "p_parent (procs ?t i) = (if i < NPROC \<and> p_parent (procs s i) = Some (cur s) then Some (initproc s) else p_parent (procs s i))" for i
    by (simp add: reparent_def)
  have ok: "core_ok b (pcore (procs ?t i))" if "core_ok b (pcore (procs s i))" for i b
    using that unfolding c by (auto simp: pcore_def)
  have "family_ok ?t"
    unfolding family_ok_def e st par using family_okD [OF f(1)] ok by (auto split: if_splits)
  with f(2,3) show "leaving ?t" by (simp add: leaving_def running_def reparent_def)
  show "childless ?t" using f(3) by (simp add: childless_def par e)
qed

lemma exit_zombie:
  assumes t: "leaving t" "childless t" and p: "p_parent (procs t (cur t)) \<noteq> None"
  shows "okr (\<lambda>_. family_ok) (upd_proc (cur t) (\<lambda>p. p\<lparr>p_xstate := status, p_state := ZOMBIE\<rparr>) t)"
proof -
  have f: "family_ok t" "running t" "cur t \<noteq> initproc t" using t by (auto simp: leaving_def)
  obtain q where q: "p_parent (procs t (cur t)) = Some q" using p by auto
  have "core_ok (cur t = initproc t) (pcore (procs t (cur t)))" using family_okD(1,4) [OF f(1)] by blast
  then have tp: "p_trapframe (procs t (cur t)) \<noteq> 0" "p_pagetable (procs t (cur t)) \<noteq> 0" using f(2) by (auto simp: pcore_def running_def)
  have "q \<noteq> cur t" using t(2) q family_okD(1) [OF f(1)] by (auto simp: childless_def)
  show ?thesis
    unfolding upd_proc_def
    using t(2) tp q \<open>q \<noteq> cur t\<close> f(3) family_okD(1,5,6) [OF f(1)]
    by (simp, intro family_slot [OF f(1), where i = "cur t" and c = "(ZOMBIE, Some q, p_chan (procs t (cur t)), p_trapframe (procs t (cur t)), p_pagetable (procs t (cur t)))"])
      (auto simp: slot_def pcore_def childless_def)
qed

lemma childless_wakes: "childless s \<Longrightarrow> wakes s t \<Longrightarrow> childless t"
  unfolding childless_def wakes_def p_parent_core by (metis snd_conv)

lemma exit_tail:
  assumes t: "leaving t" "childless t" and p: "p_parent (procs t (cur t)) \<noteq> None"
  shows "okr (\<lambda>_. family_ok) (kthen (wakeup1 q) (\<lambda>s. upd_proc (cur s) (\<lambda>p. p\<lparr>p_xstate := status, p_state := ZOMBIE\<rparr>) s) t)"
proof (rule okr_then, rule wakeup1_wakes)
  fix u assume w: "wakes t u"
  then have "p_parent (procs u (cur u)) \<noteq> None" using p unfolding wakes_def p_parent_core by (metis snd_conv)
  then show "okr (\<lambda>_. family_ok) (upd_proc (cur u) (\<lambda>p. p\<lparr>p_xstate := status, p_state := ZOMBIE\<rparr>) u)"
    using leaving_wakes [OF t(1) w] childless_wakes [OF t(2) w] by (intro exit_zombie)
qed

lemma leaving_parent: "leaving t \<Longrightarrow> p_parent (procs t (cur t)) \<noteq> None"
  using family_okD(4) [of t "cur t"] family_okD(1) [of t] by (auto simp: leaving_def running_def pcore_def)

lemma leaving_then:
  "leaving s \<Longrightarrow> okr (\<lambda>_. psame s) (m s) \<Longrightarrow> (\<And>t. leaving t \<Longrightarrow> okr P (k t)) \<Longrightarrow> okr P (kthen m k s)"
  "leaving s \<Longrightarrow> okr (\<lambda>_. wakes s) (m s) \<Longrightarrow> (\<And>t. leaving t \<Longrightarrow> okr P (k t)) \<Longrightarrow> okr P (kthen m k s)"
  by (rule okr_then, erule leaving_okp, assumption, blast) (rule okr_then, erule leaving_okw, assumption, blast)

lemma exit_family:
  assumes s: "family_ok s" and r: "running s"
  shows "okr (\<lambda>_. family_ok) (exit status s)"
proof (cases "cur s = initproc s")
  case False
  then have l: "leaving s" using s r by (simp add: leaving_def)
  have "okr (\<lambda>_. family_ok) (case p_parent (procs t (cur t)) of None \<Rightarrow> Panic ''null parent''
        | Some original_parent \<Rightarrow> kthen (kmod (\<lambda>s. reparent (cur s) s)) (kthen (wakeup1 original_parent)
            (\<lambda>s. upd_proc (cur s) (\<lambda>p. p\<lparr>p_xstate := status, p_state := ZOMBIE\<rparr>) s)) t)" if t: "leaving t" for t
    using reparent_leaving [OF t] exit_tail [of "reparent (cur t) t"] leaving_parent [of "reparent (cur t) t"] by (auto split: option.split)
  then show ?thesis
    unfolding exit_def if_not_P [OF False] using l
    apply -
    apply (erule leaving_then(1), intro okp psame_refl, assumption)
    apply (erule leaving_then(1), intro okp psame_refl)
    apply (erule leaving_then(1), intro okp psame_refl)
    apply (erule leaving_then(1), intro okp psame_refl)
    apply (erule leaving_then(2), rule wakeup1_wakes)
    apply blast
    done
qed (simp add: exit_def)

lemma wait_scan_Inl: "wait_scan ps p hk i k = Inl j \<Longrightarrow> p_state (ps j) = ZOMBIE \<and> p_parent (ps j) = Some p \<and> j < i + k"
  by (induction k arbitrary: i hk) (fastforce split: if_splits)+

lemma wait_family:
  assumes s: "family_ok s"
  shows "okr (\<lambda>_ t. family_ok t \<and> calm s t) (wait addr s)"
proof (cases "wait_scan (procs s) (cur s) False 0 NPROC")
  case (Inl np)
  note z = wait_scan_Inl [OF Inl]
  have sl: "slot np (pcore (procs s np)) s t" if "psame s t" for t by (rule slot_refl [OF that])
  have fr: "okr (\<lambda>_ t. family_ok t \<and> calm s t) (freeproc np t)" if t: "psame s t" for t
  proof (rule okr_weaken, rule freeproc_slot)
    show "slot np (ZOMBIE, Some (cur s), p_chan (procs s np), p_trapframe (procs s np), p_pagetable (procs s np)) s t"
      using sl [OF t] z by (simp add: pcore_def)
    fix u assume u: "slot np (UNUSED, None, None, 0, 0) s u"
    show "family_ok u \<and> calm s u" using z by (intro conjI family_unused [OF s u] calm_slot [OF u]) (auto simp: pcore_def)
  qed
  show ?thesis
    unfolding wait_def Inl sum.case Let_def
  proof (rule okr_bind)
    show "okr (\<lambda>_. psame s) ((if addr \<noteq> 0
             then on_vm (copyout (p_pagetable (procs s (cur s))) addr (int_bytes (p_xstate (procs s np)))) else kret 0) s)"
      by (intro okp psame_refl)
    fix r t assume t: "psame s t"
    show "okr (\<lambda>_ t. family_ok t \<and> calm s t) ((if r < 0 then kret (- 1) else kthen (freeproc np) (kret (p_pid (procs s np)))) t)"
    proof (rule okp_if)
      show "okr (\<lambda>_ t. family_ok t \<and> calm s t) (kret (- 1) t)" using family_psame [OF s t] calm_psame [OF t] by simp
      show "okr (\<lambda>_ t. family_ok t \<and> calm s t) (kthen (freeproc np) (kret (p_pid (procs s np))) t)" by (rule okr_then, rule fr [OF t]) simp
    qed
  qed
next
  case (Inr hk)
  with s show ?thesis by (simp add: wait_def)
qed

lemma psame_swtch_out: "psame s (swtch_out s)"
  by (simp add: swtch_out_def psame_def pcore_def)

lemma sched_psame: "okr (\<lambda>_. psame s) (sched l n i s)"
  unfolding sched_def by (intro okp psame_swtch_out)

lemma growproc_psame: "okr (\<lambda>_. psame s) (growproc n s)"
  unfolding growproc_def Let_def by (intro okp okp_upd_proc psame_refl) (assumption | simp add: pcore_def)+

lemma resume_family: "family_ok s \<Longrightarrow> running s \<Longrightarrow> okr (\<lambda>_. family_ok) (sleep_resume s)"
proof -
  assume s: "family_ok s" and r: "running s"
  let ?p = "procs s (cur s)"
  have c: "core_ok (cur s = initproc s) (pcore ?p)" using family_okD(1,4) [OF s] by blast
  have "family_ok (s\<lparr>procs := (procs s)(cur s := ?p\<lparr>p_chan := None\<rparr>)\<rparr>)"
    using c r family_okD(1,5,6) [OF s]
    by (intro family_slot [OF s, where i = "cur s" and c = "(RUNNING, p_parent ?p, None, p_trapframe ?p, p_pagetable ?p)"])
      (auto simp: slot_def pcore_def running_def)
  then show ?thesis by (simp add: sleep_resume_def upd_proc_def)
qed

lemma give_up_family:
  assumes s: "family_ok s" and r: "running s" and st: "st = RUNNABLE \<or> st = SLEEPING \<and> ch \<noteq> None"
    and f: "\<And>p. pcore (f p) = (st, p_parent p, (if st = SLEEPING then ch else p_chan p), p_trapframe p, p_pagetable p)"
  shows "okr (\<lambda>_ t. family_ok t \<and> (\<forall>j. j \<noteq> cur s \<longrightarrow> pcore (procs t j) = pcore (procs s j)))
    (kthen (\<lambda>s. upd_proc (cur s) f s) (sched l n i) s)"
proof (rule okr_then)
  let ?p = "procs s (cur s)"
  let ?c = "(st, p_parent ?p, (if st = SLEEPING then ch else p_chan ?p), p_trapframe ?p, p_pagetable ?p)"
  have c: "core_ok (cur s = initproc s) (pcore ?p)" using family_okD(1,4) [OF s] by blast
  show "okr (\<lambda>_. slot (cur s) ?c s) (upd_proc (cur s) f s)" using f by (simp add: upd_proc_def slot_def)
  fix t assume t: "slot (cur s) ?c s t"
  have t': "family_ok t" using c r st family_okD(1,5,6) [OF s]
    by (intro family_slot [OF s t]) (auto simp: pcore_def running_def)
  show "okr (\<lambda>_ t. family_ok t \<and> (\<forall>j. j \<noteq> cur s \<longrightarrow> pcore (procs t j) = pcore (procs s j))) (sched l n i t)"
  proof (rule okr_weaken, rule sched_psame)
    fix u assume "psame t u"
    then show "family_ok u \<and> (\<forall>j. j \<noteq> cur s \<longrightarrow> pcore (procs u j) = pcore (procs s j))"
      using family_psame [OF t'] slot_psame [OF t] by (simp add: slot_def)
  qed
qed

lemma yield_family:
  assumes "family_ok s" "running s"
  shows "okr (\<lambda>_ t. family_ok t \<and> (\<forall>j. j \<noteq> cur s \<longrightarrow> pcore (procs t j) = pcore (procs s j))) (yield s)"
  unfolding yield_def by (rule give_up_family [OF assms, where st = RUNNABLE]) (simp_all add: pcore_def)

lemma sleep_family:
  assumes "family_ok s" "running s"
  shows "okr (\<lambda>_ t. family_ok t \<and> (\<forall>j. j \<noteq> cur s \<longrightarrow> pcore (procs t j) = pcore (procs s j))) (sleep ch n s)"
  unfolding sleep_def by (rule give_up_family [OF assms, where st = SLEEPING and ch = "Some ch"]) (simp_all add: pcore_def)

text \<open>The scheduler hands the CPU to process \<open>i\<close>.\<close>

definition dispatch :: "nat \<Rightarrow> 'x pstate_scheme \<Rightarrow> 'x pstate_scheme" where
  "dispatch i s = swtch_in i (s\<lparr>procs := (procs s)(i := (procs s i)\<lparr>p_state := RUNNING\<rparr>)\<rparr>)"

lemma dispatch_family:
  assumes s: "family_ok s" and i: "i < NPROC" "p_state (procs s i) = RUNNABLE"
  shows "family_ok (dispatch i s)" "running (dispatch i s)"
    "j \<noteq> i \<Longrightarrow> pcore (procs (dispatch i s) j) = pcore (procs s j)" "cur (dispatch i s) = i"
proof -
  let ?t = "s\<lparr>procs := (procs s)(i := (procs s i)\<lparr>p_state := RUNNING\<rparr>)\<rparr>"
  have c: "core_ok (i = initproc s) (pcore (procs s i))" using family_okD(4) [OF s] i by blast
  have "family_ok ?t"
    using c i family_okD(5,6) [OF s]
    by (intro family_slot [OF s, where i = i and c = "(RUNNING, snd (pcore (procs s i)))"]) (auto simp: slot_def pcore_def)
  moreover have "procs (dispatch i s) = procs ?t" "cur (dispatch i s) = i" "initproc (dispatch i s) = initproc ?t"
    by (simp_all add: dispatch_def swtch_in_def)
  ultimately show "family_ok (dispatch i s)" "running (dispatch i s)"
    "j \<noteq> i \<Longrightarrow> pcore (procs (dispatch i s) j) = pcore (procs s j)" "cur (dispatch i s) = i"
    using i by (simp_all add: family_ok_def running_def)
qed

section \<open>The system of processes\<close>

text \<open>
  What can happen next: the running process calls an operation of \<^verbatim>\<open>kernel/proc.c\<close>, an interrupt wakes
  sleepers, the scheduler dispatches a process, or other kernel code runs that leaves the table alone, such as
  the system calls on files.
\<close>

inductive pstep :: "'x pstate_scheme \<Rightarrow> 'x pstate_scheme \<Rightarrow> bool" where
  Fork: "running s \<Longrightarrow> fork s = Ret r t \<Longrightarrow> pstep s t"
| Exit: "running s \<Longrightarrow> kthen (exit status) (sched True 1 False) s = Ret () t \<Longrightarrow> pstep s t"
| Wait: "running s \<Longrightarrow> wait addr s = Ret r t \<Longrightarrow> pstep s t"
| Kill: "running s \<Longrightarrow> kill pid s = Ret r t \<Longrightarrow> pstep s t"
| Grow: "running s \<Longrightarrow> growproc n s = Ret r t \<Longrightarrow> pstep s t"
| Yield: "running s \<Longrightarrow> yield s = Ret () t \<Longrightarrow> pstep s t"
| Sleep: "running s \<Longrightarrow> sleep ch 0 s = Ret () t \<Longrightarrow> pstep s t"
| Resume: "running s \<Longrightarrow> sleep_resume s = Ret () t \<Longrightarrow> pstep s t"
| Wakeup: "pstep s (wakeup ch s)"
| Dispatch: "\<not> running s \<Longrightarrow> i < NPROC \<Longrightarrow> p_state (procs s i) = RUNNABLE \<Longrightarrow> pstep s (dispatch i s)"
| Other: "psame s t \<Longrightarrow> pstep s t"

lemma exit_sched_family:
  assumes "family_ok s" "running s"
  shows "okr (\<lambda>_. family_ok) (kthen (exit status) (sched True 1 False) s)"
proof (rule okr_then, rule exit_family [OF assms])
  show "okr (\<lambda>_. family_ok) (sched True 1 False t)" if "family_ok t" for t :: "'a pstate_scheme"
    using family_psame [OF that] by (rule okr_weaken [OF sched_psame])
qed

lemma pstep_family:
  assumes "pstep s t" and s: "family_ok s"
  shows "family_ok t"
  using assms(1)
proof cases
  case Fork
  show ?thesis using okrD [OF fork_family [OF s Fork(1)] Fork(2)] by simp
next
  case Exit
  show ?thesis using okrD [OF exit_sched_family [OF s Exit(1)] Exit(2)] .
next
  case Wait
  show ?thesis using okrD [OF wait_family [OF s] Wait(2)] by simp
next
  case Kill
  show ?thesis using family_wakes [OF s okrD [OF kill_wakes Kill(2)]] .
next
  case Grow
  show ?thesis using family_psame [OF s okrD [OF growproc_psame Grow(2)]] .
next
  case Yield
  show ?thesis using okrD [OF yield_family [OF s Yield(1)] Yield(2)] by simp
next
  case Sleep
  show ?thesis using okrD [OF sleep_family [OF s Sleep(1)] Sleep(2)] by simp
next
  case Resume
  show ?thesis using okrD [OF resume_family [OF s Resume(1)] Resume(2)] .
next
  case Wakeup
  then show ?thesis using family_wakes [OF s wakeup_wakes] by simp
next
  case Dispatch
  then show ?thesis using dispatch_family(1) [OF s] by simp
next
  case Other
  then show ?thesis by (rule family_psame [OF s])
qed

text \<open>
  C32. In every run of the process system, whatever the order of forks, exits, waits, kills, sleeps, wakeups and
  dispatches, the table stays well formed: an entry in use has its trap frame, page table and parent and a free
  one has none, a sleeping process has a channel to be woken on, and the parent of every process, a zombie
  included, is a process that has not exited, so that someone can wait for it.
\<close>

theorem process_family:
  assumes "family_ok s" and "pstep\<^sup>*\<^sup>* s t"
  shows "family_ok t"
  using assms(2,1) by (induction rule: rtranclp_induct) (use pstep_family in blast)+

text \<open>A system for the witnesses: \<^verbatim>\<open>init\<close> runs and one child sleeps on channel 7.\<close>

definition sample_proc :: proc where
  "sample_proc = \<lparr>p_state = UNUSED, p_parent = None, p_chan = None, p_killed = False, p_xstate = 0, p_pid = 0, p_kstack = 0, p_sz = 0,
     p_pagetable = 0, p_trapframe = 0, p_context = \<lparr>c_ra = 0, c_sp = 0, c_s = (\<lambda>_. 0)\<rparr>, p_ofile = (\<lambda>_. None), p_cwd = 0, p_name = (\<lambda>_. 0)\<rparr>"

definition sample_procs :: "nat \<Rightarrow> proc" where
  "sample_procs = (\<lambda>_. sample_proc)
     (0 := sample_proc\<lparr>p_state := RUNNING, p_pid := 1, p_pagetable := 4096, p_trapframe := 8192\<rparr>,
      1 := sample_proc\<lparr>p_state := SLEEPING, p_parent := Some 0, p_chan := Some (ChAddr 7), p_pid := 2, p_pagetable := 12288, p_trapframe := 16384\<rparr>)"

definition sample_system :: pstate where
  "sample_system = ostate.extend (fstate.extend (lstate.extend sample_boot
     (fstate.fields (get_sb (\<lambda>_. 0)) (\<lambda>_. \<lparr>i_dev = 0, i_inum = 0, i_ref = 0, i_lock = initsleeplock, i_valid = False, i_type = 0, i_major = 0, i_mode = 0,
        i_nlink = 0, i_size = 0, i_addrs = (\<lambda>_. 0)\<rparr>) 0))
     (ostate.fields (\<lambda>_. \<lparr>f_type = FD_NONE, f_ref = 0, f_readable = False, f_writable = False, f_pipe = 0, f_ip = 0, f_off = 0, f_major = 0\<rparr>) (\<lambda>_. None)
        (\<lambda>_. \<lparr>p_data = (\<lambda>_. 0), nread = 0, nwrite = 0, readopen = False, writeopen = False\<rparr>) False
        \<lparr>pmem = (\<lambda>_. 0), freelist = 0, kend = KERNBASE, kernel_pagetable = 0, satp = 0, etext = 0, trampoline = 0\<rparr>))
     (pstate.fields sample_procs 0 3 0 False 0)"

lemma sample_system_sel: "procs sample_system = sample_procs" "cur sample_system = 0" "initproc sample_system = 0"
  by (simp_all add: sample_system_def lstate.defs fstate.defs ostate.defs pstate.defs)

lemma sample_system_family: "family_ok sample_system" "running sample_system"
  by (auto simp: family_ok_def running_def sample_system_sel sample_procs_def sample_proc_def pcore_def NPROC_def)

theorem process_family_witness:
  "pstep\<^sup>*\<^sup>* sample_system (wakeup (ChAddr 7) sample_system) \<and> family_ok (wakeup (ChAddr 7) sample_system)"
proof -
  have "pstep\<^sup>*\<^sup>* sample_system (wakeup (ChAddr 7) sample_system)" by (rule r_into_rtranclp) (rule pstep.Wakeup)
  with process_family [OF sample_system_family(1) this] show ?thesis by blast
qed

section \<open>Every process that is ready runs\<close>

text \<open>
  What the scheduler needs of a turn of a process: whatever the process does until it gives up the CPU, the
  table stays well formed and every other process that was ready still is.
\<close>

locale cpu_turns =
  fixes run :: "nat \<Rightarrow> 'x pstate_scheme \<Rightarrow> 'x pstate_scheme"
    and inv :: "'x pstate_scheme \<Rightarrow> bool"
  assumes turn_inv: "inv s \<Longrightarrow> i < NPROC \<Longrightarrow> p_state (procs s i) = RUNNABLE \<Longrightarrow> inv (swtch_out (run i (dispatch i s)))"
    and turn_ready: "inv s \<Longrightarrow> i < NPROC \<Longrightarrow> p_state (procs s i) = RUNNABLE \<Longrightarrow> j \<noteq> i \<Longrightarrow> p_state (procs s j) = RUNNABLE \<Longrightarrow>
      p_state (procs (swtch_out (run i (dispatch i s))) j) = RUNNABLE"
begin

lemma pass_Suc:
  "scheduler_pass run i (Suc k) s =
     (if p_state (procs s i) = RUNNABLE
      then (i # fst (scheduler_pass run (Suc i) k (swtch_out (run i (dispatch i s)))), snd (scheduler_pass run (Suc i) k (swtch_out (run i (dispatch i s)))))
      else scheduler_pass run (Suc i) k s)"
  by (simp add: dispatch_def Let_def split: prod.split)

lemma pass_inv:
  "inv s \<Longrightarrow> i + k \<le> NPROC \<Longrightarrow> inv (snd (scheduler_pass run i k s))"
  by (induction k arbitrary: i s) (simp_all add: pass_Suc turn_inv del: scheduler_pass.simps(2))

lemma pass_runs:
  "inv s \<Longrightarrow> i + k \<le> NPROC \<Longrightarrow> i \<le> j \<Longrightarrow> j < i + k \<Longrightarrow> p_state (procs s j) = RUNNABLE \<Longrightarrow> j \<in> set (fst (scheduler_pass run i k s))"
proof (induction k arbitrary: i s)
  case (Suc k)
  show ?case
  proof (cases "j = i")
    case False
    have "p_state (procs (swtch_out (run i (dispatch i s))) j) = RUNNABLE" if "p_state (procs s i) = RUNNABLE"
      using turn_ready [OF Suc.prems(1) _ that False Suc.prems(5)] Suc.prems by simp
    moreover have "inv (swtch_out (run i (dispatch i s)))" if "p_state (procs s i) = RUNNABLE"
      using turn_inv [OF Suc.prems(1) _ that] Suc.prems by simp
    ultimately show ?thesis using Suc.IH [of s "Suc i"] Suc.IH [of "swtch_out (run i (dispatch i s))" "Suc i"] Suc.prems False
      by (simp add: pass_Suc del: scheduler_pass.simps(2))
  qed (use Suc.prems in \<open>simp add: pass_Suc del: scheduler_pass.simps(2)\<close>)
qed simp

lemma pass_order:
  "sorted_wrt (<) (fst (scheduler_pass run i k s)) \<and> set (fst (scheduler_pass run i k s)) \<subseteq> {i..<i + k}"
proof (induction k arbitrary: i s)
  case (Suc k)
  show ?case using Suc [of "Suc i" s] Suc [of "Suc i" "swtch_out (run i (dispatch i s))"]
    by (auto simp: pass_Suc simp del: scheduler_pass.simps(2))
qed simp

end

text \<open>
  A turn of a process in the model: calls of the operations that return to it, then the one that gives up the
  CPU. A call of \<^verbatim>\<open>wait\<close> with no child to collect puts the process to sleep on itself. After a panic the machine
  stands still.
\<close>

datatype pcall = CFork | CWait nat | CKill int | CWakeup chan | CGrow int
datatype pstop = StYield | StSleep chan | StExit int

primrec call_op :: "pcall \<Rightarrow> ('x pstate_scheme, int) kernel" where
  "call_op CFork = fork"
| "call_op (CWait addr) = wait addr"
| "call_op (CKill pid) = kill pid"
| "call_op (CWakeup ch) = kthen (kmod (wakeup ch)) (kret 0)"
| "call_op (CGrow n) = growproc n"

primrec stop_op :: "pstop \<Rightarrow> ('x pstate_scheme, unit) kernel" where
  "stop_op StYield = yield"
| "stop_op (StSleep ch) = sleep ch 0"
| "stop_op (StExit status) = kthen (exit status) (sched True 1 False)"

primrec turn_from :: "pcall list \<Rightarrow> pstop \<Rightarrow> 'x pstate_scheme \<Rightarrow> 'x pstate_scheme" where
  "turn_from [] st s = (case stop_op st s of Ret _ t \<Rightarrow> t | _ \<Rightarrow> s)"
| "turn_from (c # cs) st s =
     (case call_op c s of
        Ret _ t \<Rightarrow> turn_from cs st t
      | Sleep _ \<Rightarrow> (case sleep (ChProc (cur s)) 0 s of Ret _ t \<Rightarrow> t | _ \<Rightarrow> s)
      | _ \<Rightarrow> s)"

definition turn :: "(nat \<Rightarrow> pcall list \<times> pstop) \<Rightarrow> nat \<Rightarrow> 'x pstate_scheme \<Rightarrow> 'x pstate_scheme" where
  "turn prog i s = turn_from (fst (prog i)) (snd (prog i)) s"

definition others_ready :: "'x pstate_scheme \<Rightarrow> 'x pstate_scheme \<Rightarrow> bool" where
  "others_ready s t \<longleftrightarrow> cur t = cur s \<and> (\<forall>j. j \<noteq> cur s \<and> p_state (procs s j) = RUNNABLE \<longrightarrow> p_state (procs t j) = RUNNABLE)"

lemma wakes_calm: "wakes s t \<Longrightarrow> calm s t"
proof -
  assume w: "wakes s t"
  have "p_state (procs t j) = p_state (procs s j)" if "p_state (procs s j) \<noteq> SLEEPING" for j
    using w that unfolding wakes_def p_state_core by metis
  moreover have "cur t = cur s" using w by (simp add: wakes_def)
  ultimately show ?thesis by (auto simp: calm_def)
qed

lemma calm_others: "calm s t \<Longrightarrow> others_ready s t"
  by (simp add: calm_def others_ready_def)

lemma others_trans: "others_ready s t \<Longrightarrow> others_ready t u \<Longrightarrow> others_ready s u"
  by (simp add: others_ready_def)

lemma call_op_family:
  assumes s: "family_ok s" "running s"
  shows "okr (\<lambda>_ t. family_ok t \<and> calm s t) (call_op c s)"
proof (cases c)
  case CFork
  then show ?thesis using fork_family [OF s] by simp
next
  case (CWait addr)
  then show ?thesis using wait_family [OF s(1)] by simp
next
  case (CKill pid)
  then show ?thesis using kill_wakes [of s pid] family_wakes [OF s(1)] wakes_calm [of s] by (auto simp: okr_def)
next
  case (CWakeup ch)
  then show ?thesis using family_wakes [OF s(1) wakeup_wakes] wakes_calm [OF wakeup_wakes] by simp
next
  case (CGrow n)
  then show ?thesis using growproc_psame [of s n] family_psame [OF s(1)] calm_psame [of s] by (auto simp: okr_def)
qed

lemma others_then:
  "others_ready s t \<Longrightarrow> okr (\<lambda>_. psame t) (m t) \<Longrightarrow> (\<And>u. others_ready s u \<Longrightarrow> okr P (k u)) \<Longrightarrow> okr P (kthen m k t)"
  "others_ready s t \<Longrightarrow> okr (\<lambda>_. wakes t) (m t) \<Longrightarrow> (\<And>u. others_ready s u \<Longrightarrow> okr P (k u)) \<Longrightarrow> okr P (kthen m k t)"
  by (erule okr_then; blast intro: others_trans calm_others calm_psame wakes_calm)+

lemma exit_others:
  "okr (\<lambda>_. others_ready s) (kthen (exit status) (sched True 1 False) s)"
proof -
  have z: "okr (\<lambda>_. others_ready s) (upd_proc (cur t) (\<lambda>p. p\<lparr>p_xstate := status, p_state := ZOMBIE\<rparr>) t)" if "others_ready s t" for t
    using that by (simp add: upd_proc_def others_ready_def)
  have rp: "others_ready s (reparent (cur t) t)" if "others_ready s t" for t
    using that by (simp add: reparent_def others_ready_def)
  have tail: "okr (\<lambda>_. others_ready s) (case p_parent (procs t (cur t)) of None \<Rightarrow> Panic ''null parent''
        | Some original_parent \<Rightarrow> kthen (kmod (\<lambda>s. reparent (cur s) s)) (kthen (wakeup1 original_parent)
            (\<lambda>s. upd_proc (cur s) (\<lambda>p. p\<lparr>p_xstate := status, p_state := ZOMBIE\<rparr>) s)) t)" if "others_ready s t" for t
    by (simp split: option.split) (intro allI impI, rule others_then(2) [OF rp [OF that]], rule wakeup1_wakes, erule z)
  have e: "okr (\<lambda>_. others_ready s) (exit status s)"
  proof (cases "cur s = initproc s")
    case False
    have "others_ready s s" by (simp add: others_ready_def)
    with tail show ?thesis
      unfolding exit_def if_not_P [OF False]
      apply -
      apply (erule others_then(1), intro okp psame_refl, assumption)
      apply (erule others_then(1), intro okp psame_refl)
      apply (erule others_then(1), intro okp psame_refl)
      apply (erule others_then(1), intro okp psame_refl)
      apply (erule others_then(2), rule wakeup1_wakes)
      apply blast
      done
  qed (simp add: exit_def)
  show ?thesis
  proof (rule okr_then, rule e)
    show "okr (\<lambda>_. others_ready s) (sched True 1 False t)" if "others_ready s t" for t
      by (rule okr_weaken [OF sched_psame]) (blast intro: that others_trans calm_others calm_psame)
  qed
qed

lemma stop_op_family:
  assumes s: "family_ok s" "running s"
  shows "okr (\<lambda>_ t. family_ok t \<and> others_ready s t) (stop_op st s)"
proof -
  have o: "others_ready s t" if "\<forall>j. j \<noteq> cur s \<longrightarrow> pcore (procs t j) = pcore (procs s j)" "cur t = cur s" for t
    using that by (simp add: others_ready_def p_state_core)
  have "okr (\<lambda>_ t. cur t = cur s) (yield s)" "okr (\<lambda>_ t. cur t = cur s) (sleep ch 0 s)" for ch
    by (simp_all add: yield_def sleep_def upd_proc_def sched_def swtch_out_def okr_def)
  with yield_family [OF s] sleep_family [OF s, where n = 0] exit_sched_family [OF s] exit_others [of s] o show ?thesis
    by (cases st) (simp_all add: okr_def)
qed

lemma turn_from_family:
  "family_ok s \<Longrightarrow> running s \<Longrightarrow> family_ok (turn_from cs st s) \<and> others_ready s (turn_from cs st s)"
proof (induction cs arbitrary: s)
  case Nil
  have "others_ready s s" by (simp add: others_ready_def)
  then show ?case using stop_op_family [OF Nil, of st] Nil by (auto simp: okr_def split: outcome.split)
next
  case (Cons c cs)
  have r: "others_ready s s" by (simp add: others_ready_def)
  have sl: "family_ok t \<and> others_ready s t" if "sleep (ChProc (cur s)) 0 s = Ret () t" for t
    using okrD [OF stop_op_family [OF Cons.prems, of "StSleep (ChProc (cur s))"], simplified, OF that] .
  show ?case
  proof (cases "call_op c s")
    case (Ret a t)
    then have t: "family_ok t" "calm s t" using okrD [OF call_op_family [OF Cons.prems] Ret] by auto
    then show ?thesis using Ret Cons.IH [OF t(1) calm_running [OF t(2) Cons.prems(2)]] others_trans [OF calm_others [OF t(2)]] by simp
  qed (use r sl Cons.prems in \<open>auto split: outcome.split\<close>)
qed

interpretation tu: cpu_turns "turn prog" family_ok for prog
proof
  fix s :: "'b pstate_scheme" and i j
  assume s: "family_ok s" and i: "i < NPROC" "p_state (procs s i) = RUNNABLE"
  note d = dispatch_family [OF s i]
  have t: "family_ok (turn prog i (dispatch i s))" "others_ready (dispatch i s) (turn prog i (dispatch i s))"
    using turn_from_family [OF d(1,2)] by (simp_all add: turn_def)
  show "family_ok (swtch_out (turn prog i (dispatch i s)))" using family_psame [OF t(1) psame_swtch_out] .
  assume j: "j \<noteq> i" "p_state (procs s j) = RUNNABLE"
  then have "p_state (procs (dispatch i s) j) = RUNNABLE" using d(3) by (simp add: p_state_core)
  then have "p_state (procs (turn prog i (dispatch i s)) j) = RUNNABLE" using t(2) j(1) d(4) by (simp add: others_ready_def)
  then show "p_state (procs (swtch_out (turn prog i (dispatch i s))) j) = RUNNABLE"
    by (auto simp: swtch_out_def)
qed



section \<open>Killing nobody\<close>

lemma pid_scan_unused:
  "(\<And>j. i \<le> j \<Longrightarrow> j < i + k \<Longrightarrow> p_pid (ps j) = 0 \<longleftrightarrow> p_state (ps j) = UNUSED) \<Longrightarrow> pid_scan ps 0 i k = unused_scan ps i k"
  by (induction k arbitrary: i) auto

lemma unused_scan_cong: "(\<And>j. p_state (ps j) = p_state (qs j)) \<Longrightarrow> unused_scan ps i k = unused_scan qs i k"
  by (induction k arbitrary: i) auto

definition doomed :: "nat \<Rightarrow> 'x pstate_scheme \<Rightarrow> bool" where
  "doomed i s \<longleftrightarrow> p_killed (procs s i)"

lemma okd_bind: "okr (\<lambda>_. doomed i) (m s) \<Longrightarrow> (\<And>a t. doomed i t \<Longrightarrow> okr P (k a t)) \<Longrightarrow> okr P (kbind m k s)"
  by (rule okr_bind)

lemma okd_then: "okr (\<lambda>_. doomed i) (m s) \<Longrightarrow> (\<And>t. doomed i t \<Longrightarrow> okr P (k t)) \<Longrightarrow> okr P (kthen m k s)"
  by (rule okr_then)

lemma okd_upd: "doomed i s \<Longrightarrow> (\<And>p. p_killed (f p) = p_killed p) \<Longrightarrow> okr (\<lambda>_. doomed i) (upd_proc j f s)"
  by (auto simp: doomed_def upd_proc_def)

lemma okd_vm: "doomed i s \<Longrightarrow> okr (\<lambda>_. doomed i) (on_vm m s)"
  by (simp add: on_vm_def doomed_def split: outcome.split)

lemma okd_ret: "doomed i s \<Longrightarrow> okr (\<lambda>_. doomed i) (Ret a s)" "doomed i s \<Longrightarrow> okr (\<lambda>_. doomed i) (kret a s)" "doomed i s \<Longrightarrow> okr (\<lambda>_. doomed i) (kget g s)"
  by simp_all

lemma okd_files: "doomed i s \<Longrightarrow> okr (\<lambda>_. doomed i) (filedup f s)" "doomed i s \<Longrightarrow> okr (\<lambda>_. doomed i) (idup ip s)"
  "doomed i s \<Longrightarrow> okr (\<lambda>_. doomed i) (allocpid s)"
  by (simp_all add: filedup_def idup_def upd_file_def upd_inode_def allocpid_def doomed_def)

lemma okd_proc_pagetable: "doomed i s \<Longrightarrow> okr (\<lambda>_. doomed i) (proc_pagetable j s)"
  unfolding proc_pagetable_def by (intro okd_bind okd_then okd_vm okd_ret okp_if)

lemma okd_fork_files: "doomed i s \<Longrightarrow> okr (\<lambda>_. doomed i) (fork_files np fd s)"
  unfolding fork_files_def by (intro okd_bind okd_then okd_vm okd_ret okd_files okp_option okd_upd; simp)

lemma okd_kfor: "doomed i s \<Longrightarrow> (\<And>j s. doomed i s \<Longrightarrow> okr (\<lambda>_. doomed i) (body j s)) \<Longrightarrow> okr (\<lambda>_. doomed i) (kfor lo n body s)"
  by (induction n arbitrary: lo s) (auto intro!: okd_then)

lemma okd_fail: "(\<And>t. P a t) \<Longrightarrow> okr P (kthen m (kret a) s)"
  by (rule okr_then [where Q = "\<lambda>_ _. True"]) (simp_all add: okr_def)

lemma allocproc_doomed:
  assumes "unused_scan (procs s) 0 NPROC = Some i" "doomed i s"
  shows "okr (\<lambda>r t. \<forall>np. r = Some np \<longrightarrow> np = i \<and> doomed i t) (allocproc s)"
  unfolding allocproc_def assms(1) option.case
  apply (rule okd_bind, rule okd_files(3) [OF assms(2)])
  apply (rule okd_then, erule okd_upd, simp)
  apply (rule okd_bind, erule okd_vm)
  apply (rule okd_then, erule okd_upd, simp)
  apply (rule okp_if, simp)
  apply (rule okd_bind, erule okd_proc_pagetable)
  apply (rule okd_then, erule okd_upd, simp)
  apply (rule okp_if)
   apply (rule okd_fail, simp)
  apply (rule okd_then, erule okd_upd, simp)
  apply simp
  done

lemma fork_child_doomed:
  assumes "doomed i s"
  shows "okr (\<lambda>r t. r = - 1 \<or> doomed i t \<and> p_state (procs t i) = RUNNABLE) (fork_child i s)"
  unfolding fork_child_def
  apply (rule okd_bind, rule okd_vm [OF assms])
  apply (rule okp_if)
   apply (rule okd_fail, simp)
  apply (rule okd_then, erule okd_upd, simp)
  apply (rule okd_then, erule okd_vm)
  apply (rule okd_then, unfold wr_tf_def, erule okd_vm)
  apply (rule okd_then, rule okd_kfor, assumption, erule okd_fork_files)
  apply (rule okd_bind, erule okd_files)
  apply (rule okd_then, erule okd_upd, simp)
  apply (rule okd_then, erule okd_upd, simp)
  apply (rule okd_bind, simp)
  apply (rule okr_then [where Q = "\<lambda>_ t. doomed i t \<and> p_state (procs t i) = RUNNABLE"], simp add: upd_proc_def doomed_def)
  apply simp
  done



end
