(* ===== verification/Pagetable.thy ===== *)
theory Pagetable
  imports Vm
begin

unbundle bit_operations_syntax

text \<open>
  Three-level page tables as finite maps: what \<^verbatim>\<open>walk\<close>, \<^verbatim>\<open>mappages\<close> and \<^verbatim>\<open>walkaddr\<close> of \<^verbatim>\<open>kernel/vm.c\<close> do to
  the function from pages to entries that a table in physical memory represents, and what
  \<^verbatim>\<open>copyout\<close> and \<^verbatim>\<open>copyin\<close> do to the user's memory.
\<close>

section \<open>Entries\<close>

lemma pte_flag_vals: "PTE_V = 1" "PTE_R = 2" "PTE_W = 4" "PTE_X = 8" "PTE_U = 16" "MAXVA = 274877906944"
  by (simp_all add: PTE_V_def PTE_R_def PTE_W_def PTE_X_def PTE_U_def MAXVA_def)

lemma and_pow2: "(e :: nat) AND push_bit n 1 \<noteq> 0 \<longleftrightarrow> bit e n"
  using bit_iff_and_push_bit_not_eq_0 [of e n] by simp

lemma and_PTE_V: "e AND PTE_V \<noteq> 0 \<longleftrightarrow> bit e 0"
  unfolding PTE_V_def by (rule and_pow2)

lemma and_PTE_U: "e AND PTE_U \<noteq> 0 \<longleftrightarrow> bit e 4"
  unfolding PTE_U_def by (rule and_pow2)

lemma PTE2PA_eq: "PTE2PA e = e div 1024 * 4096"
  by (simp add: PTE2PA_def push_bit_eq_mult drop_bit_eq_div)

lemma PA2PTE_eq: "PA2PTE pa = pa div 4096 * 1024"
  by (simp add: PA2PTE_def push_bit_eq_mult drop_bit_eq_div)

lemma PX_eq: "PX l va = va div 2 ^ (12 + 9 * l) mod 512"
proof -
  have "(x :: nat) AND 0x1FF = x mod 512" for x
    using take_bit_eq_mask [of 9 x] by (simp add: mask_eq_exp_minus_1 take_bit_eq_mod)
  then show ?thesis by (simp add: PX_def PXSHIFT_def drop_bit_eq_div)
qed

lemma PX_less: "PX l va < 512"
  by (simp add: PX_eq)

lemma mk_pte:
  assumes "pa mod PGSIZE = 0" and "perm < 1024"
  shows "PTE2PA (PA2PTE pa OR perm OR PTE_V) = pa" "bit (PA2PTE pa OR perm OR PTE_V) 0"
    "bit (PA2PTE pa OR perm OR PTE_V) 4 \<longleftrightarrow> bit perm 4" "pa < 2 ^ 64 \<Longrightarrow> PA2PTE pa OR perm OR PTE_V < 2 ^ 64"
proof -
  have d: "drop_bit 10 perm = 0" "drop_bit 10 PTE_V = 0" using assms(2) by (simp_all add: drop_bit_eq_div PTE_V_def)
  have "drop_bit 10 (PA2PTE pa OR perm OR PTE_V) = drop_bit 12 pa"
    by (simp add: d PA2PTE_def) (simp add: drop_bit_eq_div push_bit_eq_mult)
  then show "PTE2PA (PA2PTE pa OR perm OR PTE_V) = pa"
    using assms(1) by (simp add: PTE2PA_def push_bit_eq_mult drop_bit_eq_div kconsts minus_mod_eq_div_mult [symmetric])
  have v: "bit PTE_V i \<longleftrightarrow> i = 0" for i by (simp add: PTE_V_def bit_1_iff flip: One_nat_def)
  show "bit (PA2PTE pa OR perm OR PTE_V) 0" by (simp add: bit_or_iff v)
  show "bit (PA2PTE pa OR perm OR PTE_V) 4 \<longleftrightarrow> bit perm 4"
    by (simp add: bit_or_iff v PA2PTE_def bit_push_bit_iff)
  assume "pa < 2 ^ 64"
  then have "take_bit 64 pa = pa" by (simp add: take_bit_nat_eq_self)
  have "take_bit 64 (PA2PTE pa OR perm OR PTE_V) = PA2PTE pa OR perm OR PTE_V"
  proof -
    have "PA2PTE pa < 2 ^ 64" "perm < 2 ^ 64" "PTE_V < 2 ^ 64"
      using \<open>pa < 2 ^ 64\<close> assms(2) by (simp_all add: PA2PTE_eq PTE_V_def)
    then show ?thesis by (simp add: take_bit_or take_bit_nat_eq_self)
  qed
  then show "PA2PTE pa OR perm OR PTE_V < 2 ^ 64" by (metis take_bit_nat_less_exp)
qed

lemma page_index_unique:
  assumes "va < MAXVA" "va' < MAXVA" "PX 2 va = PX 2 va'" "PX 1 va = PX 1 va'" "PX 0 va = PX 0 va'"
  shows "va div PGSIZE = va' div PGSIZE"
proof -
  have e: "v div 4096 = PX 0 v + 512 * PX 1 v + 262144 * PX 2 v" if "v < MAXVA" for v
  proof -
    have "v div 1073741824 < 512" using that by (simp add: pte_flag_vals less_mult_imp_div_less)
    then have 2: "PX 2 v = v div 4096 div 512 div 512" by (simp add: PX_eq div_mult2_eq [symmetric])
    have 1: "PX 1 v = v div 4096 div 512 mod 512" by (simp add: PX_eq div_mult2_eq [symmetric])
    have 0: "PX 0 v = v div 4096 mod 512" by (simp add: PX_eq)
    have "512 * (v div 4096 div 512) + v div 4096 mod 512 = v div 4096" by (rule mult_div_mod_eq)
    moreover have "512 * (v div 4096 div 512 div 512) + v div 4096 div 512 mod 512 = v div 4096 div 512" by (rule mult_div_mod_eq)
    ultimately show ?thesis unfolding 0 1 2 by linarith
  qed
  show ?thesis using e [OF assms(1)] e [OF assms(2)] assms(3-5) by (simp add: kconsts)
qed

section \<open>Tables\<close>

text \<open>
  A table is reached from the root along a path of indices. \<open>ent\<close> is the entry of a table page, \<open>nd\<close>
  the page at the end of a path, and \<open>vld\<close> says that all entries on the path are valid.
\<close>

definition ent :: "mem \<Rightarrow> nat \<Rightarrow> nat \<Rightarrow> nat" where
  "ent m pt i = rd64 m (pt + 8 * i)"

fun nd :: "mem \<Rightarrow> nat \<Rightarrow> nat list \<Rightarrow> nat" where
  "nd m r [] = r"
| "nd m r (i # p) = nd m (PTE2PA (ent m r i)) p"

fun vld :: "mem \<Rightarrow> nat \<Rightarrow> nat list \<Rightarrow> bool" where
  "vld m r [] \<longleftrightarrow> True"
| "vld m r (i # p) \<longleftrightarrow> i < 512 \<and> bit (ent m r i) 0 \<and> vld m (PTE2PA (ent m r i)) p"

lemma nd_snoc [simp]: "nd m r (p @ [i]) = PTE2PA (ent m (nd m r p) i)"
  by (induction p arbitrary: r) auto

lemma vld_snoc [simp]: "vld m r (p @ [i]) \<longleftrightarrow> vld m r p \<and> i < 512 \<and> bit (ent m (nd m r p) i) 0"
  by (induction p arbitrary: r) auto

text \<open>A well-formed table with the free pages \<open>xs\<close>: its pages are distinct and none is free.\<close>

definition ptree :: "'x kmem_scheme \<Rightarrow> nat \<Rightarrow> nat list \<Rightarrow> bool" where
  "ptree s r xs \<longleftrightarrow> kmem_ok s xs \<and>
     (\<forall>p. length p \<le> 2 \<and> vld (pmem s) r p \<longrightarrow> nd (pmem s) r p mod PGSIZE = 0 \<and> nd (pmem s) r p \<notin> set xs) \<and>
     (\<forall>p q. length p \<le> 2 \<and> length q \<le> 2 \<and> vld (pmem s) r p \<and> vld (pmem s) r q \<and> nd (pmem s) r p = nd (pmem s) r q \<longrightarrow> p = q)"

lemma ptreeD:
  assumes "ptree s r xs"
  shows "kmem_ok s xs" "length p \<le> 2 \<Longrightarrow> vld (pmem s) r p \<Longrightarrow> nd (pmem s) r p mod PGSIZE = 0"
    "length p \<le> 2 \<Longrightarrow> vld (pmem s) r p \<Longrightarrow> nd (pmem s) r p \<notin> set xs"
    "length p \<le> 2 \<Longrightarrow> length q \<le> 2 \<Longrightarrow> vld (pmem s) r p \<Longrightarrow> vld (pmem s) r q \<Longrightarrow> nd (pmem s) r p = nd (pmem s) r q \<Longrightarrow> p = q"
  using assms unfolding ptree_def by blast+

text \<open>The entry for a virtual address, zero when a table on the way is missing.\<close>

definition vpath :: "nat \<Rightarrow> nat list" where
  "vpath va = [PX 2 va, PX 1 va]"

definition pte_of :: "mem \<Rightarrow> nat \<Rightarrow> nat \<Rightarrow> nat" where
  "pte_of m r va = (if vld m r (vpath va) then ent m (nd m r (vpath va)) (PX 0 va) else 0)"

definition in_tables :: "mem \<Rightarrow> nat \<Rightarrow> nat \<Rightarrow> bool" where
  "in_tables m r a \<longleftrightarrow> (\<exists>p. length p \<le> 2 \<and> vld m r p \<and> nd m r p \<le> a \<and> a < nd m r p + PGSIZE)"

lemma ent_same_page: "x \<noteq> y \<Longrightarrow> i < 512 \<Longrightarrow> j < 512 \<Longrightarrow> x mod PGSIZE = 0 \<Longrightarrow> y mod PGSIZE = 0 \<Longrightarrow>
    ent (wr64 (x + 8 * i) v m) y j = ent m y j"
  using pages_apart [of x y] unfolding ent_def kconsts by (intro rd64_wr64_other) auto

lemma ent_wr64: "x mod PGSIZE = 0 \<Longrightarrow> y mod PGSIZE = 0 \<Longrightarrow> i < 512 \<Longrightarrow> j < 512 \<Longrightarrow>
    ent (wr64 (x + 8 * i) v m) y j = (if x = y \<and> i = j then v mod 18446744073709551616 else ent m y j)"
proof (cases "x = y")
  case True
  then show ?thesis unfolding ent_def by (cases "i = j") (auto intro!: rd64_wr64_other)
qed (auto simp: ent_same_page)

lemma ent_memset:
  assumes "x mod PGSIZE = 0" "y mod PGSIZE = 0" "j < 512"
  shows "x \<noteq> y \<Longrightarrow> ent (memset x c 0 PGSIZE m) y j = ent m y j" "ent (memset x 0 0 PGSIZE m) x j = 0"
proof -
  have j: "8 * j + 8 \<le> PGSIZE" using assms(3) by (simp add: kconsts)
  show "ent (memset x c 0 PGSIZE m) y j = ent m y j" if "x \<noteq> y"
    unfolding ent_def
  proof (rule rd64_cong)
    fix k assume "y + 8 * j \<le> k" "k < y + 8 * j + 8"
    then show "memset x c 0 PGSIZE m k = m k" using j by (intro memset_page_other [OF assms(1,2) that]) linarith+
  qed
  show "ent (memset x 0 0 PGSIZE m) x j = 0"
    using j by (simp add: ent_def rd64_def rd32_def rd16_def memset_eq)
qed

text \<open>Writing a leaf entry.\<close>

lemma write_leaf:
  fixes v :: nat
  assumes t: "ptree s r xs" and p: "length p = 2" "vld (pmem s) r p" and i: "i < 512"
  defines "m \<equiv> wr64 (nd (pmem s) r p + 8 * i) v (pmem s)"
  shows "length q \<le> 2 \<Longrightarrow> (vld m r q \<longleftrightarrow> vld (pmem s) r q) \<and> (vld (pmem s) r q \<longrightarrow> nd m r q = nd (pmem s) r q)"
proof (induction q rule: rev_induct)
  case (snoc j q)
  have IH: "vld m r q \<longleftrightarrow> vld (pmem s) r q" "vld (pmem s) r q \<Longrightarrow> nd m r q = nd (pmem s) r q"
    using snoc by auto
  show ?case
  proof (cases "vld (pmem s) r q \<and> j < 512")
    case True
    have ne: "nd (pmem s) r p \<noteq> nd (pmem s) r q" using ptreeD(4) [OF t, of p q] p True snoc.prems by auto
    have al: "nd (pmem s) r p mod PGSIZE = 0" "nd (pmem s) r q mod PGSIZE = 0"
      using ptreeD(2) [OF t] p True snoc.prems by auto
    have "ent m (nd (pmem s) r q) j = ent (pmem s) (nd (pmem s) r q) j"
      unfolding m_def using True by (intro ent_same_page [OF ne i _ al]) simp
    then show ?thesis using True IH by simp
  next
    case False
    then show ?thesis using IH by auto
  qed
qed simp

text \<open>Adding a zeroed table for index \<open>i\<close> of the table at path \<open>p\<close>.\<close>

lemma add_table:
  assumes t: "ptree s r (x # ys)" and p: "length p \<le> 1" "vld (pmem s) r p" and i: "i < 512"
    and free: "\<not> bit (ent (pmem s) (nd (pmem s) r p) i) 0" and e: "PTE2PA e = x" "bit e 0" "e < 2 ^ 64"
  defines "m \<equiv> wr64 (nd (pmem s) r p + 8 * i) e (memset x 0 0 PGSIZE (memset x 5 0 PGSIZE (pmem s)))"
  shows "length q \<le> 2 \<Longrightarrow> (vld m r q \<longleftrightarrow> vld (pmem s) r q \<or> q = p @ [i]) \<and>
      (vld (pmem s) r q \<longrightarrow> nd m r q = nd (pmem s) r q) \<and> (q = p @ [i] \<longrightarrow> nd m r q = x)"
    and "vld (pmem s) r q \<Longrightarrow> length q \<le> 2 \<Longrightarrow> j < 512 \<Longrightarrow>
      ent m (nd (pmem s) r q) j = (if q = p \<and> j = i then e else ent (pmem s) (nd (pmem s) r q) j)"
    and "j < 512 \<Longrightarrow> ent m x j = 0"
proof -
  have x: "x mod PGSIZE = 0" using ptreeD(1) [OF t] by (simp add: kmem_ok_def kpage_def)
  have al: "nd (pmem s) r q mod PGSIZE = 0" "nd (pmem s) r q \<noteq> x" if "vld (pmem s) r q" "length q \<le> 2" for q
    using ptreeD(2,3) [OF t] that by auto
  note ap = al [OF p(2) le_trans [OF p(1), of 2, simplified]]
  show old: "ent m (nd (pmem s) r q) j = (if q = p \<and> j = i then e else ent (pmem s) (nd (pmem s) r q) j)"
    if q: "vld (pmem s) r q" "length q \<le> 2" "j < 512" for q j
  proof -
    have "nd (pmem s) r p = nd (pmem s) r q \<longleftrightarrow> q = p" using ptreeD(4) [OF t _ _ p(2) q(1)] p(1) q(2) by auto
    then show ?thesis
      unfolding m_def using ent_wr64 [OF ap(1) al(1) [OF q(1,2)] i q(3)] ent_memset(1) [OF x al(1) [OF q(1,2)] q(3)] al(2) [OF q(1,2)] e(3)
      by auto
  qed
  show new: "ent m x j = 0" if "j < 512" for j
    unfolding m_def using ent_wr64 [OF ap(1) x i that] ap(2) ent_memset(2) [OF x x that] by auto
  show "(vld m r q \<longleftrightarrow> vld (pmem s) r q \<or> q = p @ [i]) \<and>
      (vld (pmem s) r q \<longrightarrow> nd m r q = nd (pmem s) r q) \<and> (q = p @ [i] \<longrightarrow> nd m r q = x)" if "length q \<le> 2" for q
    using that
  proof (induction q rule: rev_induct)
    case (snoc j q)
    have IH: "vld m r q \<longleftrightarrow> vld (pmem s) r q \<or> q = p @ [i]" "vld (pmem s) r q \<Longrightarrow> nd m r q = nd (pmem s) r q"
      "q = p @ [i] \<Longrightarrow> nd m r q = x" using snoc by auto
    show ?case
    proof (cases "vld (pmem s) r q")
      case True
      have "q \<noteq> p @ [i]" using True free by auto
      then show ?thesis using True IH(1,2) old [of q j] snoc.prems e i p(2) free by auto
    next
      case False
      then have "q @ [j] \<noteq> p @ [i]" using p(2) by auto
      then show ?thesis using False IH new [of j] by auto
    qed
  qed auto
qed

lemma kmem_ok_agree:
  assumes "kmem_ok s xs" and "freelist t = freelist s" "kend t = kend s"
    and "\<And>x k. x \<in> set xs \<Longrightarrow> x \<le> k \<Longrightarrow> k < x + PGSIZE \<Longrightarrow> pmem t k = pmem s k"
  shows "kmem_ok t xs"
proof -
  have "flist (pmem t) (freelist s) xs = flist (pmem s) (freelist s) xs"
    by (rule flist_agree) (use assms(4) in \<open>simp add: kconsts\<close>)
  with assms(1-3) show ?thesis by (simp add: kmem_ok_def kpage_def)
qed

text \<open>A step that allocates tables at most: no entry changes and no memory but that of the tables.\<close>

definition same_map :: "nat \<Rightarrow> 'x kmem_scheme \<Rightarrow> 'x kmem_scheme \<Rightarrow> bool" where
  "same_map r s t \<longleftrightarrow> kend t = kend s \<and> (\<forall>va. pte_of (pmem t) r va = pte_of (pmem s) r va) \<and>
     (\<forall>a. \<not> in_tables (pmem t) r a \<longrightarrow> pmem t a = pmem s a) \<and>
     (\<forall>a. in_tables (pmem s) r a \<longrightarrow> in_tables (pmem t) r a)"

lemma same_map_refl: "same_map r s s"
  by (simp add: same_map_def)

lemma same_map_trans: "same_map r s t \<Longrightarrow> same_map r t u \<Longrightarrow> same_map r s u"
  by (auto simp: same_map_def)

lemma wr64_in_page:
  assumes "\<not> (y \<le> a \<and> a < y + PGSIZE)" and "i < 512"
  shows "wr64 (y + 8 * i) v m a = m a"
  using assms by (intro wr64_other) (auto simp: kconsts)

lemma add_table_ptree:
  assumes t: "ptree s r (x # ys)" and p: "length p \<le> 1" "vld (pmem s) r p" and i: "i < 512"
    and free: "\<not> bit (ent (pmem s) (nd (pmem s) r p) i) 0" and e: "PTE2PA e = x" "bit e 0" "e < 2 ^ 64"
    and u: "pmem u = wr64 (nd (pmem s) r p + 8 * i) e (memset x 0 0 PGSIZE (memset x 5 0 PGSIZE (pmem s)))"
    "freelist u = rd64 (pmem s) x" "kend u = kend s"
  shows "ptree u r ys" "same_map r s u" "vld (pmem u) r (p @ [i])" "nd (pmem u) r (p @ [i]) = x"
proof -
  note ad = add_table [OF t p i free e, folded u(1)]
  have x: "kpage s x" "x \<notin> set ys" using ptreeD(1) [OF t] by (auto simp: kmem_ok_def)
  have np: "nd (pmem s) r p mod PGSIZE = 0" "nd (pmem s) r p \<notin> set (x # ys)" using ptreeD(2,3) [OF t _ p(2)] p(1) by auto
  have out: "pmem u a = pmem s a" if "\<not> (x \<le> a \<and> a < x + PGSIZE)" "\<not> (nd (pmem s) r p \<le> a \<and> a < nd (pmem s) r p + PGSIZE)" for a
    unfolding u(1) wr64_in_page [OF that(2) i] using that(1) by (auto simp: memset_eq)
  have ko: "kmem_ok u ys"
  proof (rule kmem_ok_agree [OF kalloc_Cons(2) [OF ptreeD(1) [OF t]]])
    fix y k assume y: "y \<in> set ys" "y \<le> k" "k < y + PGSIZE"
    then have "y mod PGSIZE = 0" "y \<noteq> x" "y \<noteq> nd (pmem s) r p"
      using ptreeD(1) [OF t] x np(2) by (auto simp: kmem_ok_def kpage_def)
    then have "\<not> (x \<le> k \<and> k < x + PGSIZE)" "\<not> (nd (pmem s) r p \<le> k \<and> k < nd (pmem s) r p + PGSIZE)"
      using pages_apart [of x y] pages_apart [of "nd (pmem s) r p" y] x(1) np(1) y by (auto simp: kpage_def)
    with out [of k] show "pmem u k = pmem (s\<lparr>freelist := rd64 (pmem s) x, pmem := memset x 5 0 PGSIZE (pmem s)\<rparr>) k"
      by (auto simp: memset_eq)
  qed (simp_all add: u)
  have nx: "nd (pmem s) r q \<noteq> x" if "vld (pmem s) r q" "length q \<le> 2" for q using ptreeD(3) [OF t that(2,1)] by auto
  show v: "vld (pmem u) r (p @ [i])" "nd (pmem u) r (p @ [i]) = x" using ad(1) [of "p @ [i]"] p(1) by auto
  have vq: "vld (pmem u) r q \<longleftrightarrow> vld (pmem s) r q \<or> q = p @ [i]"
    and nq: "vld (pmem s) r q \<Longrightarrow> nd (pmem u) r q = nd (pmem s) r q" if "length q \<le> 2" for q
    using ad(1) [OF that] by auto
  show "ptree u r ys"
    unfolding ptree_def
  proof (intro conjI allI impI ko; elim conjE)
    fix q assume q: "length q \<le> 2" "vld (pmem u) r q"
    consider "vld (pmem s) r q" | "q = p @ [i]" using vq [OF q(1)] q(2) by blast
    then show "nd (pmem u) r q mod PGSIZE = 0" "nd (pmem u) r q \<notin> set ys"
      using nq [OF q(1)] ptreeD(2,3) [OF t q(1)] v(2) x by (cases; simp add: kpage_def)+
  next
    fix q q' assume q: "length q \<le> 2" "length q' \<le> 2" "vld (pmem u) r q" "vld (pmem u) r q'" "nd (pmem u) r q = nd (pmem u) r q'"
    consider "vld (pmem s) r q" "vld (pmem s) r q'" | "vld (pmem s) r q" "q' = p @ [i]" | "q = p @ [i]" "vld (pmem s) r q'" | "q = q'"
      using vq [OF q(1)] vq [OF q(2)] q(3,4) by blast
    then show "q = q'"
    proof cases
      case 1
      then show ?thesis using ptreeD(4) [OF t q(1,2)] nq [OF q(1)] nq [OF q(2)] q(5) by metis
    next
      case 2
      then show ?thesis using nx [OF 2(1) q(1)] nq [OF q(1)] v(2) q(5) by metis
    next
      case 3
      then show ?thesis using nx [OF 3(2) q(2)] nq [OF q(2)] v(2) q(5) by metis
    qed
  qed
  have pt: "pte_of (pmem u) r va = pte_of (pmem s) r va" for va
  proof -
    have l: "length (vpath va) \<le> 2" "length (vpath va) = 2" by (simp_all add: vpath_def)
    show ?thesis
    proof (cases "vld (pmem s) r (vpath va)")
      case True
      then show ?thesis using vq [OF l(1)] nq [OF l(1)] ad(2) [OF True l(1) PX_less] p(1) l(2) by (auto simp: pte_of_def)
    next
      case False
      then show ?thesis using vq [OF l(1)] v(2) ad(3) [OF PX_less] by (auto simp: pte_of_def)
    qed
  qed
  have mono: "in_tables (pmem u) r a" if "in_tables (pmem s) r a" for a
    using that vq nq unfolding in_tables_def by metis
  have "pmem u a = pmem s a" if "\<not> in_tables (pmem u) r a" for a
  proof (rule out)
    have "length (p @ [i]) \<le> 2" using p(1) by simp
    with v that show "\<not> (x \<le> a \<and> a < x + PGSIZE)" unfolding in_tables_def by metis
    have "length p \<le> 2" using p(1) by simp
    with p(2) that vq nq show "\<not> (nd (pmem s) r p \<le> a \<and> a < nd (pmem s) r p + PGSIZE)" unfolding in_tables_def by metis
  qed
  with pt mono u(3) show "same_map r s u" by (simp add: same_map_def)
qed

section \<open>Walking\<close>

lemma and_PTE_0: "e AND PTE_V = 0 \<longleftrightarrow> \<not> bit e 0" "e AND PTE_U = 0 \<longleftrightarrow> \<not> bit e 4"
  using and_PTE_V [of e] and_PTE_U [of e] by auto

lemma vld_append: "vld m r (p @ q) \<Longrightarrow> vld m r p"
  by (induction p arbitrary: r) auto

lemma walk_alloc_step:
  assumes t: "ptree s r (x # ys)" and p: "length p \<le> 1" "vld (pmem s) r p" and i: "i < 512"
    and free: "\<not> bit (ent (pmem s) (nd (pmem s) r p) i) 0"
  obtains u where
    "kbind kalloc (\<lambda>pt. if pt = 0 then kret None
       else kthen (memset_page pt 0) (kthen (wr_pte (nd (pmem s) r p + 8 * i) (PA2PTE pt OR PTE_V)) (f pt))) s = f x u"
    and "ptree u r ys" "same_map r s u" "vld (pmem u) r (p @ [i])" "nd (pmem u) r (p @ [i]) = x"
proof -
  let ?e = "PA2PTE x OR PTE_V"
  let ?u = "s\<lparr>freelist := rd64 (pmem s) x, pmem := wr64 (nd (pmem s) r p + 8 * i) ?e (memset x 0 0 PGSIZE (memset x 5 0 PGSIZE (pmem s)))\<rparr>"
  have x: "x mod PGSIZE = 0" "x < 2 ^ 64" "x \<noteq> 0" using ptreeD(1) [OF t] by (auto simp: kmem_ok_def kpage_def kconsts)
  have e: "PTE2PA ?e = x" "bit ?e 0" "?e < 2 ^ 64" using mk_pte [OF x(1), of 0] x(2) by simp_all
  have run: "kbind kalloc (\<lambda>pt. if pt = 0 then kret None
       else kthen (memset_page pt 0) (kthen (wr_pte (nd (pmem s) r p + 8 * i) (PA2PTE pt OR PTE_V)) (f pt))) s = f x ?u"
    using kalloc_Cons(1) [OF ptreeD(1) [OF t]] x(3) by (simp add: memset_page_def wr_pte_def)
  show ?thesis
    by (rule that [OF run]) (rule add_table_ptree [OF t p i free e]; simp)+
qed

lemma walk_loop_ret:
  assumes "ptree s r xs" and "p @ rev (map (\<lambda>j. PX j va) [1..<Suc l]) = vpath va" and "vld (pmem s) r p"
  shows "\<exists>res t zs ys. walk_loop l (nd (pmem s) r p) va alloc s = Ret res t \<and> ptree t r ys \<and> same_map r s t \<and> xs = zs @ ys \<and>
     (\<not> alloc \<longrightarrow> t = s) \<and>
     (case res of
        None \<Rightarrow> if alloc then ys = [] else \<not> vld (pmem s) r (vpath va)
      | Some a \<Rightarrow> vld (pmem t) r (vpath va) \<and> a = nd (pmem t) r (vpath va) + 8 * PX 0 va)"
  using assms
proof (induction l arbitrary: s xs p)
  case 0
  then show ?case using same_map_refl [of r s] by (simp add: kret_def) blast
next
  case (Suc l)
  let ?i = "PX (Suc l) va"
  let ?pt = "nd (pmem s) r p"
  have i: "?i < 512" by (rule PX_less)
  have pth: "(p @ [?i]) @ rev (map (\<lambda>j. PX j va) [1..<Suc l]) = vpath va" using Suc.prems(2) by simp
  have len: "length p \<le> 1" using arg_cong [where f = length, OF Suc.prems(2)] by (simp add: vpath_def)
  have e: "rd_pte (?pt + 8 * ?i) s = ent (pmem s) ?pt ?i" by (simp add: rd_pte_def ent_def)
  show ?case
  proof (cases "bit (ent (pmem s) ?pt ?i) 0")
    case True
    then have v: "vld (pmem s) r (p @ [?i])" using Suc.prems(3) i by simp
    have "walk_loop (Suc l) ?pt va alloc s = walk_loop l (nd (pmem s) r (p @ [?i])) va alloc s"
      using True by (simp add: Let_def e and_PTE_0)
    with Suc.IH [OF Suc.prems(1) pth v] show ?thesis by simp
  next
    case no: False
    have nv: "\<not> vld (pmem s) r (vpath va)"
    proof
      assume "vld (pmem s) r (vpath va)"
      then have "vld (pmem s) r ((p @ [?i]) @ rev (map (\<lambda>j. PX j va) [1..<Suc l]))" by (simp only: pth)
      then have "vld (pmem s) r (p @ [?i])" by (rule vld_append)
      with no show False by simp
    qed
    show ?thesis
    proof (cases alloc)
      case False
      then have "walk_loop (Suc l) ?pt va alloc s = Ret None s" using no by (simp add: Let_def e and_PTE_0)
      with False nv Suc.prems(1) same_map_refl show ?thesis by (intro exI [of _ None] exI [of _ s] exI [of _ "[]"] exI [of _ xs]) simp
    next
      case al: True
      have step: "walk_loop (Suc l) ?pt va alloc s = kbind kalloc (\<lambda>pt. if pt = 0 then kret None
          else kthen (memset_page pt 0) (kthen (wr_pte (?pt + 8 * ?i) (PA2PTE pt OR PTE_V)) (walk_loop l pt va alloc))) s"
        unfolding eqTrueI [OF al] using no by (simp add: Let_def e and_PTE_0)
      show ?thesis
      proof (cases xs)
        case Nil
        then have "kalloc s = Ret 0 s" using Suc.prems(1) pga.alloc_none ptreeD(1) by blast
        then have "walk_loop (Suc l) ?pt va alloc s = Ret None s" unfolding step by simp
        with al Nil Suc.prems(1) same_map_refl show ?thesis
          by (intro exI [of _ None] exI [of _ s] exI [of _ "[]"] exI [of _ "[]"]) simp
      next
        case (Cons x ws)
        then have t: "ptree s r (x # ws)" using Suc.prems(1) by simp
        obtain u where u: "kbind kalloc (\<lambda>pt. if pt = 0 then kret None
            else kthen (memset_page pt 0) (kthen (wr_pte (?pt + 8 * ?i) (PA2PTE pt OR PTE_V)) (walk_loop l pt va alloc))) s =
            walk_loop l x va alloc u"
          "ptree u r ws" "same_map r s u" "vld (pmem u) r (p @ [?i])" "nd (pmem u) r (p @ [?i]) = x"
          by (rule walk_alloc_step [OF t len Suc.prems(3) i no, where f = "\<lambda>pt. walk_loop l pt va alloc"]) (rule that; assumption)
        obtain res v zs ys where v: "walk_loop l x va alloc u = Ret res v" "ptree v r ys" "same_map r u v" "ws = zs @ ys"
          "case res of None \<Rightarrow> if alloc then ys = [] else \<not> vld (pmem u) r (vpath va)
            | Some a \<Rightarrow> vld (pmem v) r (vpath va) \<and> a = nd (pmem v) r (vpath va) + 8 * PX 0 va"
          using Suc.IH [OF u(2) pth u(4)] unfolding u(5) by blast
        have "xs = (x # zs) @ ys" using Cons v(4) by simp
        moreover have "walk_loop (Suc l) ?pt va alloc s = Ret res v" unfolding step u(1) v(1) ..
        moreover note same_map_trans [OF u(3) v(3)] v(2) v(5) al
        ultimately show ?thesis
          by (intro exI [of _ res] exI [of _ v] exI [of _ "x # zs"] exI [of _ ys]) (simp split: option.splits)
      qed
    qed
  qed
qed

lemma walk_ret:
  assumes "ptree s r xs" and "va < MAXVA"
  obtains res t zs ys where "walk r va alloc s = Ret res t" "ptree t r ys" "same_map r s t" "xs = zs @ ys"
    "\<not> alloc \<Longrightarrow> t = s" "res = None \<Longrightarrow> if alloc then ys = [] else \<not> vld (pmem s) r (vpath va)"
    "\<And>a. res = Some a \<Longrightarrow> vld (pmem t) r (vpath va) \<and> a = nd (pmem t) r (vpath va) + 8 * PX 0 va"
proof -
  have p: "[] @ rev (map (\<lambda>j. PX j va) [1..<Suc 2]) = vpath va" by (simp add: vpath_def numeral_2_eq_2)
  have w: "walk r va alloc = walk_loop 2 (nd (pmem s) r []) va alloc" using assms(2) by (simp add: walk_def)
  from walk_loop_ret [OF assms(1) p, where alloc = alloc] that show thesis
    unfolding w [symmetric] by (fastforce split: option.splits)
qed

text \<open>Storing a leaf entry changes the entry of that page alone.\<close>

definition upd_map :: "nat \<Rightarrow> nat \<Rightarrow> nat \<Rightarrow> 'x kmem_scheme \<Rightarrow> 'x kmem_scheme \<Rightarrow> bool" where
  "upd_map r va e s t \<longleftrightarrow> kend t = kend s \<and>
     (\<forall>va' < MAXVA. pte_of (pmem t) r va' = (if va' div PGSIZE = va div PGSIZE then e else pte_of (pmem s) r va')) \<and>
     (\<forall>a. \<not> in_tables (pmem t) r a \<longrightarrow> pmem t a = pmem s a) \<and>
     (\<forall>a. in_tables (pmem s) r a \<longrightarrow> in_tables (pmem t) r a)"

lemma PX_div: "va div PGSIZE = va' div PGSIZE \<Longrightarrow> PX l va = PX l va'"
proof -
  assume "va div PGSIZE = va' div PGSIZE"
  then have "va div 2 ^ 12 div 2 ^ (9 * l) = va' div 2 ^ 12 div 2 ^ (9 * l)" by (simp add: kconsts)
  then show ?thesis unfolding PX_eq by (simp only: div_mult2_eq [symmetric] power_add [symmetric])
qed

lemma write_leaf_map:
  assumes t: "ptree s r xs" and va: "va < MAXVA" "vld (pmem s) r (vpath va)" and e: "e < 2 ^ 64"
  defines "u \<equiv> s\<lparr>pmem := wr64 (nd (pmem s) r (vpath va) + 8 * PX 0 va) e (pmem s)\<rparr>"
  shows "ptree u r xs" "upd_map r va e s u"
proof -
  have l: "length (vpath v) = 2" "length (vpath v) \<le> 2" for v by (simp_all add: vpath_def)
  let ?n = "nd (pmem s) r (vpath va)"
  have m: "pmem u = wr64 (?n + 8 * PX 0 va) e (pmem s)" by (simp add: u_def)
  note wl = write_leaf [OF t l(1) va(2) PX_less [of 0 va], where v = e, folded m]
  have vq: "vld (pmem u) r q \<longleftrightarrow> vld (pmem s) r q" and nq: "vld (pmem s) r q \<Longrightarrow> nd (pmem u) r q = nd (pmem s) r q"
    if "length q \<le> 2" for q using wl [OF that] by auto
  note n = ptreeD(2,3) [OF t l(2) va(2)]
  have out: "pmem u a = pmem s a" if "\<not> (?n \<le> a \<and> a < ?n + PGSIZE)" for a
    unfolding m by (rule wr64_in_page [OF that PX_less])
  have "kmem_ok u xs"
  proof (rule kmem_ok_agree [OF ptreeD(1) [OF t]])
    fix x k assume x: "x \<in> set xs" "x \<le> k" "k < x + PGSIZE"
    then have "x mod PGSIZE = 0" "x \<noteq> ?n" using ptreeD(1) [OF t] n(2) by (auto simp: kmem_ok_def kpage_def)
    with pages_apart [of ?n x] n(1) x show "pmem u k = pmem s k" by (intro out) auto
  qed (simp_all add: u_def)
  with t vq nq show "ptree u r xs" unfolding ptree_def by metis
  have pt: "pte_of (pmem u) r v = (if v div PGSIZE = va div PGSIZE then e else pte_of (pmem s) r v)" if "v < MAXVA" for v
  proof (cases "vld (pmem s) r (vpath v)")
    case True
    have "?n = nd (pmem s) r (vpath v) \<and> PX 0 va = PX 0 v \<longleftrightarrow> v div PGSIZE = va div PGSIZE" (is "?l \<longleftrightarrow> ?r")
    proof
      assume ?l
      with ptreeD(4) [OF t l(2) l(2) va(2) True] have "vpath va = vpath v" by simp
      with \<open>?l\<close> page_index_unique [OF that va(1)] show ?r by (simp add: vpath_def)
    qed (simp add: vpath_def PX_div [of va v])
    then show ?thesis
      using True vq [OF l(2)] nq [OF l(2) True] ent_wr64 [OF n(1) ptreeD(2) [OF t l(2) True] PX_less PX_less] e
      by (simp add: pte_of_def m)
  next
    case False
    then have "vpath v \<noteq> vpath va" using va(2) by auto
    then have "v div PGSIZE \<noteq> va div PGSIZE" using PX_div [of v va] by (auto simp: vpath_def)
    with False vq [OF l(2)] show ?thesis by (simp add: pte_of_def)
  qed
  have it: "in_tables (pmem u) r a \<longleftrightarrow> in_tables (pmem s) r a" for a
    using vq nq unfolding in_tables_def by metis
  have "pmem u a = pmem s a" if "\<not> in_tables (pmem u) r a" for a
    using that va(2) l(2) unfolding it by (intro out) (auto simp: in_tables_def)
  with pt it show "upd_map r va e s u" by (simp add: upd_map_def u_def)
qed

text \<open>
  The entries after \<open>n\<close> pages from \<open>a\<close> have been mapped to the frames from \<open>pa\<close>, with nothing else changed
  but the memory of the tables themselves.
\<close>

definition maps :: "nat \<Rightarrow> nat \<Rightarrow> nat \<Rightarrow> nat \<Rightarrow> nat \<Rightarrow> 'x kmem_scheme \<Rightarrow> 'x kmem_scheme \<Rightarrow> bool" where
  "maps r a n pa perm s t \<longleftrightarrow> kend t = kend s \<and>
     (\<forall>va < MAXVA. pte_of (pmem t) r va =
        (if a div PGSIZE \<le> va div PGSIZE \<and> va div PGSIZE < a div PGSIZE + n
         then PA2PTE (pa + (va div PGSIZE - a div PGSIZE) * PGSIZE) OR perm OR PTE_V else pte_of (pmem s) r va)) \<and>
     (\<forall>a. \<not> in_tables (pmem t) r a \<longrightarrow> pmem t a = pmem s a) \<and>
     (\<forall>a. in_tables (pmem s) r a \<longrightarrow> in_tables (pmem t) r a)"

lemma maps_0: "same_map r s t \<Longrightarrow> maps r a 0 pa perm s t"
  by (simp add: same_map_def maps_def)

lemma maps_Suc:
  assumes "same_map r s t" and "upd_map r a (PA2PTE pa OR perm OR PTE_V) t u" and "maps r (a + PGSIZE) n (pa + PGSIZE) perm u v"
  shows "maps r a (Suc n) pa perm s v"
proof -
  have d: "(a + PGSIZE) div PGSIZE = Suc (a div PGSIZE)" by (simp add: kconsts)
  have "pte_of (pmem v) r va = (if a div PGSIZE \<le> va div PGSIZE \<and> va div PGSIZE < a div PGSIZE + Suc n
         then PA2PTE (pa + (va div PGSIZE - a div PGSIZE) * PGSIZE) OR perm OR PTE_V else pte_of (pmem s) r va)" if va: "va < MAXVA" for va
  proof -
    have v: "pte_of (pmem v) r va = (if Suc (a div PGSIZE) \<le> va div PGSIZE \<and> va div PGSIZE < Suc (a div PGSIZE) + n
         then PA2PTE (pa + PGSIZE + (va div PGSIZE - Suc (a div PGSIZE)) * PGSIZE) OR perm OR PTE_V else pte_of (pmem u) r va)"
      using assms(3) va unfolding maps_def d by blast
    have u: "pte_of (pmem u) r va = (if va div PGSIZE = a div PGSIZE then PA2PTE pa OR perm OR PTE_V else pte_of (pmem s) r va)"
      using assms(1,2) va unfolding upd_map_def same_map_def by simp
    consider "va div PGSIZE < a div PGSIZE" | "va div PGSIZE = a div PGSIZE" | k where "va div PGSIZE = Suc (a div PGSIZE) + k"
      by (metis le_Suc_ex linorder_neqE_nat Suc_leI)
    then show ?thesis unfolding v u by cases (simp_all add: add.assoc)
  qed
  moreover have "kend v = kend s" "\<forall>x. \<not> in_tables (pmem v) r x \<longrightarrow> pmem v x = pmem s x" "\<forall>x. in_tables (pmem s) r x \<longrightarrow> in_tables (pmem v) r x"
    using assms unfolding maps_def upd_map_def same_map_def by metis+
  ultimately show ?thesis unfolding maps_def by blast
qed

lemma map_round:
  assumes t: "ptree s r xs" and a: "a < MAXVA" and pa: "pa mod PGSIZE = 0" "pa < 2 ^ 64" "perm < 1024" and free: "\<not> bit (pte_of (pmem s) r a) 0"
  obtains t where "mappages_loop (Suc k) r a l pa perm s = Ret (- 1) t" "ptree t r []" "same_map r s t"
  | t u zs ys where "mappages_loop (Suc k) r a l pa perm s = (if a = l then Ret 0 u else mappages_loop k r (a + PGSIZE) l (pa + PGSIZE) perm u)"
    "ptree u r ys" "xs = zs @ ys" "same_map r s t" "upd_map r a (PA2PTE pa OR perm OR PTE_V) t u"
proof -
  obtain res t zs ys where w: "walk r a True s = Ret res t" "ptree t r ys" "same_map r s t" "xs = zs @ ys"
    "res = None \<Longrightarrow> ys = []" "\<And>p. res = Some p \<Longrightarrow> vld (pmem t) r (vpath a) \<and> p = nd (pmem t) r (vpath a) + 8 * PX 0 a"
    using walk_ret [OF t a, where alloc = True] by metis
  show thesis
  proof (cases res)
    case None
    with w show thesis by (intro that(1) [of t]) simp_all
  next
    case (Some p)
    let ?e = "PA2PTE pa OR perm OR PTE_V"
    let ?u = "t\<lparr>pmem := wr64 (nd (pmem t) r (vpath a) + 8 * PX 0 a) ?e (pmem t)\<rparr>"
    have v: "vld (pmem t) r (vpath a)" "p = nd (pmem t) r (vpath a) + 8 * PX 0 a" using w(6) [OF Some] by auto
    have "\<not> bit (pte_of (pmem t) r a) 0" using free w(3) by (simp add: same_map_def)
    then have f: "\<not> bit (rd_pte p t) 0" using v by (simp add: pte_of_def rd_pte_def ent_def)
    have "mappages_loop (Suc k) r a l pa perm s = (if a = l then Ret 0 ?u else mappages_loop k r (a + PGSIZE) l (pa + PGSIZE) perm ?u)"
      using w(1) Some f by (simp add: and_PTE_0 wr_pte_def v(2))
    then show thesis using write_leaf_map [OF w(2) a v(1) mk_pte(4) [OF pa(1,3,2)]] w(3,4) that(2) by blast
  qed
qed

lemma mappages_loop_ret:
  assumes "ptree s r xs" "a mod PGSIZE = 0" "pa mod PGSIZE = 0" "a + n * PGSIZE < MAXVA" "pa + n * PGSIZE < 2 ^ 64" "perm < 1024" "n < k"
    and "\<And>j. j \<le> n \<Longrightarrow> \<not> bit (pte_of (pmem s) r (a + j * PGSIZE)) 0"
  shows "\<exists>res t zs ys j. mappages_loop k r a (a + n * PGSIZE) pa perm s = Ret res t \<and> ptree t r ys \<and> xs = zs @ ys \<and>
     maps r a j pa perm s t \<and> (res = 0 \<and> j = Suc n \<or> res = - 1 \<and> j \<le> n \<and> ys = [])"
  using assms
proof (induction n arbitrary: s xs a pa k)
  case (0 s xs a pa k)
  obtain k' where k: "k = Suc k'" using 0 by (cases k) auto
  have f: "a < MAXVA" "pa < 2 ^ 64" "\<not> bit (pte_of (pmem s) r a) 0" using 0 by auto
  from 0(1) f(1) 0(3) f(2) 0(6) f(3) show ?case
  proof (rule map_round [where k = k' and l = a])
    fix t assume "mappages_loop (Suc k') r a a pa perm s = Ret (- 1) t" "ptree t r []" "same_map r s t"
    then show ?thesis using maps_0 [of r s t a pa perm] k
      by (intro exI [of _ "- 1"] exI [of _ t] exI [of _ xs] exI [of _ "[]"] exI [of _ 0]) simp
  next
    fix t u zs ys
    assume h: "mappages_loop (Suc k') r a a pa perm s = (if a = a then Ret 0 u else mappages_loop k' r (a + PGSIZE) a (pa + PGSIZE) perm u)"
      "ptree u r ys" "xs = zs @ ys" "same_map r s t" "upd_map r a (PA2PTE pa OR perm OR PTE_V) t u"
    then show ?thesis using maps_Suc [OF h(4,5) maps_0 [OF same_map_refl]] k
      by (intro exI [of _ 0] exI [of _ u] exI [of _ zs] exI [of _ ys] exI [of _ 1]) simp
  qed
next
  case (Suc n s xs a pa k)
  obtain k' where k: "k = Suc k'" "n < k'" using Suc.prems(7) by (cases k) auto
  have P: "PGSIZE > 0" by (simp add: kconsts)
  have f: "a < MAXVA" "pa < 2 ^ 64" "\<not> bit (pte_of (pmem s) r a) 0" using Suc.prems(4,5,8) Suc.prems(8) [of 0] by auto
  have l: "a + Suc n * PGSIZE = a + PGSIZE + n * PGSIZE" "a \<noteq> a + Suc n * PGSIZE" using P by auto
  from Suc.prems(1) f(1) Suc.prems(3) f(2) Suc.prems(6) f(3) show ?case
  proof (rule map_round [where k = k' and l = "a + Suc n * PGSIZE"])
    fix t assume "mappages_loop (Suc k') r a (a + Suc n * PGSIZE) pa perm s = Ret (- 1) t" "ptree t r []" "same_map r s t"
    then show ?thesis using maps_0 [of r s t a pa perm] k(1)
      by (intro exI [of _ "- 1"] exI [of _ t] exI [of _ xs] exI [of _ "[]"] exI [of _ 0]) simp
  next
    fix t u zs ys
    assume h: "mappages_loop (Suc k') r a (a + Suc n * PGSIZE) pa perm s =
        (if a = a + Suc n * PGSIZE then Ret 0 u else mappages_loop k' r (a + PGSIZE) (a + Suc n * PGSIZE) (pa + PGSIZE) perm u)"
      "ptree u r ys" "xs = zs @ ys" "same_map r s t" "upd_map r a (PA2PTE pa OR perm OR PTE_V) t u"
    have "\<not> bit (pte_of (pmem u) r (a + PGSIZE + j * PGSIZE)) 0" if "j \<le> n" for j
    proof -
      have "a + Suc j * PGSIZE < MAXVA" using that Suc.prems(4) by (simp add: kconsts)
      moreover have "(a + Suc j * PGSIZE) div PGSIZE \<noteq> a div PGSIZE" using div_mult_self1 [of PGSIZE a "Suc j"] P by linarith
      ultimately have "pte_of (pmem u) r (a + Suc j * PGSIZE) = pte_of (pmem s) r (a + Suc j * PGSIZE)"
        using h(4,5) unfolding upd_map_def same_map_def by metis
      then show ?thesis using Suc.prems(8) [of "Suc j"] that by (simp add: add.assoc)
    qed
    then obtain res v ws us j where v: "mappages_loop k' r (a + PGSIZE) (a + PGSIZE + n * PGSIZE) (pa + PGSIZE) perm u = Ret res v"
      "ptree v r us" "ys = ws @ us" "maps r (a + PGSIZE) j (pa + PGSIZE) perm u v" "res = 0 \<and> j = Suc n \<or> res = - 1 \<and> j \<le> n \<and> us = []"
      using Suc.IH [OF h(2), of "a + PGSIZE" "pa + PGSIZE" k'] Suc.prems k(2) by (auto simp: ac_simps)
    have "mappages_loop k r a (a + Suc n * PGSIZE) pa perm s = Ret res v"
      unfolding k(1) h(1) if_not_P [OF l(2)] unfolding l(1) by (rule v(1))
    moreover have "xs = (zs @ ws) @ us" using h(3) v(3) by simp
    moreover have "res = 0 \<and> Suc j = Suc (Suc n) \<or> res = - 1 \<and> Suc j \<le> Suc n \<and> us = []" using v(5) by simp
    moreover note maps_Suc [OF h(4,5) v(4)] v(2)
    ultimately show ?thesis by blast
  qed
qed

lemma walkaddr_ret:
  assumes t: "ptree s r xs"
  shows "walkaddr r va s = Ret (if va < MAXVA \<and> bit (pte_of (pmem s) r va) 0 \<and> bit (pte_of (pmem s) r va) 4
    then PTE2PA (pte_of (pmem s) r va) else 0) s"
proof (cases "va < MAXVA")
  case True
  obtain res where w: "walk r va False s = Ret res s" "res = None \<Longrightarrow> \<not> vld (pmem s) r (vpath va)"
    "\<And>a. res = Some a \<Longrightarrow> vld (pmem s) r (vpath va) \<and> a = nd (pmem s) r (vpath va) + 8 * PX 0 va"
    using walk_ret [OF t True, where alloc = False] by metis
  show ?thesis
  proof (cases res)
    case None
    with w True show ?thesis by (simp add: walkaddr_def pte_of_def)
  next
    case (Some a)
    with w(3) have "rd_pte a s = pte_of (pmem s) r va" by (simp add: rd_pte_def pte_of_def ent_def)
    with Some w(1) True show ?thesis by (simp add: walkaddr_def and_PTE_0)
  qed
qed (simp add: walkaddr_def kret_def)

lemma PGROUNDDOWN_div [simp]: "PGROUNDDOWN a div PGSIZE = a div PGSIZE" "PGROUNDDOWN a mod PGSIZE = 0" "PGROUNDDOWN a \<le> a"
  by (simp_all add: PGROUNDDOWN_def kconsts)

lemma page_minus: "a \<le> b \<Longrightarrow> PGROUNDDOWN b = PGROUNDDOWN a + (b div PGSIZE - a div PGSIZE) * PGSIZE"
  using div_le_mono [of a b PGSIZE] by (simp add: PGROUNDDOWN_def add_mult_distrib [symmetric])

text \<open>
  C28. \<^verbatim>\<open>mappages\<close> on a range of unmapped pages returns 0 with exactly these pages mapped, in order, to the frames
  from \<open>pa\<close> with the given permissions, or returns -1, and then only because the free pages have run out, with a
  prefix of the pages mapped. Every other entry is as before, no memory outside the tables is written, and the table
  stays a tree of distinct pages apart from the free ones.
\<close>

theorem mappages_maps:
  assumes "ptree s r xs" and "0 < sz" and "va + sz \<le> MAXVA" and "pa mod PGSIZE = 0" and "pa + sz < 2 ^ 63" and "perm < 1024"
    and "\<forall>v. va div PGSIZE \<le> v div PGSIZE \<and> v div PGSIZE \<le> (va + sz - 1) div PGSIZE \<longrightarrow> \<not> bit (pte_of (pmem s) r v) 0"
  shows "\<exists>res t zs ys j. mappages r va sz pa perm s = Ret res t \<and> ptree t r ys \<and> xs = zs @ ys \<and> maps r va j pa perm s t \<and>
     (res = 0 \<and> j = (va + sz - 1) div PGSIZE - va div PGSIZE + 1 \<or>
      res = - 1 \<and> j \<le> (va + sz - 1) div PGSIZE - va div PGSIZE \<and> ys = [])"
proof -
  let ?n = "(va + sz - 1) div PGSIZE - va div PGSIZE"
  let ?a = "PGROUNDDOWN va"
  have P: "PGSIZE = 4096" by (simp add: kconsts)
  have w: "(va + sz + (2 ^ 64 - 1)) mod 2 ^ 64 = va + sz - 1"
  proof -
    have "va + sz + (2 ^ 64 - 1) = (va + sz - 1) + 2 ^ 64" using assms(2) by simp
    moreover have "va + sz - 1 < 2 ^ 64" using assms(3) by (simp add: pte_flag_vals)
    ultimately show ?thesis by (metis mod_add_self2 mod_less)
  qed
  have l: "PGROUNDDOWN (va + sz - 1) = ?a + ?n * PGSIZE" using assms(2) by (intro page_minus) simp
  have n1: "?a + ?n * PGSIZE < MAXVA" unfolding l [symmetric] using assms(2,3) PGROUNDDOWN_div(3) [of "va + sz - 1"] by linarith
  have n2: "?n < Suc (MAXVA div PGSIZE)" using div_le_mono [of "va + sz - 1" MAXVA PGSIZE] assms(3) by linarith
  have "?n * PGSIZE \<le> va + sz - 1" using l PGROUNDDOWN_div(3) [of "va + sz - 1"] by linarith
  moreover have "va + sz - 1 < 2 ^ 38" using assms(2,3) by (simp add: pte_flag_vals)
  ultimately have n3: "pa + ?n * PGSIZE < 2 ^ 64" using assms(5) by simp
  have free: "\<not> bit (pte_of (pmem s) r (?a + j * PGSIZE)) 0" if "j \<le> ?n" for j
  proof -
    have "(?a + j * PGSIZE) div PGSIZE = va div PGSIZE + j" using P by simp
    moreover have "va div PGSIZE \<le> (va + sz - 1) div PGSIZE" using assms(2) by (intro div_le_mono) simp
    ultimately show ?thesis using assms(7) that by auto
  qed
  have m: "maps r ?a = maps r va" by (intro ext) (simp add: maps_def)
  show ?thesis
    unfolding mappages_def w l Suc_eq_plus1 [symmetric] m [symmetric]
    by (rule mappages_loop_ret [OF assms(1) PGROUNDDOWN_div(2) assms(4) n1 n3 assms(6) n2]) (rule free)
qed

text \<open>A small memory for the witnesses: an empty root table and two free pages.\<close>

definition sample_tables :: kmem where
  "sample_tables = \<lparr>pmem = wr64 (PHYSTOP - 8192) (PHYSTOP - 4096) (\<lambda>_. 0), freelist = PHYSTOP - 8192, kend = KERNBASE\<rparr>"

lemma zero_table:
  assumes "\<And>j. j < 512 \<Longrightarrow> ent m r j = 0"
  shows "vld m r p \<longleftrightarrow> p = []" "pte_of m r va = 0"
proof -
  show v: "vld m r p \<longleftrightarrow> p = []" for p using assms by (cases p) auto
  show "pte_of m r va = 0" by (simp add: pte_of_def v) (simp add: vpath_def)
qed

lemma sample_tables_ptree:
  shows "ptree sample_tables (PHYSTOP - 12288) [PHYSTOP - 8192, PHYSTOP - 4096]" "pte_of (pmem sample_tables) (PHYSTOP - 12288) va = 0"
proof -
  have z: "ent (pmem sample_tables) (PHYSTOP - 12288) j = 0" if "j < 512" for j
    using that by (simp add: sample_tables_def ent_def rd64_wr64_other kconsts) (simp add: rd64_def rd32_def rd16_def)
  note zero_table [OF z]
  then show "pte_of (pmem sample_tables) (PHYSTOP - 12288) va = 0" by simp
  have "kmem_ok sample_tables [PHYSTOP - 8192, PHYSTOP - 4096]"
    by (simp add: kmem_ok_def sample_tables_def kpage_def rd64_wr64_other kconsts) (simp add: rd64_def rd32_def rd16_def)
  then show "ptree sample_tables (PHYSTOP - 12288) [PHYSTOP - 8192, PHYSTOP - 4096]"
    using zero_table [OF z] unfolding ptree_def by (simp add: kconsts)
qed

theorem mappages_maps_witness:
  "\<exists>res t zs ys j. mappages (PHYSTOP - 12288) 8192 5000 KERNBASE 22 sample_tables = Ret res t \<and> ptree t (PHYSTOP - 12288) ys \<and>
     [PHYSTOP - 8192, PHYSTOP - 4096] = zs @ ys \<and> maps (PHYSTOP - 12288) 8192 j KERNBASE 22 sample_tables t \<and>
     (res = 0 \<and> j = 2 \<or> res = - 1 \<and> j \<le> 1 \<and> ys = [])"
  using mappages_maps [OF sample_tables_ptree(1), of 5000 8192 KERNBASE 22] sample_tables_ptree(2)
  by (simp add: kconsts pte_flag_vals) (simp add: numeral_2_eq_2)

section \<open>The user's memory\<close>

text \<open>
  \<open>uval\<close> says that a virtual address is mapped for the user, \<open>uaddr\<close> is where its byte lives. A user space has
  its frames apart from each other, from the tables and from the free pages.
\<close>

definition uval :: "mem \<Rightarrow> nat \<Rightarrow> nat \<Rightarrow> bool" where
  "uval m r va \<longleftrightarrow> va < MAXVA \<and> bit (pte_of m r va) 0 \<and> bit (pte_of m r va) 4"

definition ufr :: "mem \<Rightarrow> nat \<Rightarrow> nat \<Rightarrow> nat" where
  "ufr m r va = PTE2PA (pte_of m r va)"

definition uaddr :: "mem \<Rightarrow> nat \<Rightarrow> nat \<Rightarrow> nat" where
  "uaddr m r va = ufr m r va + va mod PGSIZE"

definition uspace :: "'x kmem_scheme \<Rightarrow> nat \<Rightarrow> nat list \<Rightarrow> bool" where
  "uspace s r xs \<longleftrightarrow> ptree s r xs \<and>
     (\<forall>v. uval (pmem s) r v \<longrightarrow> ufr (pmem s) r v \<noteq> 0 \<and> ufr (pmem s) r v \<notin> set xs \<and> \<not> in_tables (pmem s) r (uaddr (pmem s) r v)) \<and>
     (\<forall>v w. uval (pmem s) r v \<and> uval (pmem s) r w \<and> ufr (pmem s) r v = ufr (pmem s) r w \<longrightarrow> v div PGSIZE = w div PGSIZE)"

lemma uspaceD:
  assumes "uspace s r xs"
  shows "ptree s r xs" "uval (pmem s) r v \<Longrightarrow> ufr (pmem s) r v \<noteq> 0" "uval (pmem s) r v \<Longrightarrow> ufr (pmem s) r v \<notin> set xs"
    "uval (pmem s) r v \<Longrightarrow> \<not> in_tables (pmem s) r (uaddr (pmem s) r v)"
    "uval (pmem s) r v \<Longrightarrow> uval (pmem s) r w \<Longrightarrow> ufr (pmem s) r v = ufr (pmem s) r w \<Longrightarrow> v div PGSIZE = w div PGSIZE"
  using assms unfolding uspace_def by blast+

lemma ufr_aligned: "ufr m r v mod PGSIZE = 0"
  by (simp add: ufr_def PTE2PA_eq kconsts)

lemma page_mod: "v mod PGSIZE < PGSIZE"
  by (simp add: kconsts)

lemma same_page: "x mod PGSIZE = 0 \<Longrightarrow> y mod PGSIZE = 0 \<Longrightarrow> x + a = y + b \<Longrightarrow> a < PGSIZE \<Longrightarrow> b < PGSIZE \<Longrightarrow> x = y \<and> a = b"
  using pages_apart [of x y] by (cases "x = y") auto

lemma uaddr_inj:
  assumes "uspace s r xs" "uval (pmem s) r v" "uval (pmem s) r w" "uaddr (pmem s) r v = uaddr (pmem s) r w"
  shows "v = w"
proof -
  have "ufr (pmem s) r v = ufr (pmem s) r w" "v mod PGSIZE = w mod PGSIZE"
    using same_page [OF ufr_aligned ufr_aligned assms(4) [unfolded uaddr_def] page_mod page_mod] by auto
  with uspaceD(5) [OF assms(1-3)] show ?thesis by (metis div_mult_mod_eq)
qed

lemma pte_of_div: "v div PGSIZE = w div PGSIZE \<Longrightarrow> pte_of m r v = pte_of m r w"
  by (simp add: pte_of_def vpath_def PX_div [of v w])

lemma tables_agree:
  assumes "\<And>a. in_tables m r a \<Longrightarrow> m' a = m a" and "length q \<le> 2"
  shows "(vld m' r q \<longleftrightarrow> vld m r q) \<and> (vld m r q \<longrightarrow> nd m' r q = nd m r q)"
    and "vld m r q \<Longrightarrow> j < 512 \<Longrightarrow> ent m' (nd m r q) j = ent m (nd m r q) j"
proof -
  have e: "ent m' (nd m r q) j = ent m (nd m r q) j" if q: "vld m r q" "j < 512" "length q \<le> 2" for q j
    unfolding ent_def
  proof (rule rd64_cong)
    fix k assume k: "nd m r q + 8 * j \<le> k" "k < nd m r q + 8 * j + 8"
    have "in_tables m r k" unfolding in_tables_def using q k by (intro exI [of _ q]) (simp add: kconsts)
    then show "m' k = m k" by (rule assms(1))
  qed
  then show "vld m r q \<Longrightarrow> j < 512 \<Longrightarrow> ent m' (nd m r q) j = ent m (nd m r q) j" using assms(2) by blast
  show "(vld m' r q \<longleftrightarrow> vld m r q) \<and> (vld m r q \<longrightarrow> nd m' r q = nd m r q)"
    using assms(2)
  proof (induction q rule: rev_induct)
    case (snoc j q)
    then show ?case using e [of q j] by (cases "vld m r q \<and> j < 512") auto
  qed simp
qed

lemma pte_of_agree:
  assumes "\<And>a. in_tables m r a \<Longrightarrow> m' a = m a"
  shows "pte_of m' r v = pte_of m r v" "in_tables m' r a \<longleftrightarrow> in_tables m r a"
proof -
  have l: "length (vpath v) \<le> 2" by (simp add: vpath_def)
  note ta = tables_agree [where r = r and m = m and m' = m', OF assms]
  show "pte_of m' r v = pte_of m r v" using ta(1) [OF _ l] ta(2) [OF _ l _ PX_less] by (auto simp: pte_of_def)
  show "in_tables m' r a \<longleftrightarrow> in_tables m r a" unfolding in_tables_def using ta(1) by metis
qed

text \<open>Writes to user bytes alone leave the user space as it is.\<close>

lemma uspace_agree:
  assumes s: "uspace s r xs" and t: "freelist t = freelist s" "kend t = kend s"
    and w: "\<And>a. pmem t a \<noteq> pmem s a \<Longrightarrow> \<exists>v. uval (pmem s) r v \<and> a = uaddr (pmem s) r v"
  shows "uspace t r xs" "pte_of (pmem t) r = pte_of (pmem s) r"
proof -
  have ag: "pmem t a = pmem s a" if "in_tables (pmem s) r a" for a using w [of a] uspaceD(4) [OF s] that by auto
  show e: "pte_of (pmem t) r = pte_of (pmem s) r" by (rule ext) (rule pte_of_agree(1) [OF ag])
  have it: "in_tables (pmem t) r a \<longleftrightarrow> in_tables (pmem s) r a" for a by (rule pte_of_agree(2) [OF ag])
  have ko: "kmem_ok t xs"
  proof (rule kmem_ok_agree [OF ptreeD(1) [OF uspaceD(1) [OF s]] t])
    fix x k assume x: "x \<in> set xs" "x \<le> k" "k < x + PGSIZE"
    have "k \<noteq> uaddr (pmem s) r v" if "uval (pmem s) r v" for v
    proof
      assume "k = uaddr (pmem s) r v"
      then have k: "ufr (pmem s) r v + v mod PGSIZE = x + (k - x)" "k - x < PGSIZE" using x(2,3) by (simp_all add: uaddr_def)
      have "x mod PGSIZE = 0" using x(1) ptreeD(1) [OF uspaceD(1) [OF s]] by (auto simp: kmem_ok_def kpage_def)
      from same_page [OF ufr_aligned this k(1) page_mod k(2)] have "ufr (pmem s) r v = x" by simp
      then show False using uspaceD(3) [OF s that] x(1) by simp
    qed
    then show "pmem t k = pmem s k" using w [of k] by blast
  qed
  have vq: "vld (pmem t) r q \<longleftrightarrow> vld (pmem s) r q" and nq: "vld (pmem s) r q \<Longrightarrow> nd (pmem t) r q = nd (pmem s) r q"
    if "length q \<le> 2" for q using tables_agree(1) [OF ag that] by auto
  have "ptree t r xs"
    unfolding ptree_def
  proof (intro conjI allI impI ko; elim conjE)
    fix q assume "length q \<le> 2" "vld (pmem t) r q"
    then show "nd (pmem t) r q mod PGSIZE = 0" "nd (pmem t) r q \<notin> set xs"
      using vq [of q] nq [of q] ptreeD(2,3) [OF uspaceD(1) [OF s], of q] by auto
  next
    fix q q' assume "length q \<le> 2" "length q' \<le> 2" "vld (pmem t) r q" "vld (pmem t) r q'" "nd (pmem t) r q = nd (pmem t) r q'"
    then show "q = q'" using vq [of q] nq [of q] vq [of q'] nq [of q'] ptreeD(4) [OF uspaceD(1) [OF s], of q q'] by auto
  qed
  then show "uspace t r xs"
    using s unfolding uspace_def uval_def ufr_def uaddr_def e it by simp
qed

text \<open>The bytes a round of the copy loops reaches lie in one page.\<close>

lemma MAXVA_page: "v div PGSIZE = w div PGSIZE \<Longrightarrow> v < MAXVA \<longleftrightarrow> w < MAXVA"
proof -
  have "v < MAXVA \<longleftrightarrow> v div PGSIZE < 67108864" for v
    by (simp add: div_less_iff_less_mult kconsts pte_flag_vals)
  then show "v div PGSIZE = w div PGSIZE \<Longrightarrow> v < MAXVA \<longleftrightarrow> w < MAXVA" by simp
qed

lemma round_page:
  assumes "i < PGSIZE - (va - PGROUNDDOWN va)"
  shows "uval m r (va + i) \<longleftrightarrow> uval m r (PGROUNDDOWN va)"
    "uaddr m r (va + i) = PTE2PA (pte_of m r (PGROUNDDOWN va)) + (va - PGROUNDDOWN va) + i"
proof -
  have "va - PGROUNDDOWN va = va mod PGSIZE" by (simp add: PGROUNDDOWN_def minus_div_mult_eq_mod)
  with assms have l: "va mod PGSIZE + i < PGSIZE" "va - PGROUNDDOWN va = va mod PGSIZE" by simp_all
  have e: "va + i = va div PGSIZE * PGSIZE + (va mod PGSIZE + i)" using div_mult_mod_eq [of va PGSIZE] by linarith
  have "(q * PGSIZE + a) div PGSIZE = q" "(q * PGSIZE + a) mod PGSIZE = a" if "a < PGSIZE" for q a using that by simp_all
  note dm = this [OF l(1), of "va div PGSIZE", folded e]
  have p: "pte_of m r (va + i) = pte_of m r (PGROUNDDOWN va)" by (rule pte_of_div) (simp add: dm)
  have "va + i < MAXVA \<longleftrightarrow> PGROUNDDOWN va < MAXVA" by (rule MAXVA_page) (simp add: dm)
  with p show "uval m r (va + i) \<longleftrightarrow> uval m r (PGROUNDDOWN va)" by (simp add: uval_def)
  show "uaddr m r (va + i) = PTE2PA (pte_of m r (PGROUNDDOWN va)) + (va - PGROUNDDOWN va) + i"
    by (simp add: uaddr_def ufr_def p dm(2) l(2))
qed

lemma round_next:
  assumes "n = PGSIZE - (va - PGROUNDDOWN va)"
  shows "PGROUNDDOWN va + PGSIZE = va + n"
proof -
  have "PGROUNDDOWN va + va mod PGSIZE = va" unfolding PGROUNDDOWN_def by (rule div_mult_mod_eq)
  with assms page_mod [of va] show ?thesis by linarith
qed

text \<open>The first \<open>j\<close> of the bytes have been written to the user's memory from \<open>va\<close> on, and nothing else has.\<close>

definition wrote :: "nat \<Rightarrow> nat \<Rightarrow> byte list \<Rightarrow> nat \<Rightarrow> mem \<Rightarrow> mem \<Rightarrow> bool" where
  "wrote r va bs j m m' \<longleftrightarrow> j \<le> length bs \<and> (\<forall>i<j. uval m r (va + i) \<and> m' (uaddr m r (va + i)) = bs ! i) \<and>
     (\<forall>a. (\<forall>i<j. a \<noteq> uaddr m r (va + i)) \<longrightarrow> m' a = m a)"

lemma wrote_uspace:
  assumes "uspace s r xs" "freelist t = freelist s" "kend t = kend s" "wrote r va bs j (pmem s) (pmem t)"
  shows "uspace t r xs" "uval (pmem t) r = uval (pmem s) r" "uaddr (pmem t) r = uaddr (pmem s) r"
proof -
  have w: "\<exists>v. uval (pmem s) r v \<and> a = uaddr (pmem s) r v" if "pmem t a \<noteq> pmem s a" for a
    using assms(4) that unfolding wrote_def by blast
  note u = uspace_agree [OF assms(1-3) w]
  show "uspace t r xs" by (rule u)
  show "uval (pmem t) r = uval (pmem s) r" "uaddr (pmem t) r = uaddr (pmem s) r"
    by (rule ext; simp add: uval_def uaddr_def ufr_def u(2))+
qed

lemma wrote_append:
  assumes s: "uspace s r xs" and u: "freelist u = freelist s" "kend u = kend s"
    and w: "wrote r va bs n (pmem s) (pmem u)" "wrote r (va + n) (drop n bs) j (pmem u) m"
  shows "wrote r va bs (n + j) (pmem s) m"
proof -
  note us = wrote_uspace [OF s u w(1)]
  have n: "n \<le> length bs" using w(1) by (simp add: wrote_def)
  have 1: "uval (pmem s) r (va + i)" "pmem u (uaddr (pmem s) r (va + i)) = bs ! i" if "i < n" for i
    using w(1) that by (auto simp: wrote_def)
  have 2: "uval (pmem s) r (va + (n + i))" "m (uaddr (pmem s) r (va + (n + i))) = bs ! (n + i)" if "i < j" for i
    using w(2) that n by (auto simp: wrote_def us(2,3) add.assoc)
  have out: "m a = pmem u a" if "\<And>i. i < j \<Longrightarrow> a \<noteq> uaddr (pmem s) r (va + (n + i))" for a
    using w(2) that by (auto simp: wrote_def us(2,3) add.assoc)
  have "m (uaddr (pmem s) r (va + i)) = bs ! i" if "i < n" for i
  proof -
    have "uaddr (pmem s) r (va + i) \<noteq> uaddr (pmem s) r (va + (n + k))" if k: "k < j" for k
      using uaddr_inj [OF s 1(1) [OF \<open>i < n\<close>] 2(1) [OF k]] \<open>i < n\<close> by auto
    then show ?thesis using out 1(2) [OF that] by simp
  qed
  then have "uval (pmem s) r (va + i) \<and> m (uaddr (pmem s) r (va + i)) = bs ! i" if "i < n + j" for i
    using that 1(1) 2 by (cases "i < n") (auto dest!: le_Suc_ex [OF leI])
  moreover have "m a = pmem s a" if a: "\<forall>i < n + j. a \<noteq> uaddr (pmem s) r (va + i)" for a
    using out [of a] w(1) a by (simp add: wrote_def)
  moreover have "n + j \<le> length bs" using w(2) n by (auto simp: wrote_def)
  ultimately show ?thesis by (simp add: wrote_def)
qed

lemma round_pos: "0 < PGSIZE - (va - PGROUNDDOWN va)"
  by (simp add: PGROUNDDOWN_def minus_div_mult_eq_mod page_mod)

lemma walkaddr_user: "uspace s r xs \<Longrightarrow> walkaddr r va s = Ret (if uval (pmem s) r va then ufr (pmem s) r va else 0) s"
  by (simp add: walkaddr_ret [OF uspaceD(1)] uval_def ufr_def)

lemma copyout_round:
  assumes s: "uspace s r xs" and v: "uval (pmem s) r (PGROUNDDOWN va)" and n: "n = min (PGSIZE - (va - PGROUNDDOWN va)) (length bs)"
  shows "wrote r va bs n (pmem s) (put_bytes (ufr (pmem s) r (PGROUNDDOWN va) + (va - PGROUNDDOWN va)) (take n bs) (pmem s))"
proof -
  have i: "uval (pmem s) r (va + i)" "uaddr (pmem s) r (va + i) = ufr (pmem s) r (PGROUNDDOWN va) + (va - PGROUNDDOWN va) + i" if "i < n" for i
    using round_page [of i va] v that n by (simp_all add: ufr_def)
  have "\<exists>i<n. a = ufr (pmem s) r (PGROUNDDOWN va) + (va - PGROUNDDOWN va) + i"
    if "ufr (pmem s) r (PGROUNDDOWN va) + (va - PGROUNDDOWN va) \<le> a" "a < ufr (pmem s) r (PGROUNDDOWN va) + (va - PGROUNDDOWN va) + n" for a
    using that by (metis add_less_cancel_left le_Suc_ex)
  with i n show ?thesis unfolding wrote_def put_bytes_def by auto
qed

lemma copyout_loop_nil: "copyout_loop k r va [] = kret 0"
  by (cases k) simp_all

lemma copyout_loop_ret:
  assumes "uspace s r xs" and "length bs \<le> k"
  shows "\<exists>res t j. copyout_loop k r va bs s = Ret res t \<and> freelist t = freelist s \<and> kend t = kend s \<and> wrote r va bs j (pmem s) (pmem t) \<and>
    (res = 0 \<and> j = length bs \<or> res = - 1 \<and> j < length bs \<and> \<not> uval (pmem s) r (va + j))"
  using assms
proof (induction k arbitrary: s va bs)
  case 0
  then show ?case by (simp add: kret_def wrote_def)
next
  case (Suc k s va bs)
  show ?case
  proof (cases "bs = []")
    case True
    then show ?thesis by (simp add: kret_def wrote_def)
  next
    case ne: False
    define n where "n = min (PGSIZE - (va - PGROUNDDOWN va)) (length bs)"
    show ?thesis
    proof (cases "uval (pmem s) r (PGROUNDDOWN va)")
      case False
      then have "\<not> uval (pmem s) r (va + 0)" using round_page(1) [OF round_pos, of "pmem s" r va] by simp
      moreover have "copyout_loop (Suc k) r va bs s = Ret (- 1) s"
        using ne False walkaddr_user [OF Suc.prems(1), of "PGROUNDDOWN va"] by (simp add: Let_def kret_def)
      moreover have "wrote r va bs 0 (pmem s) (pmem s)" by (simp add: wrote_def)
      ultimately show ?thesis using ne by (intro exI [of _ "- 1"] exI [of _ s] exI [of _ 0]) simp
    next
      case True
      let ?u = "s\<lparr>pmem := put_bytes (ufr (pmem s) r (PGROUNDDOWN va) + (va - PGROUNDDOWN va)) (take n bs) (pmem s)\<rparr>"
      have w: "wrote r va bs n (pmem s) (pmem ?u)" using copyout_round [OF Suc.prems(1) True n_def] by simp
      have fu: "freelist ?u = freelist s" "kend ?u = kend s" by simp_all
      note us = wrote_uspace [OF Suc.prems(1) fu w]
      have n0: "0 < n" unfolding n_def using round_pos ne by simp
      have "copyout_loop (Suc k) r va bs s = copyout_loop k r (PGROUNDDOWN va + PGSIZE) (drop n bs) ?u"
        using ne True walkaddr_user [OF Suc.prems(1), of "PGROUNDDOWN va"] uspaceD(2) [OF Suc.prems(1) True]
        by (simp add: Let_def n_def)
      also have "\<dots> = copyout_loop k r (va + n) (drop n bs) ?u"
        using round_next [of n va] by (cases "n = length bs") (simp_all add: copyout_loop_nil n_def min_def split: if_splits)
      finally have step: "copyout_loop (Suc k) r va bs s = copyout_loop k r (va + n) (drop n bs) ?u" .
      have "length (drop n bs) \<le> k" using Suc.prems(2) n0 by simp
      from Suc.IH [OF us(1) this, of "va + n"] obtain res t j
        where t: "copyout_loop k r (va + n) (drop n bs) ?u = Ret res t" "freelist t = freelist s" "kend t = kend s"
          "wrote r (va + n) (drop n bs) j (pmem ?u) (pmem t)"
          "res = 0 \<and> j = length (drop n bs) \<or> res = - 1 \<and> j < length (drop n bs) \<and> \<not> uval (pmem s) r (va + n + j)"
        unfolding us(2) by auto
      have "n \<le> length bs" by (simp add: n_def)
      with t(5) have "res = 0 \<and> n + j = length bs \<or> res = - 1 \<and> n + j < length bs \<and> \<not> uval (pmem s) r (va + (n + j))"
        by (auto simp: add.assoc)
      with wrote_append [OF Suc.prems(1) fu w t(4)] t(1-3) step show ?thesis by metis
    qed
  qed
qed

lemma copyin_loop_0: "copyin_loop k r dst va 0 = kret (0, dst)"
  by (cases k) simp_all

lemma copyin_loop_ret:
  assumes "uspace s r xs" and "len \<le> k"
  shows "\<exists>res out. copyin_loop k r dst va len s = Ret (res, dst @ out) s \<and>
    (res = 0 \<and> (\<forall>i<len. uval (pmem s) r (va + i)) \<and> out = map (\<lambda>i. pmem s (uaddr (pmem s) r (va + i))) [0..<len] \<or>
     res = - 1 \<and> (\<exists>i<len. \<not> uval (pmem s) r (va + i)))"
  using assms(2)
proof (induction k arbitrary: dst va len)
  case 0
  then show ?case by (simp add: kret_def)
next
  case (Suc k dst va len)
  note wu = walkaddr_user [OF assms(1), of "PGROUNDDOWN va"]
  show ?case
  proof (cases "len = 0")
    case True
    then show ?thesis by (simp add: kret_def)
  next
    case ne: False
    define n where "n = min (PGSIZE - (va - PGROUNDDOWN va)) len"
    show ?thesis
    proof (cases "uval (pmem s) r (PGROUNDDOWN va)")
      case False
      then have "\<not> uval (pmem s) r (va + 0)" using round_page(1) [OF round_pos, of "pmem s" r va] by simp
      then show ?thesis using ne False wu by (intro exI [of _ "- 1"] exI [of _ "[]"]) (auto simp: Let_def kret_def)
    next
      case True
      let ?bs = "get_bytes (pmem s) (ufr (pmem s) r (PGROUNDDOWN va) + (va - PGROUNDDOWN va)) n"
      have n: "0 < n" "n \<le> len" unfolding n_def using round_pos ne by simp_all
      have i: "uval (pmem s) r (va + i)" "uaddr (pmem s) r (va + i) = ufr (pmem s) r (PGROUNDDOWN va) + (va - PGROUNDDOWN va) + i" if "i < n" for i
        using round_page [of i va] True that by (simp_all add: ufr_def n_def)
      have bs: "?bs = map (\<lambda>i. pmem s (uaddr (pmem s) r (va + i))) [0..<n]" by (simp add: get_bytes_def i(2))
      have "copyin_loop (Suc k) r dst va len s = copyin_loop k r (dst @ ?bs) (PGROUNDDOWN va + PGSIZE) (len - n) s"
        using ne True wu uspaceD(2) [OF assms(1) True] by (simp add: Let_def n_def)
      also have "\<dots> = copyin_loop k r (dst @ ?bs) (va + n) (len - n) s"
        using round_next [of n va] by (cases "n = len") (simp_all add: copyin_loop_0 n_def min_def split: if_splits)
      finally have step: "copyin_loop (Suc k) r dst va len s = copyin_loop k r (dst @ ?bs) (va + n) (len - n) s" .
      have "len - n \<le> k" using Suc.prems n by simp
      from Suc.IH [OF this, of "dst @ ?bs" "va + n"] obtain res out
        where o: "copyin_loop k r (dst @ ?bs) (va + n) (len - n) s = Ret (res, (dst @ ?bs) @ out) s"
          "res = 0 \<and> (\<forall>i<len - n. uval (pmem s) r (va + n + i)) \<and> out = map (\<lambda>i. pmem s (uaddr (pmem s) r (va + n + i))) [0..<len - n] \<or>
           res = - 1 \<and> (\<exists>i<len - n. \<not> uval (pmem s) r (va + n + i))" by blast
      have all: "(\<forall>i<len. uval (pmem s) r (va + i)) \<longleftrightarrow> (\<forall>i<len - n. uval (pmem s) r (va + n + i))"
        using i(1) n(2) by (metis add.assoc le_add_diff_inverse less_diff_conv2 nat_add_left_cancel_less not_less)
      have "[0..<len] = [0..<n] @ map (\<lambda>i. n + i) [0..<len - n]"
        using n(2) upt_add_eq_append [of 0 n "len - n"] map_add_upt [of n "len - n"] by (simp add: add.commute)
      then have "map (\<lambda>i. pmem s (uaddr (pmem s) r (va + i))) [0..<len] = ?bs @ map (\<lambda>i. pmem s (uaddr (pmem s) r (va + n + i))) [0..<len - n]"
        unfolding bs by (simp add: add.assoc)
      with o all step show ?thesis by (intro exI [of _ res] exI [of _ "?bs @ out"]) auto
    qed
  qed
qed

text \<open>
  C27. \<^verbatim>\<open>copyout\<close> is safe for every user address: it always returns, it writes no byte of memory other than bytes of the
  given range that the user's page table maps for the user, and the page table, the user's mapping and the free pages
  stay as they were. It returns 0 exactly when the whole range is mapped for the user.
\<close>

theorem copyout_safe:
  assumes "uspace s r xs"
  shows "\<exists>res t. copyout r va bs s = Ret res t \<and> uspace t r xs \<and> pte_of (pmem t) r = pte_of (pmem s) r \<and>
     (\<forall>a. pmem t a = pmem s a \<or> (\<exists>i<length bs. uval (pmem s) r (va + i) \<and> a = uaddr (pmem s) r (va + i))) \<and>
     (if \<forall>i<length bs. uval (pmem s) r (va + i) then res = 0 else res = - 1)"
proof -
  obtain res t j where t: "copyout r va bs s = Ret res t" "freelist t = freelist s" "kend t = kend s" "wrote r va bs j (pmem s) (pmem t)"
    "res = 0 \<and> j = length bs \<or> res = - 1 \<and> j < length bs \<and> \<not> uval (pmem s) r (va + j)"
    using copyout_loop_ret [OF assms order_refl, of bs va] unfolding copyout_def by blast
  have w: "\<exists>i<length bs. uval (pmem s) r (va + i) \<and> a = uaddr (pmem s) r (va + i)" if "pmem t a \<noteq> pmem s a" for a
    using t(4) that unfolding wrote_def by (meson less_le_trans)
  have "\<exists>v. uval (pmem s) r v \<and> a = uaddr (pmem s) r v" if "pmem t a \<noteq> pmem s a" for a using w [OF that] by blast
  note us = uspace_agree [OF assms t(2,3) this]
  have "if \<forall>i<length bs. uval (pmem s) r (va + i) then res = 0 else res = - 1"
    using t(4,5) by (auto simp: wrote_def)
  with t(1) us w show ?thesis by blast
qed

text \<open>
  A memory for the witnesses: three tables with one entry each, which map page 0 for the user to the page at
  \<^verbatim>\<open>KERNBASE\<close>.
\<close>

definition sample_user :: kmem where
  "sample_user = \<lparr>pmem = wr64 (PHYSTOP - 4096) (PA2PTE (PHYSTOP - 8192) OR 0 OR PTE_V)
     (wr64 (PHYSTOP - 8192) (PA2PTE (PHYSTOP - 12288) OR 0 OR PTE_V) (wr64 (PHYSTOP - 12288) (PA2PTE KERNBASE OR 22 OR PTE_V) (\<lambda>_. 0))),
     freelist = 0, kend = KERNBASE\<rparr>"

lemma sample_user_ent:
  assumes "j < 512"
  shows "ent (pmem sample_user) (PHYSTOP - 4096) j = (if j = 0 then PA2PTE (PHYSTOP - 8192) OR 0 OR PTE_V else 0)"
    "ent (pmem sample_user) (PHYSTOP - 8192) j = (if j = 0 then PA2PTE (PHYSTOP - 12288) OR 0 OR PTE_V else 0)"
    "ent (pmem sample_user) (PHYSTOP - 12288) j = (if j = 0 then PA2PTE KERNBASE OR 22 OR PTE_V else 0)"
proof -
  have z: "ent (\<lambda>_. 0) x j = 0" for x by (simp add: ent_def rd64_def rd32_def rd16_def)
  have al: "(PHYSTOP - 4096) mod PGSIZE = 0" "(PHYSTOP - 8192) mod PGSIZE = 0" "(PHYSTOP - 12288) mod PGSIZE = 0" by (simp_all add: kconsts)
  have ne: "PHYSTOP - 4096 \<noteq> PHYSTOP - 8192" "PHYSTOP - 4096 \<noteq> PHYSTOP - 12288" "PHYSTOP - 8192 \<noteq> PHYSTOP - 12288" by (simp_all add: kconsts)
  have e: "(PA2PTE (PHYSTOP - 8192) OR 0 OR PTE_V) mod 18446744073709551616 = PA2PTE (PHYSTOP - 8192) OR 0 OR PTE_V"
    "(PA2PTE (PHYSTOP - 12288) OR 0 OR PTE_V) mod 18446744073709551616 = PA2PTE (PHYSTOP - 12288) OR 0 OR PTE_V"
    "(PA2PTE KERNBASE OR 22 OR PTE_V) mod 18446744073709551616 = PA2PTE KERNBASE OR 22 OR PTE_V"
    using mk_pte(4) [of "PHYSTOP - 8192" 0] mk_pte(4) [of "PHYSTOP - 12288" 0] mk_pte(4) [of KERNBASE 22] by (simp_all add: kconsts)
  have w: "ent (wr64 x v m) y j = (if x = y \<and> j = 0 then v mod 18446744073709551616 else ent m y j)"
    if "x mod PGSIZE = 0" "y mod PGSIZE = 0" for x y v m using ent_wr64 [OF that _ assms, of 0 v m] by auto
  show "ent (pmem sample_user) (PHYSTOP - 4096) j = (if j = 0 then PA2PTE (PHYSTOP - 8192) OR 0 OR PTE_V else 0)"
    "ent (pmem sample_user) (PHYSTOP - 8192) j = (if j = 0 then PA2PTE (PHYSTOP - 12288) OR 0 OR PTE_V else 0)"
    "ent (pmem sample_user) (PHYSTOP - 12288) j = (if j = 0 then PA2PTE KERNBASE OR 22 OR PTE_V else 0)"
    by (simp_all only: sample_user_def kmem.simps w [OF al(1) al(1)] w [OF al(2) al(1)] w [OF al(3) al(1)] w [OF al(1) al(2)] w [OF al(2) al(2)]
      w [OF al(3) al(2)] w [OF al(1) al(3)] w [OF al(2) al(3)] w [OF al(3) al(3)] ne ne [symmetric] e z simp_thms if_True if_False)
qed

lemma sample_user_steps:
  "PTE2PA (ent (pmem sample_user) (PHYSTOP - 4096) 0) = PHYSTOP - 8192" "bit (ent (pmem sample_user) (PHYSTOP - 4096) 0) 0"
  "PTE2PA (ent (pmem sample_user) (PHYSTOP - 8192) 0) = PHYSTOP - 12288" "bit (ent (pmem sample_user) (PHYSTOP - 8192) 0) 0"
proof -
  have al: "(PHYSTOP - 8192) mod PGSIZE = 0" "(PHYSTOP - 12288) mod PGSIZE = 0" by (simp_all add: kconsts)
  show "PTE2PA (ent (pmem sample_user) (PHYSTOP - 4096) 0) = PHYSTOP - 8192" "bit (ent (pmem sample_user) (PHYSTOP - 4096) 0) 0"
    "PTE2PA (ent (pmem sample_user) (PHYSTOP - 8192) 0) = PHYSTOP - 12288" "bit (ent (pmem sample_user) (PHYSTOP - 8192) 0) 0"
    using mk_pte(1,2) [OF al(1), of 0] mk_pte(1,2) [OF al(2), of 0] by (simp_all add: sample_user_ent)
qed

lemma sample_user_vld:
  assumes "length p \<le> 2"
  shows "vld (pmem sample_user) (PHYSTOP - 4096) p \<longleftrightarrow> p = [] \<or> p = [0] \<or> p = [0, 0]"
proof -
  have 1: "vld (pmem sample_user) (PHYSTOP - 4096) [i] \<longleftrightarrow> i = 0" for i
    using sample_user_ent(1) [of i] sample_user_steps(2) by (cases "i = 0") auto
  have 2: "vld (pmem sample_user) (PHYSTOP - 4096) [i, j] \<longleftrightarrow> i = 0 \<and> j = 0" for i j
    using sample_user_ent(1) [of i] sample_user_ent(2) [of j] sample_user_steps by (cases "i = 0"; cases "j = 0") auto
  from assms consider "p = []" | i where "p = [i]" | i j where "p = [i, j]" by (cases p; cases "tl p") auto
  then show ?thesis by cases (simp_all only: 1 2, simp_all)
qed

lemma sample_user_pte:
  assumes "va < MAXVA"
  shows "pte_of (pmem sample_user) (PHYSTOP - 4096) va = (if va < 4096 then PA2PTE KERNBASE OR 22 OR PTE_V else 0)"
proof (cases "va < 4096")
  case True
  then have "PX l va = 0" for l using PX_div [of va 0 l] by (simp add: kconsts PX_eq)
  then show ?thesis using True sample_user_steps sample_user_ent(3) [of 0] by (simp add: pte_of_def vpath_def)
next
  case False
  then have "va div PGSIZE \<noteq> 0 div PGSIZE" by (simp add: kconsts)
  moreover have "PX l 0 = 0" for l by (simp add: PX_eq)
  ultimately have "\<not> (PX 2 va = 0 \<and> PX 1 va = 0 \<and> PX 0 va = 0)" using page_index_unique [OF assms, of 0] by (auto simp: pte_flag_vals)
  then show ?thesis
    using False sample_user_vld [of "vpath va"] sample_user_steps sample_user_ent(3) [OF PX_less [of 0 va]]
    by (auto simp: pte_of_def vpath_def)
qed

lemma sample_user_uspace:
  shows "uspace sample_user (PHYSTOP - 4096) []" "uval (pmem sample_user) (PHYSTOP - 4096) va \<longleftrightarrow> va < 4096"
proof -
  have b: "bit (22 :: nat) 4" by (simp add: bit_iff_odd)
  have k: "KERNBASE mod PGSIZE = 0" by (simp add: kconsts)
  have "bit (PA2PTE KERNBASE OR 22 OR PTE_V) 4" "bit (PA2PTE KERNBASE OR 22 OR PTE_V) 0" "PTE2PA (PA2PTE KERNBASE OR 22 OR PTE_V) = KERNBASE"
    using mk_pte(1-3) [OF k, of 22] b by simp_all
  note e = this
  have m: "va < 4096 \<Longrightarrow> va < MAXVA" for va by (simp add: pte_flag_vals)
  show v: "uval (pmem sample_user) (PHYSTOP - 4096) va \<longleftrightarrow> va < 4096" for va
    using sample_user_pte [of va] e m [of va] by (cases "va < 4096") (auto simp: uval_def)
  have f: "ufr (pmem sample_user) (PHYSTOP - 4096) va = KERNBASE" if "va < 4096" for va
    using sample_user_pte [OF m [OF that]] that e by (simp add: ufr_def)
  have nd: "nd (pmem sample_user) (PHYSTOP - 4096) [0] = PHYSTOP - 8192" "nd (pmem sample_user) (PHYSTOP - 4096) [0, 0] = PHYSTOP - 12288"
    by (simp_all add: sample_user_steps)
  have "kmem_ok sample_user []" by (simp add: kmem_ok_def sample_user_def kconsts)
  then have "ptree sample_user (PHYSTOP - 4096) []"
    unfolding ptree_def using sample_user_vld nd by (auto simp: kconsts simp del: nd.simps(2))
  moreover have "\<not> in_tables (pmem sample_user) (PHYSTOP - 4096) (uaddr (pmem sample_user) (PHYSTOP - 4096) va)" if "va < 4096" for va
    unfolding in_tables_def using sample_user_vld nd that f by (auto simp: uaddr_def kconsts simp del: nd.simps(2))
  ultimately show "uspace sample_user (PHYSTOP - 4096) []"
    unfolding uspace_def v using f by (simp, simp add: KERNBASE_def PGSIZE_def)
qed

theorem copyout_safe_witness:
  "\<exists>t. copyout (PHYSTOP - 4096) 4094 [7, 8, 9] sample_user = Ret (- 1) t \<and> uspace t (PHYSTOP - 4096) []"
proof -
  have "\<not> (\<forall>i<length [7, 8, 9 :: byte]. uval (pmem sample_user) (PHYSTOP - 4096) (4094 + i))"
    unfolding sample_user_uspace(2) by (auto intro!: exI [of _ 2])
  from copyout_safe [OF sample_user_uspace(1), of 4094 "[7, 8, 9]", unfolded if_not_P [OF this]] show ?thesis by blast
qed

text \<open>
  C29. What \<^verbatim>\<open>copyout\<close> stores, \<^verbatim>\<open>copyin\<close> reads back: on a range that is mapped for the user, across any page
  boundaries and whatever frames the pages have, both return 0 and \<^verbatim>\<open>copyin\<close> delivers the bytes given to \<^verbatim>\<open>copyout\<close>.
\<close>

theorem copyout_copyin:
  assumes "uspace s r xs" and "\<forall>i<length bs. uval (pmem s) r (va + i)"
  shows "\<exists>t. copyout r va bs s = Ret 0 t \<and> copyin r va (length bs) t = Ret (0, bs) t"
proof -
  obtain t where t: "copyout r va bs s = Ret 0 t" "freelist t = freelist s" "kend t = kend s" "wrote r va bs (length bs) (pmem s) (pmem t)"
    using copyout_loop_ret [OF assms(1) order_refl, of bs va] assms(2) unfolding copyout_def by blast
  note us = wrote_uspace [OF assms(1) t(2-4)]
  obtain res out where o: "copyin r va (length bs) t = Ret (res, out) t"
    "res = 0 \<and> out = map (\<lambda>i. pmem t (uaddr (pmem s) r (va + i))) [0..<length bs] \<or> res = - 1 \<and> (\<exists>i<length bs. \<not> uval (pmem s) r (va + i))"
    using copyin_loop_ret [where k = "length bs" and len = "length bs" and dst = "[]" and va = va, OF us(1) order_refl] unfolding us(2,3) copyin_def by auto
  have "map (\<lambda>i. pmem t (uaddr (pmem s) r (va + i))) [0..<length bs] = bs"
    using t(4) by (intro nth_equalityI) (simp_all add: wrote_def)
  with o assms(2) t(1) show ?thesis by auto
qed

theorem copyout_copyin_witness:
  "\<exists>t. copyout (PHYSTOP - 4096) 100 [7, 8, 9] sample_user = Ret 0 t \<and> copyin (PHYSTOP - 4096) 100 3 t = Ret (0, [7, 8, 9]) t"
proof -
  have "\<forall>i<length [7, 8, 9 :: byte]. uval (pmem sample_user) (PHYSTOP - 4096) (100 + i)" by (simp add: sample_user_uspace(2))
  from copyout_copyin [OF sample_user_uspace(1) this] show ?thesis by (simp add: numeral_3_eq_3)
qed

end
