(* ===== verification/Sysfile.thy ===== *)
theory Sysfile
  imports File
begin

unbundle bit_operations_syntax

text \<open>
  The system calls on files, \<^verbatim>\<open>kernel/sysfile.c\<close>. A call takes its arguments as the argument fetchers
  deliver them: an integer always arrives, a path is \<^const>\<open>None\<close> when \<^verbatim>\<open>argstr\<close> fails. The fuel
  argument bounds the symbolic links that path lookup follows.
\<close>

section \<open>Descriptors\<close>

definition argfd :: "int \<Rightarrow> 'x ostate_scheme \<Rightarrow> nat option" where
  "argfd fd s = (if fd < 0 \<or> fd \<ge> int NOFILE then None else ofile s (nat fd))"

primrec fdalloc_scan :: "(nat \<Rightarrow> nat option) \<Rightarrow> nat \<Rightarrow> nat \<Rightarrow> nat option" where
  "fdalloc_scan fs fd 0 = None"
| "fdalloc_scan fs fd (Suc k) = (if fs fd = None then Some fd else fdalloc_scan fs (Suc fd) k)"

definition fdalloc :: "nat \<Rightarrow> ('x ostate_scheme, int) kernel" where
  "fdalloc f s =
     (case fdalloc_scan (ofile s) 0 NOFILE of
        Some fd \<Rightarrow> Ret (int fd) (s\<lparr>ofile := (ofile s)(fd := Some f)\<rparr>)
      | None \<Rightarrow> Ret (- 1) s)"

definition sys_dup :: "int \<Rightarrow> ('x ostate_scheme, int) kernel" where
  "sys_dup a0 s =
     (case argfd a0 s of
        None \<Rightarrow> Ret (- 1) s
      | Some f \<Rightarrow> kbind (fdalloc f) (\<lambda>fd. if fd < 0 then kret (- 1) else kthen (filedup f) (kret fd)) s)"

definition sys_read ::
  "'x ostate_scheme devsw \<Rightarrow> int \<Rightarrow> (nat \<Rightarrow> byte list \<Rightarrow> bool) \<Rightarrow> int \<Rightarrow> ('x ostate_scheme, int \<times> byte list) kernel"
where
  "sys_read devs a0 out n s =
     (case argfd a0 s of None \<Rightarrow> Ret (- 1, []) s | Some f \<Rightarrow> fileread devs f out n s)"

definition sys_write ::
  "'x ostate_scheme devsw \<Rightarrow> int \<Rightarrow> (nat \<Rightarrow> nat \<Rightarrow> byte list \<times> bool) \<Rightarrow> int \<Rightarrow> ('x ostate_scheme, int) kernel"
where
  "sys_write devs a0 src n s =
     (case argfd a0 s of None \<Rightarrow> Ret (- 1) s | Some f \<Rightarrow> filewrite devs f src n s)"

definition sys_close :: "int \<Rightarrow> ('x ostate_scheme, int) kernel" where
  "sys_close a0 s =
     (case argfd a0 s of
        None \<Rightarrow> Ret (- 1) s
      | Some f \<Rightarrow>
          kthen (kmod (\<lambda>s. s\<lparr>ofile := (ofile s)(nat a0 := None)\<rparr>))
         (kthen (fileclose f)
                (kret 0)) s)"

definition sys_fstat :: "int \<Rightarrow> bool \<Rightarrow> ('x ostate_scheme, int \<times> stat option) kernel" where
  "sys_fstat a0 ok s =
     (case argfd a0 s of None \<Rightarrow> Ret (- 1, None) s | Some f \<Rightarrow> filestat f ok s)"

section \<open>Links\<close>

definition no_name :: "nat \<Rightarrow> byte" where
  "no_name = (\<lambda>_. 0)"

definition name_buf :: "byte list \<Rightarrow> nat \<Rightarrow> byte" where
  "name_buf bs = put_bytes 0 bs no_name"

definition DOT :: byte where "DOT = 46"

definition sys_link_bad :: "nat \<Rightarrow> ('x ostate_scheme, int) kernel" where
  "sys_link_bad ip =
     kthen (ilock ip)
    (kthen (upd_inode ip (\<lambda>x. x\<lparr>i_nlink := i_nlink x - 1\<rparr>))
    (kthen (iupdate ip)
    (kthen (iunlockput ip)
    (kthen end_op
           (kret (- 1))))))"

definition sys_link :: "nat \<Rightarrow> byte list option \<Rightarrow> byte list option \<Rightarrow> ('x ostate_scheme, int) kernel" where
  "sys_link fuel old new =
     (case (old, new) of
        (Some old, Some new) \<Rightarrow>
          kthen begin_op
         (kbind (namei fuel old) (\<lambda>r.
            case r of
              None \<Rightarrow> kthen end_op (kret (- 1))
            | Some ip \<Rightarrow>
                kthen (ilock ip)
                  (\<lambda>s. if i_type (icache s ip) = T_DIR
                       then kthen (iunlockput ip) (kthen end_op (kret (- 1))) s
                       else
                         kthen (upd_inode ip (\<lambda>x. x\<lparr>i_nlink := i_nlink x + 1\<rparr>))
                        (kthen (iupdate ip)
                        (kthen (iunlock ip)
                        (kbind (nameiparent fuel new no_name) (\<lambda>(d, name).
                           case d of
                             None \<Rightarrow> sys_link_bad ip
                           | Some dp \<Rightarrow>
                               kthen (ilock dp)
                                 (\<lambda>s. kbind (if i_dev (icache s dp) \<noteq> i_dev (icache s ip) then kret (- 1)
                                             else dirlink dp name (i_inum (icache s ip))) (\<lambda>r.
                                      if r < 0 then kthen (iunlockput dp) (sys_link_bad ip)
                                      else kthen (iunlockput dp)
                                          (kthen (iput ip)
                                          (kthen end_op
                                                 (kret 0)))) s))))) s)))
      | _ \<Rightarrow> kret (- 1))"

primrec isdirempty_loop :: "nat \<Rightarrow> nat \<Rightarrow> nat \<Rightarrow> ('x fstate_scheme, bool) kernel" where
  "isdirempty_loop 0 dp off s = (if off < i_size (icache s dp) then Loop else Ret True s)"
| "isdirempty_loop (Suc k) dp off s =
     (if off < i_size (icache s dp)
      then kbind (readi dp kernel_dst off 16) (\<lambda>(r, de).
             if r \<noteq> 16 then kpanic ''isdirempty: readi''
             else if de_inum de \<noteq> 0 then kret False
             else isdirempty_loop k dp (off + 16)) s
      else Ret True s)"

definition isdirempty :: "nat \<Rightarrow> ('x fstate_scheme, bool) kernel" where
  "isdirempty dp s = isdirempty_loop (Suc (i_size (icache s dp) div 16)) dp (2 * 16) s"

definition sys_unlink_bad :: "nat \<Rightarrow> ('x ostate_scheme, int) kernel" where
  "sys_unlink_bad dp = kthen (iunlockput dp) (kthen end_op (kret (- 1)))"

definition sys_unlink :: "nat \<Rightarrow> byte list option \<Rightarrow> ('x ostate_scheme, int) kernel" where
  "sys_unlink fuel path =
     (case path of
        None \<Rightarrow> kret (- 1)
      | Some path \<Rightarrow>
          kthen begin_op
         (kbind (nameiparent fuel path no_name) (\<lambda>(d, name).
            case d of
              None \<Rightarrow> kthen end_op (kret (- 1))
            | Some dp \<Rightarrow>
                kthen (ilock dp)
                  (if namecmp name (name_buf [DOT]) = 0 \<or> namecmp name (name_buf [DOT, DOT]) = 0
                   then sys_unlink_bad dp
                   else kbind (dirlookup dp name) (\<lambda>found.
                     case found of
                       None \<Rightarrow> sys_unlink_bad dp
                     | Some (ip, off) \<Rightarrow>
                         kthen (ilock ip)
                           (\<lambda>s. if sint (i_nlink (icache s ip)) < 1 then Panic ''unlink: nlink < 1''
                                else kbind (if i_type (icache s ip) = T_DIR then isdirempty ip else kret True) (\<lambda>emp.
                                  if \<not> emp then kthen (iunlockput ip) (sys_unlink_bad dp)
                                  else kbind (writei dp (kernel_src (replicate 16 0)) off 16) (\<lambda>r.
                                    if r \<noteq> 16 then kpanic ''unlink: writei''
                                    else kthen (\<lambda>s. if i_type (icache s ip) = T_DIR
                                                    then kthen (upd_inode dp (\<lambda>x. x\<lparr>i_nlink := i_nlink x - 1\<rparr>)) (iupdate dp) s
                                                    else Ret () s)
                                        (kthen (iunlockput dp)
                                        (kthen (upd_inode ip (\<lambda>x. x\<lparr>i_nlink := i_nlink x - 1\<rparr>))
                                        (kthen (iupdate ip)
                                        (kthen (iunlockput ip)
                                        (kthen end_op
                                               (kret 0)))))))) s))))))"

section \<open>Creating and opening\<close>

definition create :: "nat \<Rightarrow> byte list \<Rightarrow> 16 word \<Rightarrow> 16 word \<Rightarrow> 16 word \<Rightarrow> ('x fstate_scheme, nat option) kernel" where
  "create fuel path type major mode =
     kbind (nameiparent fuel path no_name) (\<lambda>(d, name).
       case d of
         None \<Rightarrow> kret None
       | Some dp \<Rightarrow>
           kthen (ilock dp)
          (kbind (dirlookup dp name) (\<lambda>found.
             case found of
               Some (ip, off) \<Rightarrow>
                 kthen (iunlockput dp)
                (kthen (ilock ip)
                   (\<lambda>s. if type = T_FILE \<and> (i_type (icache s ip) = T_FILE \<or> i_type (icache s ip) = T_DEVICE)
                        then Ret (Some ip) s
                        else kthen (iunlockput ip) (kret None) s))
             | None \<Rightarrow>
                 (\<lambda>s. kbind (ialloc (i_dev (icache s dp)) type) (\<lambda>ip.
                      kthen (ilock ip)
                     (kthen (upd_inode ip (\<lambda>x. x\<lparr>i_major := major, i_mode := mode, i_nlink := 1\<rparr>))
                     (kthen (iupdate ip)
                     (kthen (kwhen (type = T_DIR)
                               (kthen (upd_inode dp (\<lambda>x. x\<lparr>i_nlink := i_nlink x + 1\<rparr>))
                               (kthen (iupdate dp)
                                 (\<lambda>s. kbind (dirlink ip (name_buf [DOT]) (i_inum (icache s ip))) (\<lambda>r.
                                        if r < 0 then kpanic ''create dots''
                                        else kbind (dirlink ip (name_buf [DOT, DOT]) (i_inum (icache s dp))) (\<lambda>r.
                                          if r < 0 then kpanic ''create dots'' else kret ())) s))))
                       (\<lambda>s. kbind (dirlink dp name (i_inum (icache s ip))) (\<lambda>r.
                              if r < 0 then kpanic ''create: dirlink''
                              else kthen (iunlockput dp) (kret (Some ip))) s))))) s))))"

definition O_RDONLY :: uint32 where [kconsts]: "O_RDONLY = 0x000"
definition O_WRONLY :: uint32 where [kconsts]: "O_WRONLY = 0x001"
definition O_RDWR :: uint32 where [kconsts]: "O_RDWR = 0x002"
definition O_CREATE :: uint32 where [kconsts]: "O_CREATE = 0x200"
definition O_TRUNC :: uint32 where [kconsts]: "O_TRUNC = 0x400"
definition O_NOACCESS :: uint32 where [kconsts]: "O_NOACCESS = 0x004"

definition open_pass :: "uint32 \<Rightarrow> inode \<Rightarrow> bool" where
  "open_pass omode ip =
     (let want_read = (omode AND O_WRONLY = 0);
          want_write = (omode AND O_WRONLY \<noteq> 0 \<or> omode AND O_RDWR \<noteq> 0)
      in \<not> (want_read \<and> i_mode ip AND M_READ = 0) \<and>
         \<not> (want_write \<and> i_mode ip AND M_WRITE = 0) \<and>
         \<not> (i_type ip = T_DIR \<and> want_write))"

text \<open>
  The leaf that \<^verbatim>\<open>O_NOACCESS\<close> cuts off the path before \<^verbatim>\<open>namex\<close> overwrites the buffer: what follows the
  last slash, of at most \<^verbatim>\<open>DIRSIZ - 1\<close> bytes.
\<close>

definition leaf_target :: "byte list \<Rightarrow> nat \<Rightarrow> byte" where
  "leaf_target path = name_buf (take (DIRSIZ - 1) (rev (takeWhile (\<lambda>c. c \<noteq> SLASH) (rev path))))"

text \<open>The \<^verbatim>\<open>while\<close> loop of the \<^verbatim>\<open>O_NOACCESS\<close> branch; \<open>None\<close> means that the call has returned -1.\<close>

primrec noaccess_links :: "nat \<Rightarrow> nat \<Rightarrow> ('x ostate_scheme, nat option) kernel" where
  "noaccess_links 0 ip s = Loop"
| "noaccess_links (Suc k) ip s =
     (if i_type (icache s ip) = T_SYMLINK
      then kbind (readi ip kernel_dst 0 (MAXPATH - 1)) (\<lambda>(n, bs).
           kthen (iput ip)
          (kthen end_op
             (if n < 0 then kret None
              else kthen begin_op
                  (kbind (namei k (takeWhile (\<lambda>c. c \<noteq> 0) bs)) (\<lambda>r.
                     case r of
                       None \<Rightarrow> kthen end_op (kret None)
                     | Some ip \<Rightarrow> kthen (ilock ip) (kthen end_op (noaccess_links k ip))))))) s
      else Ret (Some ip) s)"

definition open_noaccess :: "nat \<Rightarrow> byte list \<Rightarrow> ('x ostate_scheme, nat option) kernel" where
  "open_noaccess fuel path =
     kbind (namex fuel path True (leaf_target path)) (\<lambda>(r, leaf).
       case r of
         None \<Rightarrow> kthen end_op (kret None)
       | Some ip \<Rightarrow>
           kthen (ilock ip)
          (kbind (noaccess_links fuel ip) (\<lambda>r.
             case r of
               None \<Rightarrow> kret None
             | Some dp \<Rightarrow>
                 (\<lambda>s. if i_type (icache s dp) \<noteq> T_DIR
                      then kthen (iunlockput dp) (kthen end_op (kret None)) s
                      else kbind (dirlookup dp leaf) (\<lambda>found.
                           kthen (iunlockput dp)
                             (case found of
                                None \<Rightarrow> kthen end_op (kret None)
                              | Some (ip, off) \<Rightarrow> kthen (ilock ip) (kret (Some ip)))) s))))"

text \<open>Steps 3 to 5 of \<^verbatim>\<open>sys_open_internal\<close>, with \<open>ip\<close> locked.\<close>

definition open_finish :: "uint32 \<Rightarrow> nat \<Rightarrow> ('x ostate_scheme, int) kernel" where
  "open_finish omode ip s =
     (if i_type (icache s ip) = T_DEVICE \<and> (sint (i_major (icache s ip)) < 0 \<or> sint (i_major (icache s ip)) \<ge> int NDEV)
      then kthen (iunlockput ip) (kthen end_op (kret (- 1))) s
      else kbind filealloc (\<lambda>r.
             case r of
               None \<Rightarrow> kthen (iunlockput ip) (kthen end_op (kret (- 1)))
             | Some f \<Rightarrow>
                 kbind (fdalloc f) (\<lambda>fd.
                   if fd < 0 then kthen (fileclose f) (kthen (iunlockput ip) (kthen end_op (kret (- 1))))
                   else kthen (\<lambda>s. let x = icache s ip;
                                       quiet = (omode AND O_NOACCESS \<noteq> 0 \<and> i_type x \<noteq> T_SYMLINK)
                                   in upd_file f (\<lambda>y. y\<lparr>f_type := (if i_type x = T_DEVICE then FD_DEVICE else FD_INODE),
                                        f_major := i_major x, f_ip := ip, f_off := 0,
                                        f_readable := (\<not> quiet \<and> omode AND O_WRONLY = 0),
                                        f_writable := (\<not> quiet \<and> (omode AND O_WRONLY \<noteq> 0 \<or> omode AND O_RDWR \<noteq> 0))\<rparr>) s)
                       (kthen (\<lambda>s. if omode AND O_TRUNC \<noteq> 0 \<and> i_type (icache s ip) = T_FILE then itrunc ip s else Ret () s)
                       (kthen (iunlock ip)
                       (kthen end_op
                              (kret fd)))))) s)"

primrec sys_open_internal :: "nat \<Rightarrow> byte list \<Rightarrow> uint32 \<Rightarrow> ('x ostate_scheme, int) kernel" where
  "sys_open_internal 0 path omode = (\<lambda>s. Loop)"
| "sys_open_internal (Suc k) path omode =
     kthen begin_op
       (if omode AND O_CREATE \<noteq> 0
        then kbind (create k path T_FILE 0 M_ALL) (\<lambda>r.
               case r of None \<Rightarrow> kthen end_op (kret (- 1)) | Some ip \<Rightarrow> open_finish omode ip)
        else if omode AND O_NOACCESS \<noteq> 0
        then kbind (open_noaccess k path) (\<lambda>r.
               case r of None \<Rightarrow> kret (- 1) | Some ip \<Rightarrow> open_finish omode ip)
        else kbind (namei k path) (\<lambda>r.
               case r of
                 None \<Rightarrow> kthen end_op (kret (- 1))
               | Some ip \<Rightarrow>
                   kthen (ilock ip)
                     (\<lambda>s. if i_type (icache s ip) = T_SYMLINK
                          then kbind (readi ip kernel_dst 0 (MAXPATH - 1)) (\<lambda>(n, bs).
                               kthen (iunlockput ip)
                              (kthen end_op
                                 (if n < 0 then kret (- 1)
                                  else sys_open_internal k (takeWhile (\<lambda>c. c \<noteq> 0) bs) omode))) s
                          else if \<not> open_pass omode (icache s ip)
                          then kthen (iunlockput ip) (kthen end_op (kret (- 1))) s
                          else open_finish omode ip s)))"

definition sys_open :: "nat \<Rightarrow> byte list option \<Rightarrow> uint32 \<Rightarrow> ('x ostate_scheme, int) kernel" where
  "sys_open fuel path omode =
     (case path of None \<Rightarrow> kret (- 1) | Some path \<Rightarrow> sys_open_internal fuel path omode)"

definition sys_mkdir :: "nat \<Rightarrow> byte list option \<Rightarrow> ('x ostate_scheme, int) kernel" where
  "sys_mkdir fuel path =
     kthen begin_op
    (kbind (case path of None \<Rightarrow> kret None | Some path \<Rightarrow> create fuel path T_DIR 0 M_ALL) (\<lambda>r.
       case r of
         None \<Rightarrow> kthen end_op (kret (- 1))
       | Some ip \<Rightarrow> kthen (iunlockput ip) (kthen end_op (kret 0))))"

definition sys_mknod :: "nat \<Rightarrow> byte list option \<Rightarrow> int \<Rightarrow> ('x ostate_scheme, int) kernel" where
  "sys_mknod fuel path major =
     kthen begin_op
    (kbind (case path of None \<Rightarrow> kret None | Some path \<Rightarrow> create fuel path T_DEVICE (word_of_int major) M_ALL) (\<lambda>r.
       case r of
         None \<Rightarrow> kthen end_op (kret (- 1))
       | Some ip \<Rightarrow> kthen (iunlockput ip) (kthen end_op (kret 0))))"

definition sys_chdir :: "nat \<Rightarrow> byte list option \<Rightarrow> ('x ostate_scheme, int) kernel" where
  "sys_chdir fuel path =
     kthen begin_op
    (kbind (case path of None \<Rightarrow> kret None | Some path \<Rightarrow> namei fuel path) (\<lambda>r.
       case r of
         None \<Rightarrow> kthen end_op (kret (- 1))
       | Some ip \<Rightarrow>
           kthen (ilock ip)
             (\<lambda>s. if i_type (icache s ip) \<noteq> T_DIR
                  then kthen (iunlockput ip) (kthen end_op (kret (- 1))) s
                  else kthen (iunlock ip)
                      (kthen (\<lambda>s. iput (cwd s) s)
                      (kthen end_op
                      (kthen (kmod (\<lambda>s. s\<lparr>cwd := ip\<rparr>))
                             (kret 0)))) s)))"

text \<open>\<^verbatim>\<open>sys_pipe\<close>: \<open>out0\<close> and \<open>out1\<close> say whether the two descriptors can be copied to the user.\<close>

definition sys_pipe :: "bool \<Rightarrow> bool \<Rightarrow> ('x ostate_scheme, int \<times> int \<times> int) kernel" where
  "sys_pipe out0 out1 =
     kbind pipealloc (\<lambda>r.
       case r of
         None \<Rightarrow> kret (- 1, 0, 0)
       | Some (rfd, wfd) \<Rightarrow>
           kbind (fdalloc rfd) (\<lambda>fd0.
             if fd0 < 0 then kthen (fileclose rfd) (kthen (fileclose wfd) (kret (- 1, 0, 0)))
             else kbind (fdalloc wfd) (\<lambda>fd1.
               if fd1 < 0
               then kthen (kmod (\<lambda>s. s\<lparr>ofile := (ofile s)(nat fd0 := None)\<rparr>))
                   (kthen (fileclose rfd) (kthen (fileclose wfd) (kret (- 1, 0, 0))))
               else if \<not> out0 \<or> \<not> out1
               then kthen (kmod (\<lambda>s. s\<lparr>ofile := (ofile s)(nat fd0 := None, nat fd1 := None)\<rparr>))
                   (kthen (fileclose rfd) (kthen (fileclose wfd) (kret (- 1, 0, 0))))
               else kret (0, fd0, fd1))))"

section \<open>Modes, symbolic links and raw blocks\<close>

definition sys_chmod :: "nat \<Rightarrow> int \<Rightarrow> byte list option \<Rightarrow> ('x ostate_scheme, int) kernel" where
  "sys_chmod fuel mode_op path =
     (case path of
        None \<Rightarrow> kret (- 1)
      | Some path \<Rightarrow>
          kthen begin_op
         (kbind (namei fuel path) (\<lambda>r.
            case r of
              None \<Rightarrow> kthen end_op (kret (- 1))
            | Some ip \<Rightarrow>
                kthen (ilock ip)
               (kthen (upd_inode ip (\<lambda>x. x\<lparr>i_mode := word_of_int mode_op\<rparr>))
               (kthen (iupdate ip)
               (kthen (iunlock ip)
               (kthen (iput ip)
               (kthen end_op
                      (kret 0)))))))))"

definition sys_symlink :: "nat \<Rightarrow> byte list option \<Rightarrow> byte list option \<Rightarrow> ('x ostate_scheme, int) kernel" where
  "sys_symlink fuel target path =
     (case (target, path) of
        (Some target, Some path) \<Rightarrow>
          kthen begin_op
         (kbind (create fuel path T_SYMLINK 0 M_ALL) (\<lambda>r.
            case r of
              None \<Rightarrow> kthen end_op (kret (- 1))
            | Some ip \<Rightarrow>
                kbind (writei ip (kernel_src target) 0 (length target)) (\<lambda>n.
                  if n \<noteq> int (length target)
                  then kthen (iunlockput ip) (kthen end_op (kret (- 1)))
                  else kthen (iunlockput ip) (kthen end_op (kret 0)))))
      | _ \<Rightarrow> kret (- 1))"

text \<open>\<open>ok\<close> says whether the copy of the block to the user succeeds.\<close>

definition sys_raw_read :: "int \<Rightarrow> bool \<Rightarrow> ('x ostate_scheme, int \<times> block option) kernel" where
  "sys_raw_read pbn ok =
     (if pbn < 0 \<or> pbn \<ge> int FSSIZE then kret (- 1, None)
      else kbind (bget ROOTDEV (nat pbn)) (\<lambda>b.
           kthen (disk_rw b False)
             (\<lambda>s. if \<not> ok then kthen (brelse b) (kret (- 1, None)) s
                  else kthen (brelse b) (kret (0, Some (b_data (bcache s b)))) s)))"

definition sys_get_disk_lbn :: "int \<Rightarrow> int \<Rightarrow> ('x ostate_scheme, int) kernel" where
  "sys_get_disk_lbn a0 file_lbn s =
     (case argfd a0 s of
        None \<Rightarrow> Ret (- 1) s
      | Some f \<Rightarrow>
          if \<not> f_readable (ftable s f) then Ret (- 1) s
          else let ip = f_ip (ftable s f) in
               kthen (ilock ip)
              (kbind (bmap ip (nat (file_lbn mod 2 ^ 32))) (\<lambda>disk_lbn.
               kthen (iunlock ip)
                     (kret (int disk_lbn)))) s)"

text \<open>\<open>src\<close> is what \<^verbatim>\<open>copyin\<close> stores into the buffer and whether it succeeds.\<close>

definition sys_raw_write :: "int \<Rightarrow> byte list \<times> bool \<Rightarrow> ('x ostate_scheme, int) kernel" where
  "sys_raw_write pbn src =
     (if pbn < 0 \<or> pbn \<ge> int FSSIZE then kret (- 1)
      else kbind (bget ROOTDEV (nat pbn)) (\<lambda>b.
           kthen (upd_data b (put_bytes 0 (fst src)))
             (if \<not> snd src then kthen (brelse b) (kret (- 1))
              else kthen (upd_buf b (\<lambda>x. x\<lparr>b_valid := True\<rparr>))
                  (kthen (disk_rw b True)
                  (kthen (brelse b)
                         (kret 0))))))"

end
