(* ===== verification/Shell.thy ===== *)
theory Shell
  imports Sysfile
begin

unbundle bit_operations_syntax

text \<open>
  The shell, \<^verbatim>\<open>user/sh.c\<close>: tokens, the recursive-descent parser, and the commands it executes. The line is a list
  of bytes without its terminating zero; pointers into the line are positions, and the byte at the end is zero.
  Commands keep the first position and the end of their words, as the code does, until \<^verbatim>\<open>nulterminate\<close> puts a
  zero at every end. Memory from \<^verbatim>\<open>malloc\<close> is not modelled: a command is a value.
\<close>

section \<open>Tokens\<close>

definition whitespace :: "byte list" where "whitespace = [32, 9, 13, 10, 11]"
definition symbols :: "byte list" where "symbols = [60, 124, 62, 38, 59, 40, 41]"

definition is_ws :: "byte \<Rightarrow> bool" where "is_ws c \<longleftrightarrow> c \<in> set whitespace"
definition is_word :: "byte \<Rightarrow> bool" where "is_word c \<longleftrightarrow> c \<notin> set whitespace \<and> c \<notin> set symbols"

text \<open>The byte at a position of the line \<open>t\<close>, and the loop \<^verbatim>\<open>while (s < es && P( *s)) s++\<close>.\<close>

definition char_at :: "byte list \<Rightarrow> nat \<Rightarrow> byte" where
  "char_at t p = (if p < length t then t ! p else 0)"

definition skip :: "(byte \<Rightarrow> bool) \<Rightarrow> byte list \<Rightarrow> nat \<Rightarrow> nat" where
  "skip P t p = p + length (takeWhile P (drop p t))"

text \<open>
  \<^verbatim>\<open>gettoken\<close> returns the kind of token, its first position and its end, and the position after the blanks that
  follow. The characters are \<^verbatim>\<open>|\<close> 124, \<^verbatim>\<open>(\<close> 40, \<^verbatim>\<open>)\<close> 41, \<^verbatim>\<open>;\<close> 59, \<^verbatim>\<open>&\<close> 38, \<^verbatim>\<open><\<close> 60, \<^verbatim>\<open>>\<close> 62, \<^verbatim>\<open>+\<close> 43 and \<^verbatim>\<open>a\<close> 97.
\<close>

definition gettoken :: "byte list \<Rightarrow> nat \<Rightarrow> byte \<times> nat \<times> nat \<times> nat" where
  "gettoken t p =
     (let q = skip is_ws t p; c = char_at t q;
          (ret, s) = (if c = 0 then (0, q)
                      else if c \<in> {124, 40, 41, 59, 38, 60} then (c, q + 1)
                      else if c = 62 then (if char_at t (q + 1) = 62 then (43, q + 2) else (62, q + 1))
                      else (97, skip is_word t q))
      in (ret, q, s, skip is_ws t s))"

definition peek :: "byte list \<Rightarrow> byte list \<Rightarrow> nat \<Rightarrow> bool \<times> nat" where
  "peek toks t p = (let s = skip is_ws t p in (char_at t s \<noteq> 0 \<and> char_at t s \<in> set toks, s))"

section \<open>Commands\<close>

definition MAXARGS :: nat where "MAXARGS = 10"

datatype cmd =
    EXEC "(nat \<times> nat) list"
  | REDIR cmd nat nat uint32 nat
  | PIPE cmd cmd
  | LIST cmd cmd
  | BACK cmd

text \<open>
  A parsing function gives its result and the new position, or ends the shell with a message. The functions recurse
  on fuel; \<open>PFuel\<close> stands for a run that has not ended.
\<close>

datatype 'a presult = POk 'a nat | PPanic string | PFuel

definition pbind :: "'a presult \<Rightarrow> ('a \<Rightarrow> nat \<Rightarrow> 'b presult) \<Rightarrow> 'b presult" where
  "pbind r f = (case r of POk a p \<Rightarrow> f a p | PPanic e \<Rightarrow> PPanic e | PFuel \<Rightarrow> PFuel)"

text \<open>
  \<^verbatim>\<open>parseredirs\<close> wraps \<^verbatim>\<open>redircmd\<close>s around a command. \<^verbatim>\<open>parseexec\<close> goes on to fill in the arguments of the command
  inside, so the model collects the redirections and wraps them at the end.
\<close>

type_synonym redir = "nat \<times> nat \<times> uint32 \<times> nat"

definition wrap :: "cmd \<Rightarrow> redir list \<Rightarrow> cmd" where
  "wrap c rs = foldl (\<lambda>c (q, eq, mode, fd). REDIR c q eq mode fd) c rs"

definition redir_of :: "byte \<Rightarrow> nat \<Rightarrow> nat \<Rightarrow> redir" where
  "redir_of tok q eq =
     (if tok = 60 then (q, eq, O_RDONLY, 0)
      else if tok = 62 then (q, eq, O_WRONLY OR O_CREATE OR O_TRUNC, 1)
      else (q, eq, O_WRONLY OR O_CREATE, 1))"

primrec parseredirs :: "nat \<Rightarrow> byte list \<Rightarrow> redir list \<Rightarrow> nat \<Rightarrow> redir list presult" where
  "parseredirs 0 t rs p = PFuel"
| "parseredirs (Suc k) t rs p =
     (case peek [60, 62] t p of
        (False, p) \<Rightarrow> POk rs p
      | (True, p) \<Rightarrow>
          (case gettoken t p of (tok, _, _, p) \<Rightarrow>
           case gettoken t p of (tok', q, eq, p) \<Rightarrow>
             if tok' \<noteq> 97 then PPanic ''missing file for redirection''
             else parseredirs k t (rs @ [redir_of tok q eq]) p))"

text \<open>The loop of \<^verbatim>\<open>parseexec\<close> over the arguments, and the loop of \<^verbatim>\<open>parseline\<close> over ampersands.\<close>

primrec parse_args :: "nat \<Rightarrow> byte list \<Rightarrow> (nat \<times> nat) list \<Rightarrow> redir list \<Rightarrow> nat \<Rightarrow> ((nat \<times> nat) list \<times> redir list) presult" where
  "parse_args 0 t args rs p = PFuel"
| "parse_args (Suc k) t args rs p =
     (case peek [124, 41, 38, 59] t p of
        (True, p) \<Rightarrow> POk (args, rs) p
      | (False, p) \<Rightarrow>
          (case gettoken t p of (tok, q, eq, p) \<Rightarrow>
             if tok = 0 then POk (args, rs) p
             else if tok \<noteq> 97 then PPanic ''syntax''
             else if length args + 1 \<ge> MAXARGS then PPanic ''too many args''
             else pbind (parseredirs k t rs p) (\<lambda>rs p. parse_args k t (args @ [(q, eq)]) rs p)))"

primrec parse_back :: "nat \<Rightarrow> byte list \<Rightarrow> cmd \<Rightarrow> nat \<Rightarrow> cmd presult" where
  "parse_back 0 t c p = PFuel"
| "parse_back (Suc k) t c p =
     (case peek [38] t p of
        (False, p) \<Rightarrow> POk c p
      | (True, p) \<Rightarrow> (case gettoken t p of (_, _, _, p) \<Rightarrow> parse_back k t (BACK c) p))"

fun parseline :: "nat \<Rightarrow> byte list \<Rightarrow> nat \<Rightarrow> cmd presult"
and parsepipe :: "nat \<Rightarrow> byte list \<Rightarrow> nat \<Rightarrow> cmd presult"
and parseexec :: "nat \<Rightarrow> byte list \<Rightarrow> nat \<Rightarrow> cmd presult"
and parseblock :: "nat \<Rightarrow> byte list \<Rightarrow> nat \<Rightarrow> cmd presult"
where
  "parseline 0 t p = PFuel"
| "parseline (Suc k) t p =
     pbind (parsepipe k t p) (\<lambda>c p.
     pbind (parse_back k t c p) (\<lambda>c p.
       case peek [59] t p of
         (False, p) \<Rightarrow> POk c p
       | (True, p) \<Rightarrow>
           (case gettoken t p of (_, _, _, p) \<Rightarrow> pbind (parseline k t p) (\<lambda>r p. POk (LIST c r) p))))"
| "parsepipe 0 t p = PFuel"
| "parsepipe (Suc k) t p =
     pbind (parseexec k t p) (\<lambda>c p.
       case peek [124] t p of
         (False, p) \<Rightarrow> POk c p
       | (True, p) \<Rightarrow>
           (case gettoken t p of (_, _, _, p) \<Rightarrow> pbind (parsepipe k t p) (\<lambda>r p. POk (PIPE c r) p)))"
| "parseexec 0 t p = PFuel"
| "parseexec (Suc k) t p =
     (case peek [40] t p of
        (True, p) \<Rightarrow> parseblock k t p
      | (False, p) \<Rightarrow>
          pbind (parseredirs k t [] p) (\<lambda>rs p.
          pbind (parse_args k t [] rs p) (\<lambda>(args, rs) p. POk (wrap (EXEC args) rs) p)))"
| "parseblock 0 t p = PFuel"
| "parseblock (Suc k) t p =
     (case peek [40] t p of
        (False, p) \<Rightarrow> PPanic ''parseblock''
      | (True, p) \<Rightarrow>
          (case gettoken t p of (_, _, _, p) \<Rightarrow>
           pbind (parseline k t p) (\<lambda>c p.
             case peek [41] t p of
               (False, p) \<Rightarrow> PPanic ''syntax - missing )''
             | (True, p) \<Rightarrow>
                 (case gettoken t p of (_, _, _, p) \<Rightarrow>
                  pbind (parseredirs k t [] p) (\<lambda>rs p. POk (wrap c rs) p)))))"

text \<open>\<^verbatim>\<open>nulterminate\<close> on the buffer that holds the line.\<close>

primrec nulterminate :: "cmd \<Rightarrow> (nat \<Rightarrow> byte) \<Rightarrow> nat \<Rightarrow> byte" where
  "nulterminate (EXEC args) buf = fold (\<lambda>(q, eq) b. b(eq := 0)) args buf"
| "nulterminate (REDIR c q eq mode fd) buf = (nulterminate c buf)(eq := 0)"
| "nulterminate (PIPE l r) buf = nulterminate r (nulterminate l buf)"
| "nulterminate (LIST l r) buf = nulterminate r (nulterminate l buf)"
| "nulterminate (BACK c) buf = nulterminate c buf"

text \<open>
  \<^verbatim>\<open>parsecmd\<close>: the command and the buffer, or the message of the panic; the line printed before it that shows the
  leftovers is not part of the model. No function calls another more than four times before a byte is consumed, so
  four units of fuel for each byte are enough.
\<close>

definition parse_fuel :: "byte list \<Rightarrow> nat" where
  "parse_fuel t = 4 * length t + 4"

definition parsecmd :: "byte list \<Rightarrow> (cmd \<times> (nat \<Rightarrow> byte)) presult" where
  "parsecmd t =
     pbind (parseline (parse_fuel t) t 0) (\<lambda>c p.
       case peek [] t p of (_, p) \<Rightarrow>
         if p \<noteq> length t then PPanic ''syntax''
         else POk (c, nulterminate c (char_at t)) p)"

section \<open>The parser ends\<close>

lemma skip_le: "p \<le> skip P t p" "p \<le> length t \<Longrightarrow> skip P t p \<le> length t"
  using length_takeWhile_le [of P "drop p t"] by (auto simp: skip_def)

lemma skip_stop: "skip P t p < length t \<Longrightarrow> \<not> P (t ! skip P t p)"
proof -
  assume "skip P t p < length t"
  then have "length (takeWhile P (drop p t)) < length (drop p t)" by (simp add: skip_def)
  from nth_length_takeWhile [OF this] show ?thesis using \<open>skip P t p < length t\<close> by (simp add: skip_def)
qed

lemma skip_step: "p < length t \<Longrightarrow> P (t ! p) \<Longrightarrow> p < skip P t p"
  by (simp add: skip_def Cons_nth_drop_Suc [symmetric])

lemma skip_in: "p \<le> i \<Longrightarrow> i < skip P t p \<Longrightarrow> i < length t \<and> P (t ! i)"
proof -
  assume i: "p \<le> i" "i < skip P t p"
  then have l: "i - p < length (takeWhile P (drop p t))" by (simp add: skip_def)
  then have "P (takeWhile P (drop p t) ! (i - p))" by (metis nth_mem set_takeWhileD)
  moreover have "i - p < length (drop p t)" using l length_takeWhile_le [of P "drop p t"] by linarith
  ultimately show ?thesis using i(1) l by (auto simp: takeWhile_nth)
qed

lemma peek_pos: "peek toks t p = (b, p') \<Longrightarrow> p \<le> length t \<Longrightarrow> p \<le> p' \<and> p' \<le> length t"
  using skip_le [of p] by (auto simp: peek_def Let_def)

lemma peek_char: "peek toks t p = (b, p') \<Longrightarrow> p' = skip is_ws t p \<and> (b \<longleftrightarrow> char_at t p' \<noteq> 0 \<and> char_at t p' \<in> set toks)"
  by (auto simp: peek_def Let_def)

lemma gettoken_pos:
  assumes "gettoken t p = (tok, q, eq, p')" and "p \<le> length t"
  shows "p \<le> q" "q \<le> eq" "eq \<le> p'" "p' \<le> length t" "tok \<noteq> 0 \<Longrightarrow> q < eq"
proof -
  let ?q = "skip is_ws t p"
  have q: "p \<le> ?q" "?q \<le> length t" using skip_le [of p] assms(2) by auto
  have w: "?q < skip is_word t ?q" if "char_at t ?q \<noteq> 0" "char_at t ?q \<notin> {124, 40, 41, 59, 38, 60}" "char_at t ?q \<noteq> 62"
  proof -
    have l: "?q < length t" "char_at t ?q = t ! ?q" using that(1) by (auto simp: char_at_def split: if_splits)
    then have "\<not> is_ws (t ! ?q)" using skip_stop by blast
    then have "is_word (t ! ?q)" using that l by (auto simp: is_word_def is_ws_def symbols_def)
    then show ?thesis by (rule skip_step [OF l(1)])
  qed
  have l1: "?q < length t" if "char_at t ?q \<noteq> 0" using that by (auto simp: char_at_def split: if_splits)
  have l2: "?q + 1 < length t" if "char_at t (?q + 1) = 62" using that by (auto simp: char_at_def split: if_splits)
  note sw = skip_le [where p = ?q and P = is_word and t = t] q(2)
  show "p \<le> q" "q \<le> eq" "eq \<le> p'" "tok \<noteq> 0 \<Longrightarrow> q < eq"
    using assms(1) q skip_le(1) [of eq is_ws t] w sw by (auto simp: gettoken_def Let_def split: if_splits prod.splits)
  have "eq \<le> length t"
    using assms(1) q sw l1 l2 by (auto simp: gettoken_def Let_def Suc_le_eq split: if_splits prod.splits)
  moreover have "p' = skip is_ws t eq" using assms(1) by (auto simp: gettoken_def Let_def split: if_splits prod.splits)
  ultimately show "p' \<le> length t" using skip_le(2) by blast
qed

lemma gettoken_zero: "gettoken t p = (tok, q, eq, p') \<Longrightarrow> tok = 0 \<longleftrightarrow> char_at t (skip is_ws t p) = 0"
  by (auto simp: gettoken_def Let_def split: if_splits prod.splits)

lemma skip_idem: "skip P t (skip P t p) = skip P t p"
proof (rule ccontr)
  assume "skip P t (skip P t p) \<noteq> skip P t p"
  then have "skip P t p < skip P t (skip P t p)" using skip_le(1) [of "skip P t p" P t] by linarith
  from skip_in [OF order_refl this] skip_stop [of P t p] show False by blast
qed

lemma peek_token:
  assumes "peek toks t p = (True, p1)" "gettoken t p1 = (tok, q, eq, p2)" "p \<le> length t"
  shows "p < p2 \<and> p2 \<le> length t"
proof -
  note c = peek_char [OF assms(1)]
  then have "tok \<noteq> 0" using gettoken_zero [OF assms(2)] skip_idem [of is_ws t p] by auto
  then show ?thesis using gettoken_pos [OF assms(2)] peek_pos [OF assms(1,3)] by auto
qed

text \<open>A parsing function ends, with a position from the old one on.\<close>

definition pgood :: "byte list \<Rightarrow> nat \<Rightarrow> 'a presult \<Rightarrow> bool" where
  "pgood t p r \<longleftrightarrow> r \<noteq> PFuel \<and> (\<forall>a p'. r = POk a p' \<longrightarrow> p \<le> p' \<and> p' \<le> length t)"

lemma pgood_simps [simp]: "pgood t p (POk a p') \<longleftrightarrow> p \<le> p' \<and> p' \<le> length t" "pgood t p (PPanic e)" "\<not> pgood t p PFuel"
  by (simp_all add: pgood_def)

lemma pgood_pbind: "pgood t p r \<Longrightarrow> (\<And>a p'. p \<le> p' \<Longrightarrow> p' \<le> length t \<Longrightarrow> r = POk a p' \<Longrightarrow> pgood t p (f a p')) \<Longrightarrow> pgood t p (pbind r f)"
  by (cases r) (auto simp: pbind_def pgood_def)

lemma pgood_mono: "pgood t p' r \<Longrightarrow> p \<le> p' \<Longrightarrow> pgood t p r"
  by (auto simp: pgood_def)

lemma pgood_peek:
  assumes "p \<le> length t" and "\<And>p'. p \<le> p' \<Longrightarrow> p' \<le> length t \<Longrightarrow> peek toks t p = (False, p') \<Longrightarrow> pgood t p (f p')"
    and "\<And>p' tok q eq p''. peek toks t p = (True, p') \<Longrightarrow> gettoken t p' = (tok, q, eq, p'') \<Longrightarrow> p < p'' \<Longrightarrow> p'' \<le> length t \<Longrightarrow> pgood t p (g tok q eq p'')"
  shows "pgood t p (case peek toks t p of (False, p) \<Rightarrow> f p | (True, p) \<Rightarrow> (case gettoken t p of (tok, q, eq, p) \<Rightarrow> g tok q eq p))"
proof (cases "peek toks t p")
  case (Pair b p')
  show ?thesis
  proof (cases b)
    case True
    obtain tok q eq p'' where g: "gettoken t p' = (tok, q, eq, p'')" by (metis prod_cases4)
    with True Pair assms(3) [OF _ g] peek_token [OF _ g assms(1)] show ?thesis by simp
  next
    case False
    with Pair assms(2) peek_pos [OF Pair assms(1)] show ?thesis by simp
  qed
qed

lemma parseredirs_good: "p \<le> length t \<Longrightarrow> length t - p < k \<Longrightarrow> pgood t p (parseredirs k t rs p)"
proof (induction k arbitrary: rs p)
  case (Suc k)
  show ?case
    unfolding parseredirs.simps
  proof (rule pgood_peek [OF Suc.prems(1)], simp)
    fix p' tok q eq p1 assume p1: "p < p1" "p1 \<le> length t"
    obtain tok' q' eq' p2 where g: "gettoken t p1 = (tok', q', eq', p2)" by (metis prod_cases4)
    note p2 = gettoken_pos [OF g p1(2)]
    have "length t - p2 < k" "p \<le> p2" using p1 p2 Suc.prems by linarith+
    then have "pgood t p (parseredirs k t rs' p2)" for rs' using pgood_mono [OF Suc.IH [OF p2(4)]] by blast
    then show "pgood t p (case gettoken t p1 of (tok', q, eq, p) \<Rightarrow> if tok' \<noteq> 97 then PPanic ''missing file for redirection''
        else parseredirs k t (rs @ [redir_of tok q eq]) p)" by (simp add: g)
  qed
qed simp

lemma parse_back_good: "p \<le> length t \<Longrightarrow> length t - p < k \<Longrightarrow> pgood t p (parse_back k t c p)"
proof (induction k arbitrary: c p)
  case (Suc k)
  show ?case
    unfolding parse_back.simps
  proof (rule pgood_peek [OF Suc.prems(1)], simp)
    fix p1 assume p1: "p < p1" "p1 \<le> length t"
    have "length t - p1 < k" "p \<le> p1" using p1 Suc.prems by linarith+
    then show "pgood t p (parse_back k t (BACK c) p1)" using pgood_mono [OF Suc.IH [OF p1(2)]] by blast
  qed
qed simp

lemma parse_args_good: "p \<le> length t \<Longrightarrow> length t - p < k \<Longrightarrow> pgood t p (parse_args k t args rs p)"
proof (induction k arbitrary: args rs p)
  case (Suc k)
  obtain b p1 where pk: "peek [124, 41, 38, 59] t p = (b, p1)" by (cases "peek [124, 41, 38, 59] t p")
  obtain tok q eq p2 where g: "gettoken t p1 = (tok, q, eq, p2)" by (metis prod_cases4)
  note p1 = peek_pos [OF pk Suc.prems(1)]
  note p2 = gettoken_pos [OF g conjunct2 [OF p1]]
  have rec: "pgood t p (pbind (parseredirs k t rs p2) (\<lambda>rs p. parse_args k t args' rs p))" if "tok \<noteq> 0" for args'
  proof -
    have l: "length t - p2 < k" "p \<le> p2" "p < p2" using p1 p2 that Suc.prems by linarith+
    have "pgood t p2 (pbind (parseredirs k t rs p2) (\<lambda>rs p. parse_args k t args' rs p))"
    proof (rule pgood_pbind [OF parseredirs_good [OF p2(4) l(1)]])
      fix rs' p3 assume "p2 \<le> p3" "p3 \<le> length t"
      then show "pgood t p2 (parse_args k t args' rs' p3)" using l(1) by (intro pgood_mono [OF Suc.IH]) linarith+
    qed
    then show ?thesis by (rule pgood_mono [OF _ l(2)])
  qed
  show ?case using p1 p2 rec by (cases b) (simp_all add: pk g)
qed simp

lemma parseline_good:
  assumes p: "p \<le> length t" and k: "length t - p < k" and pipe: "pgood t p (parsepipe k t p)"
    and line: "\<And>p'. p < p' \<Longrightarrow> p' \<le> length t \<Longrightarrow> pgood t p' (parseline k t p')"
  shows "pgood t p (parseline (Suc k) t p)"
  unfolding parseline.simps
proof (rule pgood_pbind [OF pipe])
  fix c p1 assume p1: "p \<le> p1" "p1 \<le> length t"
  have "pgood t p1 (pbind (parse_back k t c p1) (\<lambda>c p. case peek [59] t p of (False, p) \<Rightarrow> POk c p
          | (True, p) \<Rightarrow> (case gettoken t p of (_, _, _, p) \<Rightarrow> pbind (parseline k t p) (\<lambda>r p. POk (LIST c r) p))))"
  proof (rule pgood_pbind [OF parse_back_good [OF p1(2)]])
    show "length t - p1 < k" using p1 k by linarith
    fix c p2 assume p2: "p1 \<le> p2" "p2 \<le> length t"
    have "pgood t p2 (pbind (parseline k t p3) (\<lambda>r p. POk (LIST c r) p))" if "p2 < p3" "p3 \<le> length t" for p3
      using pgood_mono [OF pgood_pbind [OF line [of p3]], of "\<lambda>r p. POk (LIST c r) p" p2] that p1 p2 by simp
    then have "pgood t p2 (case peek [59] t p2 of (False, p) \<Rightarrow> POk c p
          | (True, p) \<Rightarrow> (case gettoken t p of (_, _, _, p) \<Rightarrow> pbind (parseline k t p) (\<lambda>r p. POk (LIST c r) p)))"
      by (intro pgood_peek [OF p2(2)]) simp_all
    then show "pgood t p1 (case peek [59] t p2 of (False, p) \<Rightarrow> POk c p
          | (True, p) \<Rightarrow> (case gettoken t p of (_, _, _, p) \<Rightarrow> pbind (parseline k t p) (\<lambda>r p. POk (LIST c r) p)))"
      by (rule pgood_mono [OF _ p2(1)])
  qed
  then show "pgood t p (pbind (parse_back k t c p1) (\<lambda>c p. case peek [59] t p of (False, p) \<Rightarrow> POk c p
          | (True, p) \<Rightarrow> (case gettoken t p of (_, _, _, p) \<Rightarrow> pbind (parseline k t p) (\<lambda>r p. POk (LIST c r) p))))"
    by (rule pgood_mono [OF _ p1(1)])
qed

lemma parsepipe_good:
  assumes p: "p \<le> length t" and exec: "pgood t p (parseexec k t p)"
    and pipe: "\<And>p'. p < p' \<Longrightarrow> p' \<le> length t \<Longrightarrow> pgood t p' (parsepipe k t p')"
  shows "pgood t p (parsepipe (Suc k) t p)"
  unfolding parsepipe.simps
proof (rule pgood_pbind [OF exec])
  fix c p1 assume p1: "p \<le> p1" "p1 \<le> length t"
  have "pgood t p1 (pbind (parsepipe k t p2) (\<lambda>r p. POk (PIPE c r) p))" if "p1 < p2" "p2 \<le> length t" for p2
    using pgood_mono [OF pgood_pbind [OF pipe [of p2]], of "\<lambda>r p. POk (PIPE c r) p" p1] that p1 by simp
  then have "pgood t p1 (case peek [124] t p1 of (False, p) \<Rightarrow> POk c p
       | (True, p) \<Rightarrow> (case gettoken t p of (_, _, _, p) \<Rightarrow> pbind (parsepipe k t p) (\<lambda>r p. POk (PIPE c r) p)))"
    by (intro pgood_peek [OF p1(2)]) simp_all
  then show "pgood t p (case peek [124] t p1 of (False, p) \<Rightarrow> POk c p
       | (True, p) \<Rightarrow> (case gettoken t p of (_, _, _, p) \<Rightarrow> pbind (parsepipe k t p) (\<lambda>r p. POk (PIPE c r) p)))"
    by (rule pgood_mono [OF _ p1(1)])
qed

lemma parseexec_good:
  assumes p: "p \<le> length t" and k: "length t - p < k" and block: "\<And>p'. p \<le> p' \<Longrightarrow> p' \<le> length t \<Longrightarrow> pgood t p' (parseblock k t p')"
  shows "pgood t p (parseexec (Suc k) t p)"
proof (cases "peek [40] t p")
  case (Pair b p1)
  note p1 = peek_pos [OF Pair p]
  have "pgood t p1 (pbind (parseredirs k t [] p1) (\<lambda>rs p. pbind (parse_args k t [] rs p) (\<lambda>(args, rs) p. POk (wrap (EXEC args) rs) p)))"
  proof (rule pgood_pbind [OF parseredirs_good])
    show "p1 \<le> length t" "length t - p1 < k" using p1 k by linarith+
    fix rs p2 assume p2: "p1 \<le> p2" "p2 \<le> length t"
    then have "length t - p2 < k" using p1 k by linarith
    from pgood_pbind [OF parse_args_good [OF p2(2) this, of "[]" rs], of "\<lambda>(args, rs) p. POk (wrap (EXEC args) rs) p"]
    show "pgood t p1 (pbind (parse_args k t [] rs p2) (\<lambda>(args, rs) p. POk (wrap (EXEC args) rs) p))"
      by (intro pgood_mono [OF _ p2(1)]) auto
  qed
  then have "pgood t p1 (parseexec (Suc k) t p)" using block [of p1] p1 by (cases b) (simp_all add: Pair)
  then show ?thesis using pgood_mono p1 by blast
qed

lemma parseblock_good:
  assumes p: "p \<le> length t" and k: "length t - p < Suc k" and line: "\<And>p'. p < p' \<Longrightarrow> p' \<le> length t \<Longrightarrow> pgood t p' (parseline k t p')"
  shows "pgood t p (parseblock (Suc k) t p)"
  unfolding parseblock.simps
proof (rule pgood_peek [OF p], simp)
  fix p1 assume p1: "p < p1" "p1 \<le> length t"
  have "pgood t p1 (pbind (parseline k t p1) (\<lambda>c p. case peek [41] t p of (False, p) \<Rightarrow> PPanic ''syntax - missing )''
         | (True, p) \<Rightarrow> (case gettoken t p of (_, _, _, p) \<Rightarrow> pbind (parseredirs k t [] p) (\<lambda>rs p. POk (wrap c rs) p))))"
  proof (rule pgood_pbind [OF line [OF p1]])
    fix c p2 assume p2: "p1 \<le> p2" "p2 \<le> length t"
    have "pgood t p2 (pbind (parseredirs k t [] p3) (\<lambda>rs p. POk (wrap c rs) p))" if "p2 < p3" "p3 \<le> length t" for p3
      using pgood_mono [OF pgood_pbind [OF parseredirs_good [of p3 t k "[]"]], of "\<lambda>rs p. POk (wrap c rs) p" p2] that p1 p2 k by simp
    then have "pgood t p2 (case peek [41] t p2 of (False, p) \<Rightarrow> PPanic ''syntax - missing )''
         | (True, p) \<Rightarrow> (case gettoken t p of (_, _, _, p) \<Rightarrow> pbind (parseredirs k t [] p) (\<lambda>rs p. POk (wrap c rs) p)))"
      by (intro pgood_peek [OF p2(2)]) simp_all
    then show "pgood t p1 (case peek [41] t p2 of (False, p) \<Rightarrow> PPanic ''syntax - missing )''
         | (True, p) \<Rightarrow> (case gettoken t p of (_, _, _, p) \<Rightarrow> pbind (parseredirs k t [] p) (\<lambda>rs p. POk (wrap c rs) p)))"
      by (rule pgood_mono [OF _ p2(1)])
  qed
  then show "pgood t p (pbind (parseline k t p1) (\<lambda>c p. case peek [41] t p of (False, p) \<Rightarrow> PPanic ''syntax - missing )''
         | (True, p) \<Rightarrow> (case gettoken t p of (_, _, _, p) \<Rightarrow> pbind (parseredirs k t [] p) (\<lambda>rs p. POk (wrap c rs) p))))"
    by (rule pgood_mono) (use p1 in simp)
qed

lemma parse_good:
  "p \<le> length t \<Longrightarrow>
   (4 * (length t - p) + 4 \<le> k \<longrightarrow> pgood t p (parseline k t p)) \<and> (4 * (length t - p) + 3 \<le> k \<longrightarrow> pgood t p (parsepipe k t p)) \<and>
   (4 * (length t - p) + 2 \<le> k \<longrightarrow> pgood t p (parseexec k t p)) \<and> (4 * (length t - p) + 1 \<le> k \<longrightarrow> pgood t p (parseblock k t p))"
proof (induction k arbitrary: p)
  case (Suc k)
  note p = Suc.prems
  have L: "p' \<le> length t \<Longrightarrow> 4 * (length t - p') + 4 \<le> k \<Longrightarrow> pgood t p' (parseline k t p')"
    and P: "p' \<le> length t \<Longrightarrow> 4 * (length t - p') + 3 \<le> k \<Longrightarrow> pgood t p' (parsepipe k t p')"
    and E: "p' \<le> length t \<Longrightarrow> 4 * (length t - p') + 2 \<le> k \<Longrightarrow> pgood t p' (parseexec k t p')"
    and B: "p' \<le> length t \<Longrightarrow> 4 * (length t - p') + 1 \<le> k \<Longrightarrow> pgood t p' (parseblock k t p')" for p'
    using Suc.IH [of p'] by blast+
  show ?case
  proof (intro conjI impI)
    assume "4 * (length t - p) + 4 \<le> Suc k"
    then show "pgood t p (parseline (Suc k) t p)" by (intro parseline_good p L P) linarith+
  next
    assume "4 * (length t - p) + 3 \<le> Suc k"
    then show "pgood t p (parsepipe (Suc k) t p)" by (intro parsepipe_good p P E) linarith+
  next
    assume "4 * (length t - p) + 2 \<le> Suc k"
    then show "pgood t p (parseexec (Suc k) t p)" by (intro parseexec_good p B) linarith+
  next
    assume "4 * (length t - p) + 1 \<le> Suc k"
    then show "pgood t p (parseblock (Suc k) t p)" by (intro parseblock_good p L) linarith+
  qed
qed simp

text \<open>
  C35. The parser always ends: on every line \<^verbatim>\<open>parsecmd\<close> either returns a command and stops at the end of the line, or
  ends the shell with a syntax message. Its mutually recursive functions consume at least one byte in every four
  calls.
\<close>

theorem parsecmd_ends: "(\<exists>c buf. parsecmd t = POk (c, buf) (length t)) \<or> (\<exists>e. parsecmd t = PPanic e)"
proof -
  have "pgood t 0 (parseline (parse_fuel t) t 0)" using parse_good [of 0 t "parse_fuel t"] by (simp add: parse_fuel_def)
  then show ?thesis by (cases "parseline (parse_fuel t) t 0") (auto simp: parsecmd_def pbind_def split: prod.split)
qed

section \<open>Commands and their text\<close>

text \<open>Command trees with their words, and a text for each of them, with every part in parentheses.\<close>

datatype rmode = RIn | ROut | RAppend

datatype acmd =
    AExec "byte list list"
  | ARedir acmd "byte list" rmode
  | APipe acmd acmd
  | AList acmd acmd
  | ABack acmd

primrec rtok :: "rmode \<Rightarrow> byte list" where
  "rtok RIn = [60]"
| "rtok ROut = [62]"
| "rtok RAppend = [62, 62]"

fun words :: "byte list list \<Rightarrow> byte list" where
  "words [] = []"
| "words [w] = w"
| "words (w # ws) = w @ 32 # words ws"

primrec render :: "acmd \<Rightarrow> byte list" where
  "render (AExec ws) = words ws"
| "render (ARedir a f m) = 40 # render a @ 41 # rtok m @ f"
| "render (APipe a b) = 40 # render a @ [41, 124, 40] @ render b @ [41]"
| "render (AList a b) = 40 # render a @ [41, 59, 40] @ render b @ [41]"
| "render (ABack a) = 40 # render a @ [41, 38]"

definition word_ok :: "byte list \<Rightarrow> bool" where
  "word_ok w \<longleftrightarrow> w \<noteq> [] \<and> (\<forall>c\<in>set w. is_word c \<and> c \<noteq> 0)"

primrec acmd_ok :: "acmd \<Rightarrow> bool" where
  "acmd_ok (AExec ws) \<longleftrightarrow> length ws < MAXARGS \<and> (\<forall>w\<in>set ws. word_ok w)"
| "acmd_ok (ARedir a f m) \<longleftrightarrow> acmd_ok a \<and> word_ok f"
| "acmd_ok (APipe a b) \<longleftrightarrow> acmd_ok a \<and> acmd_ok b"
| "acmd_ok (AList a b) \<longleftrightarrow> acmd_ok a \<and> acmd_ok b"
| "acmd_ok (ABack a) \<longleftrightarrow> acmd_ok a"

text \<open>The tree of a parsed command, with a function that gives the word at a pair of positions.\<close>

definition rmode_of :: "uint32 \<Rightarrow> nat \<Rightarrow> rmode" where
  "rmode_of mode fd = (if fd = 0 then RIn else if mode = O_WRONLY OR O_CREATE OR O_TRUNC then ROut else RAppend)"

primrec tree :: "(nat \<Rightarrow> nat \<Rightarrow> byte list) \<Rightarrow> cmd \<Rightarrow> acmd" where
  "tree rd (EXEC args) = AExec (map (\<lambda>(q, eq). rd q eq) args)"
| "tree rd (REDIR c q eq mode fd) = ARedir (tree rd c) (rd q eq) (rmode_of mode fd)"
| "tree rd (PIPE l r) = APipe (tree rd l) (tree rd r)"
| "tree rd (LIST l r) = AList (tree rd l) (tree rd r)"
| "tree rd (BACK c) = ABack (tree rd c)"

definition sub :: "byte list \<Rightarrow> nat \<Rightarrow> nat \<Rightarrow> byte list" where
  "sub t q eq = take (eq - q) (drop q t)"

text \<open>Tokens at a position whose rest of the line is known.\<close>

definition clean :: "byte list \<Rightarrow> bool" where
  "clean x \<longleftrightarrow> x = [] \<or> \<not> is_ws (hd x)"

lemma char_at_rest: "char_at t p = (case drop p t of [] \<Rightarrow> 0 | c # _ \<Rightarrow> c)"
  by (cases "p < length t") (simp_all add: char_at_def Cons_nth_drop_Suc [symmetric])

lemma skip_clean: "drop p t = x \<Longrightarrow> clean x \<Longrightarrow> skip is_ws t p = p"
  by (cases x) (auto simp: skip_def clean_def)

lemma drop_next: "drop p t = x @ y \<Longrightarrow> drop (p + length x) t = y"
  by (metis append_eq_conv_conj drop_drop add.commute)

lemma peek_rest: "drop p t = x \<Longrightarrow> clean x \<Longrightarrow> peek toks t p = (x \<noteq> [] \<and> hd x \<noteq> 0 \<and> hd x \<in> set toks, p)"
  by (cases x) (simp_all add: peek_def skip_clean char_at_rest)

lemma token_symbol:
  assumes "drop p t = c # x" "c \<in> {124, 40, 41, 59, 38, 60}" "clean x"
  shows "gettoken t p = (c, p, p + 1, p + 1)"
proof -
  have "clean (c # x)" "c \<noteq> 0" using assms(2) by (auto simp: clean_def is_ws_def whitespace_def)
  moreover have "skip is_ws t (p + 1) = p + 1" using skip_clean [OF _ assms(3)] drop_next [of p t "[c]" x] assms(1) by simp
  ultimately show ?thesis using assms(1,2) skip_clean [OF assms(1)] by (simp add: gettoken_def char_at_rest)
qed

lemma token_gt:
  assumes "drop p t = 62 # x" "clean x"
  shows "x \<noteq> [] \<Longrightarrow> hd x \<noteq> 62 \<Longrightarrow> gettoken t p = (62, p, p + 1, p + 1)"
    and "x = 62 # y \<Longrightarrow> clean y \<Longrightarrow> gettoken t p = (43, p, p + 2, p + 2)"
proof -
  have c: "clean (62 # x)" by (simp add: clean_def is_ws_def whitespace_def)
  have d: "drop (p + 1) t = x" using drop_next [of p t "[62]" x] assms(1) by simp
  show "gettoken t p = (62, p, p + 1, p + 1)" if "x \<noteq> []" "hd x \<noteq> 62"
    using that skip_clean [OF assms(1) c] skip_clean [OF d assms(2)] d assms(1) by (cases x) (simp_all add: gettoken_def char_at_rest)
  show "gettoken t p = (43, p, p + 2, p + 2)" if "x = 62 # y" "clean y"
  proof -
    have "drop (p + 2) t = y" using drop_next [of p t "[62, 62]" y] assms(1) that(1) by simp
    then show ?thesis using that skip_clean [OF assms(1) c] skip_clean [of "p + 2" t y] d assms(1) by (simp add: gettoken_def char_at_rest)
  qed
qed

lemma token_word:
  assumes "drop p t = w @ x" "word_ok w" "x = [] \<or> \<not> is_word (hd x)"
  shows "gettoken t p = (97, p, p + length w, skip is_ws t (p + length w))"
proof -
  obtain c v where w: "w = c # v" using assms(2) by (cases w) (auto simp: word_ok_def)
  have c: "c \<noteq> 0" "is_word c" using assms(2) w by (auto simp: word_ok_def)
  then have n: "c \<notin> {124, 40, 41, 59, 38, 60}" "c \<noteq> 62" "\<not> is_ws c" by (auto simp: is_word_def is_ws_def symbols_def)
  have "skip is_ws t p = p" using skip_clean [OF assms(1)] n(3) by (simp add: w clean_def)
  moreover have "takeWhile is_word (w @ x) = w" using assms(2,3) by (cases x) (auto simp: word_ok_def)
  then have "skip is_word t p = p + length w" by (simp add: skip_def assms(1))
  ultimately show ?thesis using c n by (simp add: gettoken_def char_at_rest assms(1) w)
qed

lemma sub_word: "drop p t = w @ x \<Longrightarrow> sub t p (p + length w) = w"
  by (simp add: sub_def)

definition stops :: "byte list \<Rightarrow> bool" where
  "stops x \<longleftrightarrow> x = [] \<or> hd x = 41"

lemma stops_clean: "stops x \<Longrightarrow> clean x"
  by (auto simp: stops_def clean_def is_ws_def whitespace_def)

lemma word_hd: "word_ok w \<Longrightarrow> w \<noteq> [] \<and> is_word (hd w) \<and> hd w \<noteq> 0"
  by (cases w) (auto simp: word_ok_def)

lemma is_wordD: "is_word c \<Longrightarrow> \<not> is_ws c \<and> c \<notin> {124, 40, 41, 59, 38, 60, 62}"
  by (auto simp: is_word_def is_ws_def symbols_def)

lemma token_end: "drop p t = [] \<Longrightarrow> gettoken t p = (0, p, p, p)"
  by (simp add: gettoken_def skip_def char_at_rest)

lemma parseredirs_none: "drop p t = x \<Longrightarrow> clean x \<Longrightarrow> x = [] \<or> hd x \<notin> {60, 62} \<Longrightarrow> parseredirs (Suc k) t rs p = POk rs p"
  using peek_rest [of p t x "[60, 62]"] by auto

lemma words_hd: "\<forall>w\<in>set ws. word_ok w \<Longrightarrow> stops post \<Longrightarrow> words ws @ post = [] \<or> hd (words ws @ post) = 41 \<or> is_word (hd (words ws @ post)) \<and> hd (words ws @ post) \<noteq> 0"
  by (cases ws rule: words.cases) (auto simp: stops_def hd_append dest!: word_hd)

lemma words_clean: "\<forall>w\<in>set ws. word_ok w \<Longrightarrow> stops post \<Longrightarrow> clean (words ws @ post)"
  using words_hd [of ws post] is_wordD [of "hd (words ws @ post)"] by (auto simp: clean_def is_ws_def whitespace_def)

lemma parse_args_words:
  "\<forall>w\<in>set ws. word_ok w \<Longrightarrow> stops post \<Longrightarrow> drop p t = words ws @ post \<Longrightarrow> length args + length ws < MAXARGS \<Longrightarrow> p \<le> length t \<Longrightarrow> length t - p < k \<Longrightarrow>
   \<exists>args'. parse_args k t args [] p = POk (args @ args', []) (p + length (words ws)) \<and> map (\<lambda>(q, eq). sub t q eq) args' = ws"
proof (induction ws arbitrary: p k args)
  case Nil
  then obtain k' where k: "k = Suc k'" by (cases k) auto
  have d: "drop p t = post" using Nil by simp
  show ?case
  proof (cases "post = []")
    case True
    then show ?thesis using peek_rest [OF d stops_clean [OF Nil.prems(2)], of "[124, 41, 38, 59]"] token_end [of p t] d by (simp add: k)
  next
    case False
    then show ?thesis using peek_rest [OF d stops_clean [OF Nil.prems(2)], of "[124, 41, 38, 59]"] Nil.prems(2) by (simp add: k stops_def)
  qed
next
  case (Cons w ws)
  obtain k' where k: "k = Suc k'" using Cons.prems(6) by (cases k) auto
  let ?rest = "if ws = [] then post else 32 # words ws @ post"
  have w: "word_ok w" "\<forall>w\<in>set ws. word_ok w" using Cons.prems(1) by auto
  have d: "drop p t = w @ ?rest" using Cons.prems(3) by (cases ws) auto
  have nw: "?rest = [] \<or> \<not> is_word (hd ?rest)" using Cons.prems(2) by (auto simp: stops_def is_word_def whitespace_def symbols_def)
  note g = token_word [OF d w(1) nw]
  have cl: "clean (w @ ?rest)" using word_hd [OF w(1)] is_wordD by (auto simp: clean_def)
  have pk: "peek [124, 41, 38, 59] t p = (False, p)" using peek_rest [OF d cl] word_hd [OF w(1)] is_wordD [of "hd w"] by auto
  define p2 where "p2 = skip is_ws t (p + length w)"
  have d1: "drop (p + length w) t = ?rest" by (rule drop_next [OF d])
  have p2: "drop p2 t = words ws @ post" "p2 + length (words ws) = p + length (words (w # ws))"
  proof -
    have "p2 = p + length w \<and> ws = [] \<or> p2 = p + length w + 1 \<and> ws \<noteq> []"
    proof (cases "ws = []")
      case True
      then show ?thesis using skip_clean [OF d1] stops_clean [OF Cons.prems(2)] by (simp add: p2_def)
    next
      case False
      have "takeWhile is_ws (words ws @ post) = []" using words_clean [OF w(2) Cons.prems(2)] by (cases "words ws @ post") (auto simp: clean_def)
      then show ?thesis using False d1 by (simp add: p2_def skip_def is_ws_def whitespace_def)
    qed
    then show "drop p2 t = words ws @ post" "p2 + length (words ws) = p + length (words (w # ws))"
      using d1 drop_next [of "p + length w" t "[32]" "words ws @ post"] by (cases ws; auto)+
  qed
  have l: "p + length w \<le> length t" "0 < length w" using arg_cong [OF d, of length] Cons.prems(5) word_hd [OF w(1)] by (auto simp: le_diff_conv2)
  have "p2 \<le> length t" unfolding p2_def by (rule skip_le(2) [OF l(1)])
  moreover have "p + length w \<le> p2" unfolding p2_def by (rule skip_le(1))
  ultimately have p3: "p2 \<le> length t" "length t - p2 < k'" using Cons.prems(6) l k by linarith+
  then obtain k'' where k'': "k' = Suc k''" by (cases k') auto
  have rd: "parseredirs k' t [] p2 = POk [] p2"
    unfolding k'' using words_hd [OF w(2) Cons.prems(2)] is_wordD [of "hd (words ws @ post)"] by (intro parseredirs_none [OF p2(1) words_clean [OF w(2) Cons.prems(2)]]) auto
  have len: "length (args @ [(p, p + length w)]) + length ws < MAXARGS" using Cons.prems(4) by simp
  obtain args' where a: "parse_args k' t (args @ [(p, p + length w)]) [] p2 = POk ((args @ [(p, p + length w)]) @ args', []) (p2 + length (words ws))"
    "map (\<lambda>(q, eq). sub t q eq) args' = ws"
    using Cons.IH [OF w(2) Cons.prems(2) p2(1) len p3] by blast
  have "parse_args k t args [] p = POk (args @ (p, p + length w) # args', []) (p + length (words (w # ws)))"
    using a(1) rd Cons.prems(4) by (simp add: k pk g p2_def [symmetric] pbind_def p2(2))
  then show ?case using a(2) sub_word [OF d] by (intro exI [of _ "(p, p + length w) # args'"]) simp
qed

text \<open>What the parser makes of the text of a tree, and of the text in parentheses.\<close>

definition parses :: "byte list \<Rightarrow> acmd \<Rightarrow> bool" where
  "parses t a \<longleftrightarrow> (\<forall>p post k. drop p t = render a @ post \<and> p \<le> length t \<and> stops post \<and> 4 * (length t - p) + 4 \<le> k \<longrightarrow>
     (\<exists>c. parseline k t p = POk c (p + length (render a)) \<and> tree (sub t) c = a))"

lemma rest_length: "drop p t = x \<Longrightarrow> p \<le> length t \<Longrightarrow> length t = p + length x"
  by auto

lemma parsesD:
  assumes "parses t a" "drop p t = render a @ post" "p \<le> length t" "stops post" "4 * (length t - p) + 4 \<le> k"
  obtains c where "parseline k t p = POk c (p + length (render a))" "tree (sub t) c = a"
  using assms unfolding parses_def by blast

lemma hd_render: "acmd_ok a \<Longrightarrow> stops post \<Longrightarrow> render a @ post = [] \<or> hd (render a @ post) = 41 \<or> hd (render a @ post) = 40 \<or>
    is_word (hd (render a @ post)) \<and> hd (render a @ post) \<noteq> 0"
  using words_hd by (cases a) auto

lemma clean_render: "acmd_ok a \<Longrightarrow> stops post \<Longrightarrow> clean (render a @ post)"
  using hd_render [of a post] is_wordD [of "hd (render a @ post)"] by (auto simp: clean_def is_ws_def whitespace_def)

lemma clean_sym [simp]: "clean (41 # x)" "clean (40 # x)" "clean (124 # x)" "clean (59 # x)" "clean (38 # x)" "clean (60 # x)" "clean (62 # x)" "clean []"
  by (simp_all add: clean_def is_ws_def whitespace_def)

lemma block_parses:
  assumes a: "parses t a" "acmd_ok a" and d: "drop p t = 40 # render a @ 41 # post" and p: "p \<le> length t" and c: "clean post"
    and k: "4 * (length t - p) + 1 \<le> k"
  obtains c k' where "tree (sub t) c = a" "length t - p \<le> k'"
    "parseblock k t p = pbind (parseredirs k' t [] (p + length (render a) + 2)) (\<lambda>rs p. POk (wrap c rs) p)"
proof -
  obtain k' where k': "k = Suc k'" using k by (cases k) auto
  have len: "length t = p + length (render a) + length post + 2" using rest_length [OF d p] by simp
  have d1: "drop (p + 1) t = render a @ 41 # post" using drop_next [of p t "[40]"] d by simp
  have st: "stops (41 # post)" by (simp add: stops_def)
  have "p + 1 \<le> length t" "4 * (length t - (p + 1)) + 4 \<le> k'" using k k' len by linarith+
  then obtain c where c1: "parseline k' t (p + 1) = POk c (p + 1 + length (render a))" "tree (sub t) c = a"
    using parsesD [OF a(1) d1 _ st] by blast
  have d2: "drop (p + 1 + length (render a)) t = 41 # post" by (rule drop_next [OF d1])
  have g1: "gettoken t p = (40, p, p + 1, p + 1)" using clean_render [OF a(2) st] by (intro token_symbol [OF d]) simp_all
  have g2: "gettoken t (p + 1 + length (render a)) = (41, p + 1 + length (render a), p + 1 + length (render a) + 1, p + 1 + length (render a) + 1)"
    by (rule token_symbol [OF d2 _ c]) simp
  have pk: "peek [40] t p = (True, p)" "peek [41] t (p + 1 + length (render a)) = (True, p + 1 + length (render a))"
    using peek_rest [OF d] peek_rest [OF d2] by simp_all
  have "parseblock k t p = pbind (parseredirs k' t [] (p + length (render a) + 2)) (\<lambda>rs p. POk (wrap c rs) p)"
    using c1(1) by (simp add: k' pk(1) g1 pk(2) [simplified] g2 [simplified] pbind_def)
  moreover have "length t - p \<le> k'" using k k' len by linarith
  ultimately show thesis using that c1(2) by blast
qed

definition ends :: "byte list \<Rightarrow> bool" where
  "ends x \<longleftrightarrow> x = [] \<or> hd x \<in> {41, 59, 38, 124}"

lemma ends_clean: "ends x \<Longrightarrow> clean x"
  by (auto simp: ends_def clean_def is_ws_def whitespace_def)

lemma stops_ends: "stops x \<Longrightarrow> ends x"
  by (auto simp: stops_def ends_def)

lemma exec_block:
  assumes a: "parses t a" "acmd_ok a" and d: "drop p t = 40 # render a @ 41 # post" and p: "p \<le> length t" and c: "ends post"
    and k: "4 * (length t - p) + 2 \<le> k"
  obtains c where "parseexec k t p = POk c (p + length (render a) + 2)" "tree (sub t) c = a" "drop (p + length (render a) + 2) t = post"
proof -
  obtain k1 where k1: "k = Suc k1" "4 * (length t - p) + 1 \<le> k1" using k by (cases k) auto
  obtain c k2 where b: "tree (sub t) c = a" "length t - p \<le> k2"
    "parseblock k1 t p = pbind (parseredirs k2 t [] (p + length (render a) + 2)) (\<lambda>rs p. POk (wrap c rs) p)"
    by (rule block_parses [OF a d p ends_clean [OF c] k1(2)])
  have len: "length t = p + length (render a) + length post + 2" using rest_length [OF d p] by simp
  then obtain k3 where k3: "k2 = Suc k3" using b(2) by (cases k2) auto
  have d2: "drop (p + length (render a) + 2) t = post" using drop_next [of p t "40 # render a @ [41]" post] d by simp
  have "parseredirs k2 t [] (p + length (render a) + 2) = POk [] (p + length (render a) + 2)"
    unfolding k3 using c by (intro parseredirs_none [OF d2 ends_clean [OF c]]) (auto simp: ends_def)
  moreover have "peek [40] t p = (True, p)" using peek_rest [OF d] by simp
  ultimately have "parseexec k t p = POk c (p + length (render a) + 2)" using b(3) by (simp add: k1(1) pbind_def wrap_def)
  then show thesis using that b(1) d2 by blast
qed

lemma pipe_block:
  assumes a: "parses t a" "acmd_ok a" and d: "drop p t = 40 # render a @ 41 # post" and p: "p \<le> length t" and c: "ends post" "post = [] \<or> hd post \<noteq> 124"
    and k: "4 * (length t - p) + 3 \<le> k"
  obtains c where "parsepipe k t p = POk c (p + length (render a) + 2)" "tree (sub t) c = a" "drop (p + length (render a) + 2) t = post"
proof -
  obtain k1 where k1: "k = Suc k1" "4 * (length t - p) + 2 \<le> k1" using k by (cases k) auto
  obtain c where e: "parseexec k1 t p = POk c (p + length (render a) + 2)" "tree (sub t) c = a" "drop (p + length (render a) + 2) t = post"
    by (rule exec_block [OF a d p c(1) k1(2)])
  have "peek [124] t (p + length (render a) + 2) = (False, p + length (render a) + 2)"
    using peek_rest [OF e(3) ends_clean [OF c(1)], of "[124]"] c(2) by auto
  with e(1) have "parsepipe k t p = POk c (p + length (render a) + 2)" by (simp add: k1(1) pbind_def)
  then show thesis using that e(2,3) by blast
qed

text \<open>The end of a line.\<close>

lemma line_end:
  assumes "parsepipe k t p = POk c p1" "drop p1 t = post" "stops post" "0 < k"
  shows "parseline (Suc k) t p = POk c p1"
proof -
  obtain k1 where k1: "k = Suc k1" using assms(4) by (cases k) auto
  have pk: "peek [38] t p1 = (False, p1)" "peek [59] t p1 = (False, p1)"
    using peek_rest [OF assms(2) stops_clean [OF assms(3)]] assms(3) by (auto simp: stops_def)
  have "parse_back k t c p1 = POk c p1" by (simp add: k1 pk)
  then show ?thesis using assms(1) by (simp add: pk pbind_def)
qed

lemma parses_exec:
  assumes "acmd_ok (AExec ws)"
  shows "parses t (AExec ws)"
  unfolding parses_def
proof (intro allI impI, elim conjE)
  fix p post k assume d: "drop p t = render (AExec ws) @ post" and p: "p \<le> length t" and st: "stops post" and k: "4 * (length t - p) + 4 \<le> k"
  define k3 where "k3 = k - 3"
  have ks: "k = Suc (Suc (Suc k3))" "length t - p < k3" using k by (simp_all add: k3_def)
  then obtain k4 where k4: "k3 = Suc k4" by (cases k3) auto
  have ws: "\<forall>w\<in>set ws. word_ok w" "length ([] :: (nat \<times> nat) list) + length ws < MAXARGS" using assms by auto
  have d': "drop p t = words ws @ post" using d by simp
  note h = words_hd [OF ws(1) st] is_wordD [of "hd (words ws @ post)"]
  note cl = words_clean [OF ws(1) st]
  have pk: "peek [40] t p = (False, p)" using peek_rest [OF d' cl, of "[40]"] h by auto
  have rd: "parseredirs k3 t [] p = POk [] p" unfolding k4 using h by (intro parseredirs_none [OF d' cl]) auto
  obtain args where a: "parse_args k3 t [] [] p = POk (args, []) (p + length (words ws))" "map (\<lambda>(q, eq). sub t q eq) args = ws"
    using parse_args_words [OF ws(1) st d' ws(2) p ks(2)] by auto
  have e: "parseexec (Suc k3) t p = POk (EXEC args) (p + length (words ws))" by (simp add: pk rd a(1) pbind_def wrap_def)
  have d2: "drop (p + length (words ws)) t = post" by (rule drop_next [OF d'])
  have "peek [124] t (p + length (words ws)) = (False, p + length (words ws))"
    using peek_rest [OF d2 stops_clean [OF st], of "[124]"] st by (auto simp: stops_def)
  with e have "parsepipe (Suc (Suc k3)) t p = POk (EXEC args) (p + length (words ws))" by (simp add: pbind_def del: parseexec.simps)
  from line_end [OF this d2 st] have "parseline k t p = POk (EXEC args) (p + length (words ws))" by (simp only: ks(1))
  with a(2) show "\<exists>c. parseline k t p = POk c (p + length (render (AExec ws))) \<and> tree (sub t) c = AExec ws" by auto
qed

lemma parses_pipe:
  assumes a: "parses t a" "acmd_ok a" and b: "parses t b" "acmd_ok b"
  shows "parses t (APipe a b)"
  unfolding parses_def
proof (intro allI impI, elim conjE)
  fix p post k assume d0: "drop p t = render (APipe a b) @ post" and p: "p \<le> length t" and st: "stops post" and k: "4 * (length t - p) + 4 \<le> k"
  define k2 where "k2 = k - 2"
  have ks: "k = Suc (Suc k2)" "4 * (length t - p) + 2 \<le> k2" using k by (simp_all add: k2_def)
  have d: "drop p t = 40 # render a @ 41 # 124 # 40 # render b @ 41 # post" using d0 by simp
  have len: "length t = p + length (render a) + length (render b) + length post + 5" using rest_length [OF d p] by simp
  let ?p1 = "p + length (render a) + 2"
  obtain c where e: "parseexec k2 t p = POk c ?p1" "tree (sub t) c = a" "drop ?p1 t = 124 # 40 # render b @ 41 # post"
    by (rule exec_block [OF a d p _ ks(2)]) (simp_all add: ends_def)
  have pk: "peek [124] t ?p1 = (True, ?p1)" using peek_rest [OF e(3)] by simp
  have g: "gettoken t ?p1 = (124, ?p1, ?p1 + 1, ?p1 + 1)" by (rule token_symbol [OF e(3)]) simp_all
  have d2: "drop (?p1 + 1) t = 40 # render b @ 41 # post" using drop_next [of ?p1 t "[124]"] e(3) by simp
  have l: "?p1 + 1 \<le> length t" "4 * (length t - (?p1 + 1)) + 3 \<le> k2" using len ks(2) by linarith+
  have nb: "post = [] \<or> hd post \<noteq> 124" using st by (auto simp: stops_def)
  obtain c' where f: "parsepipe k2 t (?p1 + 1) = POk c' (?p1 + 1 + length (render b) + 2)" "tree (sub t) c' = b" "drop (?p1 + 1 + length (render b) + 2) t = post"
    by (rule pipe_block [OF b d2 l(1) stops_ends [OF st] nb l(2)])
  have "parsepipe (Suc k2) t p = POk (PIPE c c') (?p1 + 1 + length (render b) + 2)"
    by (simp only: parsepipe.simps e(1) pbind_def presult.case pk g f(1) prod.case bool.case)
  from line_end [OF this f(3) st] have "parseline k t p = POk (PIPE c c') (p + length (render (APipe a b)))" by (simp add: ks(1) del: parseline.simps)
  with e(2) f(2) show "\<exists>c. parseline k t p = POk c (p + length (render (APipe a b))) \<and> tree (sub t) c = APipe a b" by auto
qed

lemma parses_list:
  assumes a: "parses t a" "acmd_ok a" and b: "parses t b" "acmd_ok b"
  shows "parses t (AList a b)"
  unfolding parses_def
proof (intro allI impI, elim conjE)
  fix p post k assume d0: "drop p t = render (AList a b) @ post" and p: "p \<le> length t" and st: "stops post" and k: "4 * (length t - p) + 4 \<le> k"
  define k2 where "k2 = k - 2"
  have ks: "k = Suc (Suc k2)" "4 * (length t - p) + 3 \<le> Suc k2" using k by (simp_all add: k2_def)
  have d: "drop p t = 40 # render a @ 41 # 59 # 40 # render b @ 41 # post" using d0 by simp
  have len: "length t = p + length (render a) + length (render b) + length post + 5" using rest_length [OF d p] by simp
  let ?p1 = "p + length (render a) + 2"
  obtain c where e: "parsepipe (Suc k2) t p = POk c ?p1" "tree (sub t) c = a" "drop ?p1 t = 59 # 40 # render b @ 41 # post"
    by (rule pipe_block [OF a d p _ _ ks(2)]) (simp_all add: ends_def)
  have pk: "peek [38] t ?p1 = (False, ?p1)" "peek [59] t ?p1 = (True, ?p1)" using peek_rest [OF e(3)] by simp_all
  have g: "gettoken t ?p1 = (59, ?p1, ?p1 + 1, ?p1 + 1)" by (rule token_symbol [OF e(3)]) simp_all
  have d2: "drop (?p1 + 1) t = 40 # render b @ 41 # post" using drop_next [of ?p1 t "[59]"] e(3) by simp
  have l: "?p1 + 1 \<le> length t" "4 * (length t - (?p1 + 1)) + 3 \<le> k2" "0 < k2" using len ks(2) by linarith+
  have nb: "post = [] \<or> hd post \<noteq> 124" using st by (auto simp: stops_def)
  obtain c' where f: "parsepipe k2 t (?p1 + 1) = POk c' (?p1 + 1 + length (render b) + 2)" "tree (sub t) c' = b" "drop (?p1 + 1 + length (render b) + 2) t = post"
    by (rule pipe_block [OF b d2 l(1) stops_ends [OF st] nb l(2)])
  note line = line_end [OF f(1,3) st l(3)]
  have bk: "parse_back (Suc k2) t c ?p1 = POk c ?p1" by (simp only: parse_back.simps pk prod.case bool.case)
  have "parseline (Suc (Suc k2)) t p = POk (LIST c c') (?p1 + 1 + length (render b) + 2)"
    by (subst parseline.simps(2)) (simp only: e(1) bk pbind_def presult.case pk g line prod.case bool.case)
  then have "parseline k t p = POk (LIST c c') (p + length (render (AList a b)))" by (simp add: ks(1) del: parseline.simps)
  with e(2) f(2) show "\<exists>c. parseline k t p = POk c (p + length (render (AList a b))) \<and> tree (sub t) c = AList a b" by auto
qed

lemma parses_back:
  assumes a: "parses t a" "acmd_ok a"
  shows "parses t (ABack a)"
  unfolding parses_def
proof (intro allI impI, elim conjE)
  fix p post k assume d0: "drop p t = render (ABack a) @ post" and p: "p \<le> length t" and st: "stops post" and k: "4 * (length t - p) + 4 \<le> k"
  define k3 where "k3 = k - 3"
  have ks: "k = Suc (Suc (Suc k3))" "4 * (length t - p) + 3 \<le> Suc (Suc k3)" using k by (simp_all add: k3_def)
  have d: "drop p t = 40 # render a @ 41 # 38 # post" using d0 by simp
  let ?p1 = "p + length (render a) + 2"
  obtain c where e: "parsepipe (Suc (Suc k3)) t p = POk c ?p1" "tree (sub t) c = a" "drop ?p1 t = 38 # post"
    by (rule pipe_block [OF a d p _ _ ks(2)]) (simp_all add: ends_def)
  have d2: "drop (?p1 + 1) t = post" using drop_next [of ?p1 t "[38]"] e(3) by simp
  have pk: "peek [38] t ?p1 = (True, ?p1)" "peek [38] t (?p1 + 1) = (False, ?p1 + 1)" "peek [59] t (?p1 + 1) = (False, ?p1 + 1)"
    using peek_rest [OF e(3)] peek_rest [OF d2 stops_clean [OF st]] st by (auto simp: stops_def)
  have g: "gettoken t ?p1 = (38, ?p1, ?p1 + 1, ?p1 + 1)" by (rule token_symbol [OF e(3)]) (simp_all add: stops_clean [OF st])
  have bk: "parse_back (Suc (Suc k3)) t c ?p1 = POk (BACK c) (?p1 + 1)" by (simp only: parse_back.simps pk g prod.case bool.case)
  have "parseline (Suc (Suc (Suc k3))) t p = POk (BACK c) (?p1 + 1)"
    by (subst parseline.simps(2)) (simp only: e(1) bk pbind_def presult.case pk prod.case bool.case)
  then have "parseline k t p = POk (BACK c) (p + length (render (ABack a)))" by (simp add: ks(1) del: parseline.simps)
  with e(2) show "\<exists>c. parseline k t p = POk c (p + length (render (ABack a))) \<and> tree (sub t) c = ABack a" by auto
qed

lemma token_rtok:
  assumes "drop p t = rtok m @ f @ post" "word_ok f"
  obtains tok q eq where "gettoken t p = (tok, q, eq, p + length (rtok m))"
    "\<And>q eq. snd (snd (redir_of tok q eq)) = (if m = RIn then O_RDONLY else if m = ROut then O_WRONLY OR O_CREATE OR O_TRUNC else O_WRONLY OR O_CREATE, if m = RIn then 0 else 1)"
proof -
  have f: "clean (f @ post)" "f @ post \<noteq> []" "hd (f @ post) \<noteq> 62" using word_hd [OF assms(2)] is_wordD [of "hd f"] by (auto simp: clean_def)
  show thesis
  proof (cases m)
    case RIn
    then show thesis using that [of 60 p "p + 1"] token_symbol [of p t 60 "f @ post"] assms(1) f(1) by (simp add: redir_of_def)
  next
    case ROut
    then show thesis using that [of 62 p "p + 1"] token_gt(1) [of p t "f @ post"] assms(1) f by (simp add: redir_of_def)
  next
    case RAppend
    then show thesis using that [of 43 p "p + 2"] token_gt(2) [of p t "62 # f @ post" "f @ post"] assms(1) f by (simp add: redir_of_def)
  qed
qed

lemma parseredirs_one:
  assumes d: "drop p t = rtok m @ f @ post" and f: "word_ok f" and st: "stops post" and k: "1 < k"
  obtains mode fd where "parseredirs k t [] p = POk [(p + length (rtok m), p + length (rtok m) + length f, mode, fd)] (p + length (rtok m) + length f)"
    "rmode_of mode fd = m" "sub t (p + length (rtok m)) (p + length (rtok m) + length f) = f" "drop (p + length (rtok m) + length f) t = post"
proof -
  define k2 where "k2 = k - 2"
  have ks: "k = Suc (Suc k2)" using k by (simp add: k2_def)
  let ?p2 = "p + length (rtok m)" and ?p3 = "p + length (rtok m) + length f"
  obtain tok q eq where g: "gettoken t p = (tok, q, eq, ?p2)"
    "\<And>q eq. snd (snd (redir_of tok q eq)) = (if m = RIn then O_RDONLY else if m = ROut then O_WRONLY OR O_CREATE OR O_TRUNC else O_WRONLY OR O_CREATE, if m = RIn then 0 else 1)"
    by (rule token_rtok [OF d f]) (rule that; assumption)
  have pk: "peek [60, 62] t p = (True, p)" using peek_rest [OF d] by (cases m) simp_all
  have d2: "drop ?p2 t = f @ post" by (rule drop_next [OF d])
  have d3: "drop ?p3 t = post" by (rule drop_next [OF d2])
  have "post = [] \<or> \<not> is_word (hd post)" using st by (auto simp: stops_def is_word_def symbols_def)
  note g2 = token_word [OF d2 f this, unfolded skip_clean [OF d3 stops_clean [OF st]]]
  have rest: "parseredirs (Suc k2) t rs ?p3 = POk rs ?p3" for rs
    using st by (intro parseredirs_none [OF d3 stops_clean [OF st]]) (auto simp: stops_def)
  obtain mode fd where r: "redir_of tok ?p2 ?p3 = (?p2, ?p3, mode, fd)" "rmode_of mode fd = m"
    using g(2) [of ?p2 ?p3] by (cases m) (auto simp: redir_of_def rmode_of_def O_WRONLY_def O_CREATE_def O_TRUNC_def split: if_splits)
  have "parseredirs k t [] p = POk [(?p2, ?p3, mode, fd)] ?p3"
    unfolding ks by (subst parseredirs.simps(2)) (simp add: pk g(1) g2 r(1) rest del: parseredirs.simps)
  then show thesis using that r(2) sub_word [OF d2] d3 by blast
qed

lemma parses_redir:
  assumes a: "parses t a" "acmd_ok a" and f: "word_ok f"
  shows "parses t (ARedir a f m)"
  unfolding parses_def
proof (intro allI impI, elim conjE)
  fix p post k assume d0: "drop p t = render (ARedir a f m) @ post" and p: "p \<le> length t" and st: "stops post" and k: "4 * (length t - p) + 4 \<le> k"
  define k3 where "k3 = k - 3"
  have ks: "k = Suc (Suc (Suc k3))" "4 * (length t - p) + 1 \<le> k3" using k by (simp_all add: k3_def)
  have d: "drop p t = 40 # render a @ 41 # rtok m @ f @ post" using d0 by simp
  have cl: "clean (rtok m @ f @ post)" by (cases m) simp_all
  let ?p1 = "p + length (render a) + 2"
  obtain c k4 where b: "tree (sub t) c = a" "length t - p \<le> k4" "parseblock k3 t p = pbind (parseredirs k4 t [] ?p1) (\<lambda>rs p. POk (wrap c rs) p)"
    by (rule block_parses [OF a d p cl ks(2)])
  have d1: "drop ?p1 t = rtok m @ f @ post" using drop_next [of p t "40 # render a @ [41]"] d by simp
  have k4: "1 < k4" using b(2) rest_length [OF d p] by simp
  let ?p2 = "?p1 + length (rtok m)" and ?p3 = "?p1 + length (rtok m) + length f"
  obtain mode fd where r: "parseredirs k4 t [] ?p1 = POk [(?p2, ?p3, mode, fd)] ?p3" "rmode_of mode fd = m" "sub t ?p2 ?p3 = f" "drop ?p3 t = post"
    by (rule parseredirs_one [OF d1 f st k4])
  let ?c = "REDIR c ?p2 ?p3 mode fd"
  have "parseexec (Suc k3) t p = POk ?c ?p3" using peek_rest [OF d, of "[40]"] b(3) r(1) by (simp add: pbind_def wrap_def)
  moreover have "peek [124] t ?p3 = (False, ?p3)" using peek_rest [OF r(4) stops_clean [OF st], of "[124]"] st by (auto simp: stops_def)
  ultimately have "parsepipe (Suc (Suc k3)) t p = POk ?c ?p3" by (simp add: pbind_def del: parseexec.simps)
  from line_end [OF this r(4) st] have "parseline k t p = POk ?c (p + length (render (ARedir a f m)))" by (simp add: ks(1) del: parseline.simps)
  with b(1) r(2,3) show "\<exists>c. parseline k t p = POk c (p + length (render (ARedir a f m))) \<and> tree (sub t) c = ARedir a f m" by auto
qed

lemma parses_all: "acmd_ok a \<Longrightarrow> parses t a"
  by (induction a) (simp_all add: parses_exec parses_redir parses_pipe parses_list parses_back)

text \<open>The words of a parsed command, and that \<^verbatim>\<open>nulterminate\<close> makes strings of exactly these words.\<close>

primrec spans :: "cmd \<Rightarrow> (nat \<times> nat) list" where
  "spans (EXEC args) = args"
| "spans (REDIR c q eq mode fd) = spans c @ [(q, eq)]"
| "spans (PIPE l r) = spans l @ spans r"
| "spans (LIST l r) = spans l @ spans r"
| "spans (BACK c) = spans c"

definition word_span :: "byte list \<Rightarrow> nat \<times> nat \<Rightarrow> bool" where
  "word_span t x \<longleftrightarrow> (case x of (q, eq) \<Rightarrow> q \<le> eq \<and> eq \<le> length t \<and> (\<forall>i. q \<le> i \<and> i < eq \<longrightarrow> is_word (t ! i)) \<and> (eq < length t \<longrightarrow> \<not> is_word (t ! eq)))"

lemma gettoken_span:
  assumes "gettoken t p = (97, q, eq, p')" "p \<le> length t"
  shows "word_span t (q, eq)"
proof -
  have "eq = skip is_word t q" using assms(1) by (auto simp: gettoken_def Let_def split: if_splits prod.splits)
  moreover have "q \<le> length t" using gettoken_pos [OF assms] by linarith
  ultimately show ?thesis
    using skip_le [of q] skip_in [of q _ is_word t] skip_stop [of is_word t q] by (auto simp: word_span_def)
qed

definition spans_ok :: "byte list \<Rightarrow> (nat \<times> nat) list \<Rightarrow> bool" where
  "spans_ok t xs \<longleftrightarrow> (\<forall>x\<in>set xs. word_span t x)"

lemma spans_ok_append [simp]: "spans_ok t (xs @ ys) \<longleftrightarrow> spans_ok t xs \<and> spans_ok t ys" "spans_ok t []" "spans_ok t (x # xs) \<longleftrightarrow> word_span t x \<and> spans_ok t xs"
  by (auto simp: spans_ok_def)

text \<open>The flags and the descriptor of a redirection.\<close>

primrec mode_of :: "rmode \<Rightarrow> uint32" where
  "mode_of RIn = O_RDONLY"
| "mode_of ROut = O_WRONLY OR O_CREATE OR O_TRUNC"
| "mode_of RAppend = O_WRONLY OR O_CREATE"

primrec fd_of :: "rmode \<Rightarrow> nat" where
  "fd_of RIn = 0"
| "fd_of ROut = 1"
| "fd_of RAppend = 1"

definition redirs_ok :: "byte list \<Rightarrow> redir list \<Rightarrow> bool" where
  "redirs_ok t rs \<longleftrightarrow> (\<forall>(q, eq, mode, fd)\<in>set rs. word_span t (q, eq) \<and> (\<exists>m. mode = mode_of m \<and> fd = fd_of m))"

primrec cmd_ok :: "byte list \<Rightarrow> cmd \<Rightarrow> bool" where
  "cmd_ok t (EXEC args) \<longleftrightarrow> spans_ok t args"
| "cmd_ok t (REDIR c q eq mode fd) \<longleftrightarrow> cmd_ok t c \<and> word_span t (q, eq) \<and> (\<exists>m. mode = mode_of m \<and> fd = fd_of m)"
| "cmd_ok t (PIPE l r) \<longleftrightarrow> cmd_ok t l \<and> cmd_ok t r"
| "cmd_ok t (LIST l r) \<longleftrightarrow> cmd_ok t l \<and> cmd_ok t r"
| "cmd_ok t (BACK c) \<longleftrightarrow> cmd_ok t c"

lemma redir_of_mode: "\<exists>m. redir_of tok q eq = (q, eq, mode_of m, fd_of m)"
  using mode_of.simps fd_of.simps unfolding redir_of_def by metis

lemma redirs_ok_append [simp]: "redirs_ok t (rs @ [redir_of tok q eq]) \<longleftrightarrow> redirs_ok t rs \<and> word_span t (q, eq)" "redirs_ok t []"
  using redir_of_mode [of tok q eq] by (auto simp: redirs_ok_def)

lemma cmd_ok_wrap: "cmd_ok t (wrap c rs) \<longleftrightarrow> cmd_ok t c \<and> redirs_ok t rs"
  by (induction rs rule: rev_induct) (auto simp: wrap_def redirs_ok_def)

lemma cmd_ok_spans: "cmd_ok t c \<Longrightarrow> spans_ok t (spans c)"
  by (induction c) auto

lemma pbind_POk: "pbind r f = POk a p \<longleftrightarrow> (\<exists>b p'. r = POk b p' \<and> f b p' = POk a p)"
  by (cases r) (auto simp: pbind_def)

text \<open>\<open>peek\<close> and \<open>gettoken\<close> stay within the line.\<close>

lemma peek_token_le: "peek toks t p = (b, p1) \<Longrightarrow> gettoken t p1 = (tok, q, eq, p2) \<Longrightarrow> p \<le> length t \<Longrightarrow> p2 \<le> length t"
  using peek_pos gettoken_pos(4) by blast

lemma parseredirs_spans:
  "parseredirs k t rs p = POk rs' p' \<Longrightarrow> p \<le> length t \<Longrightarrow> redirs_ok t rs \<Longrightarrow> redirs_ok t rs' \<and> p' \<le> length t"
proof (induction k arbitrary: rs p)
  case (Suc k)
  obtain b p1 where pk: "peek [60, 62] t p = (b, p1)" by (cases "peek [60, 62] t p")
  obtain tok q eq p2 where g: "gettoken t p1 = (tok, q, eq, p2)" by (metis prod_cases4)
  obtain tok' q' eq' p3 where g': "gettoken t p2 = (tok', q', eq', p3)" by (metis prod_cases4)
  have p2: "p2 \<le> length t" by (rule peek_token_le [OF pk g Suc.prems(2)])
  show ?case
  proof (cases b)
    case True
    with Suc.prems(1) pk g g' have t97: "tok' = 97" and rec: "parseredirs k t (rs @ [redir_of tok q' eq']) p3 = POk rs' p'" by (auto split: if_splits)
    have "redirs_ok t (rs @ [redir_of tok q' eq'])" using gettoken_span [of t p2 q' eq' p3] g' t97 p2 Suc.prems(3) by simp
    with Suc.IH [OF rec gettoken_pos(4) [OF g' p2]] show ?thesis by blast
  next
    case False
    with Suc.prems pk peek_pos [OF pk] show ?thesis by auto
  qed
qed simp

lemma parse_back_spans:
  "parse_back k t c p = POk c' p' \<Longrightarrow> p \<le> length t \<Longrightarrow> cmd_ok t c \<Longrightarrow> cmd_ok t c' \<and> p' \<le> length t"
proof (induction k arbitrary: c p)
  case (Suc k)
  obtain b p1 where pk: "peek [38] t p = (b, p1)" by (cases "peek [38] t p")
  obtain tok q eq p2 where g: "gettoken t p1 = (tok, q, eq, p2)" by (metis prod_cases4)
  show ?case
  proof (cases b)
    case True
    with Suc.prems(1) pk g have rec: "parse_back k t (BACK c) p2 = POk c' p'" by simp
    show ?thesis by (rule Suc.IH [OF rec peek_token_le [OF pk g Suc.prems(2)]]) (simp add: Suc.prems(3))
  next
    case False
    with Suc.prems pk peek_pos [OF pk] show ?thesis by auto
  qed
qed simp

lemma parse_args_spans:
  "parse_args k t args rs p = POk (args', rs') p' \<Longrightarrow> p \<le> length t \<Longrightarrow> spans_ok t args \<Longrightarrow> redirs_ok t rs \<Longrightarrow>
   spans_ok t args' \<and> redirs_ok t rs' \<and> p' \<le> length t"
proof (induction k arbitrary: args rs p)
  case (Suc k)
  obtain b p1 where pk: "peek [124, 41, 38, 59] t p = (b, p1)" by (cases "peek [124, 41, 38, 59] t p")
  obtain tok q eq p2 where g: "gettoken t p1 = (tok, q, eq, p2)" by (metis prod_cases4)
  note p1 = peek_pos [OF pk Suc.prems(2)]
  note p2 = peek_token_le [OF pk g Suc.prems(2)]
  show ?case
  proof (cases "b \<or> tok = 0")
    case True
    with Suc.prems pk g p1 p2 show ?thesis by (cases b) auto
  next
    case False
    with Suc.prems(1) pk g obtain rs2 p3 where t97: "tok = 97" and r: "parseredirs k t rs p2 = POk rs2 p3"
      and rec: "parse_args k t (args @ [(q, eq)]) rs2 p3 = POk (args', rs') p'" by (auto simp: pbind_POk split: if_splits)
    note rs2 = parseredirs_spans [OF r p2 Suc.prems(4)]
    have "spans_ok t (args @ [(q, eq)])" using gettoken_span [of t p1 q eq p2] g t97 p1 Suc.prems(3) by simp
    with Suc.IH [OF rec] rs2 show ?thesis by blast
  qed
qed simp

lemma parse_spans:
  "(parseline k t p = POk c p' \<longrightarrow> p \<le> length t \<longrightarrow> cmd_ok t c \<and> p' \<le> length t) \<and>
   (parsepipe k t p = POk c p' \<longrightarrow> p \<le> length t \<longrightarrow> cmd_ok t c \<and> p' \<le> length t) \<and>
   (parseexec k t p = POk c p' \<longrightarrow> p \<le> length t \<longrightarrow> cmd_ok t c \<and> p' \<le> length t) \<and>
   (parseblock k t p = POk c p' \<longrightarrow> p \<le> length t \<longrightarrow> cmd_ok t c \<and> p' \<le> length t)"
proof (induction k arbitrary: p c p')
  case (Suc k)
  have L: "cmd_ok t c \<and> p' \<le> length t" if "parseline k t p = POk c p'" "p \<le> length t" for p c p' using Suc.IH that by blast
  have P: "cmd_ok t c \<and> p' \<le> length t" if "parsepipe k t p = POk c p'" "p \<le> length t" for p c p' using Suc.IH that by blast
  have E: "cmd_ok t c \<and> p' \<le> length t" if "parseexec k t p = POk c p'" "p \<le> length t" for p c p' using Suc.IH that by blast
  have B: "cmd_ok t c \<and> p' \<le> length t" if "parseblock k t p = POk c p'" "p \<le> length t" for p c p' using Suc.IH that by blast
  show ?case
  proof (intro conjI impI)
    assume "parseline (Suc k) t p = POk c p'" and p: "p \<le> length t"
    then obtain c1 p1 c2 p2 where 1: "parsepipe k t p = POk c1 p1" "parse_back k t c1 p1 = POk c2 p2"
      and r: "(case peek [59] t p2 of (False, p) \<Rightarrow> POk c2 p | (True, p) \<Rightarrow> (case gettoken t p of (_, _, _, p) \<Rightarrow> pbind (parseline k t p) (\<lambda>r p. POk (LIST c2 r) p))) = POk c p'"
      unfolding parseline.simps pbind_POk by blast
    obtain b p3 where pk: "peek [59] t p2 = (b, p3)" by (cases "peek [59] t p2")
    obtain tok q eq p4 where g: "gettoken t p3 = (tok, q, eq, p4)" by (metis prod_cases4)
    have 2: "cmd_ok t c2" "p2 \<le> length t" using parse_back_spans [OF 1(2)] P [OF 1(1) p] by auto
    show "cmd_ok t c" "p' \<le> length t"
      using r 2 L [OF _ peek_token_le [OF pk g 2(2)]] peek_pos [OF pk 2(2)] by (cases b; auto simp: pk g pbind_POk)+
  next
    assume "parsepipe (Suc k) t p = POk c p'" and p: "p \<le> length t"
    then obtain c1 p1 where 1: "parseexec k t p = POk c1 p1"
      and r: "(case peek [124] t p1 of (False, p) \<Rightarrow> POk c1 p | (True, p) \<Rightarrow> (case gettoken t p of (_, _, _, p) \<Rightarrow> pbind (parsepipe k t p) (\<lambda>r p. POk (PIPE c1 r) p))) = POk c p'"
      unfolding parsepipe.simps pbind_POk by blast
    obtain b p3 where pk: "peek [124] t p1 = (b, p3)" by (cases "peek [124] t p1")
    obtain tok q eq p4 where g: "gettoken t p3 = (tok, q, eq, p4)" by (metis prod_cases4)
    have 2: "cmd_ok t c1" "p1 \<le> length t" using E [OF 1 p] by auto
    show "cmd_ok t c" "p' \<le> length t"
      using r 2 P [OF _ peek_token_le [OF pk g 2(2)]] peek_pos [OF pk 2(2)] by (cases b; auto simp: pk g pbind_POk)+
  next
    assume h: "parseexec (Suc k) t p = POk c p'" and p: "p \<le> length t"
    obtain b p1 where pk: "peek [40] t p = (b, p1)" by (cases "peek [40] t p")
    note p1 = conjunct2 [OF peek_pos [OF pk p]]
    have "cmd_ok t c \<and> p' \<le> length t"
    proof (cases b)
      case True
      with h pk B [OF _ p1] show ?thesis by simp
    next
      case False
      with h pk obtain rs p2 args rs' where 1: "parseredirs k t [] p1 = POk rs p2" "parse_args k t [] rs p2 = POk (args, rs') p'" "c = wrap (EXEC args) rs'"
        by (auto simp: pbind_POk)
      have 2: "redirs_ok t rs" "p2 \<le> length t" using parseredirs_spans [OF 1(1) p1] by auto
      show ?thesis using parse_args_spans [OF 1(2) 2(2) _ 2(1)] by (simp add: 1(3) cmd_ok_wrap)
    qed
    then show "cmd_ok t c" "p' \<le> length t" by auto
  next
    assume h: "parseblock (Suc k) t p = POk c p'" and p: "p \<le> length t"
    obtain b p1 where pk: "peek [40] t p = (b, p1)" by (cases "peek [40] t p")
    obtain tok q eq p2 where g: "gettoken t p1 = (tok, q, eq, p2)" by (metis prod_cases4)
    have b: b using h by (cases b) (simp_all add: pk)
    then obtain c1 p3 where 1: "parseline k t p2 = POk c1 p3"
      and r: "(case peek [41] t p3 of (False, p) \<Rightarrow> PPanic ''syntax - missing )'' | (True, p) \<Rightarrow>
         (case gettoken t p of (_, _, _, p) \<Rightarrow> pbind (parseredirs k t [] p) (\<lambda>rs p. POk (wrap c1 rs) p))) = POk c p'"
      using h by (auto simp: pk g pbind_POk)
    note p2 = peek_token_le [OF pk g p]
    have 2: "cmd_ok t c1" "p3 \<le> length t" using L [OF 1 p2] by auto
    obtain b' p4 where pk': "peek [41] t p3 = (b', p4)" by (cases "peek [41] t p3")
    obtain tok' q' eq' p5 where g': "gettoken t p4 = (tok', q', eq', p5)" by (metis prod_cases4)
    have b' using r by (cases b') (simp_all add: pk')
    with r obtain rs where 3: "parseredirs k t [] p5 = POk rs p'" "c = wrap c1 rs" by (auto simp: pk' g' pbind_POk)
    show "cmd_ok t c" "p' \<le> length t" using parseredirs_spans [OF 3(1) peek_token_le [OF pk' g' 2(2)]] 2(1) by (auto simp: 3(2) cmd_ok_wrap)
  qed
qed simp

lemma nulterminate_at: "nulterminate c buf i = (if i \<in> snd ` set (spans c) then 0 else buf i)"
proof (induction c arbitrary: buf)
  case (EXEC args)
  show ?case by (induction args arbitrary: buf) (auto split: prod.splits)
qed auto

text \<open>The string at a position of a buffer: at most \<open>n\<close> bytes, up to a zero.\<close>

definition c_string :: "nat \<Rightarrow> (nat \<Rightarrow> byte) \<Rightarrow> nat \<Rightarrow> byte list" where
  "c_string n buf q = takeWhile (\<lambda>c. c \<noteq> 0) (map buf [q..<q + n])"

lemma c_string_word:
  assumes c: "spans_ok t (spans c)" and x: "(q, eq) \<in> set (spans c)" and t: "0 \<notin> set t"
  shows "c_string (length t + 1) (nulterminate c (char_at t)) q = sub t q eq"
proof -
  let ?b = "nulterminate c (char_at t)"
  have w: "q \<le> eq" "eq \<le> length t" "\<And>i. q \<le> i \<Longrightarrow> i < eq \<Longrightarrow> is_word (t ! i)" "eq < length t \<Longrightarrow> \<not> is_word (t ! eq)"
    using c x by (auto simp: spans_ok_def word_span_def)
  have in_word: "?b i = t ! i" if i: "q \<le> i" "i < eq" for i
  proof -
    have "i \<notin> snd ` set (spans c)"
    proof
      assume "i \<in> snd ` set (spans c)"
      then obtain q' where "(q', i) \<in> set (spans c)" by auto
      then have "i < length t \<longrightarrow> \<not> is_word (t ! i)" using c by (auto simp: spans_ok_def word_span_def)
      then show False using w(2,3) i by auto
    qed
    then show ?thesis using i w(2) by (simp add: nulterminate_at char_at_def)
  qed
  have "?b eq = 0" using x by (force simp: nulterminate_at)
  have "[q..<q + (length t + 1)] = [q..<eq] @ eq # [Suc eq..<q + (length t + 1)]"
    using w(1,2) upt_add_eq_append [of q eq "q + (length t + 1) - eq"] by (simp add: upt_conv_Cons)
  moreover have m: "map ?b [q..<eq] = sub t q eq"
    using w(1,2) in_word by (intro nth_equalityI) (auto simp: sub_def)
  moreover have "\<forall>y\<in>set (sub t q eq). y \<noteq> 0" using t by (auto simp: sub_def dest: in_set_takeD in_set_dropD)
  ultimately show ?thesis using \<open>?b eq = 0\<close> by (simp add: c_string_def takeWhile_append2)
qed

lemma tree_cong: "(\<And>q eq. (q, eq) \<in> set (spans c) \<Longrightarrow> f q eq = g q eq) \<Longrightarrow> tree f c = tree g c"
  by (induction c) auto

lemma words_nonzero: "\<forall>w\<in>set ws. word_ok w \<Longrightarrow> 0 \<notin> set (words ws)"
  by (induction ws rule: words.induct) (auto simp: word_ok_def)

lemma render_nonzero: "acmd_ok a \<Longrightarrow> 0 \<notin> set (render a)"
proof (induction a)
  case (ARedir a f m)
  then show ?case by (cases m) (auto simp: word_ok_def)
qed (auto simp: words_nonzero)

lemma parsecmd_tree:
  assumes a: "acmd_ok a"
  obtains c where "parsecmd (render a) = POk (c, nulterminate c (char_at (render a))) (length (render a))" "cmd_ok (render a) c"
    "tree (\<lambda>q eq. c_string (length (render a) + 1) (nulterminate c (char_at (render a))) q) c = a"
proof -
  let ?t = "render a"
  obtain c where c: "parseline (parse_fuel ?t) ?t 0 = POk c (0 + length ?t)" "tree (sub ?t) c = a"
    by (rule parsesD [OF parses_all [OF a], of 0 ?t "[]" "parse_fuel ?t"]) (simp_all add: stops_def parse_fuel_def)
  have "peek [] ?t (length ?t) = (False, length ?t)" by (simp add: peek_def skip_def)
  then have r: "parsecmd ?t = POk (c, nulterminate c (char_at ?t)) (length ?t)" using c(1) by (simp add: parsecmd_def pbind_def)
  have ok: "cmd_ok ?t c" using parse_spans [of "parse_fuel ?t" ?t 0 c "length ?t"] c(1) by simp
  have "tree (\<lambda>q eq. c_string (length ?t + 1) (nulterminate c (char_at ?t)) q) c = tree (sub ?t) c"
    by (intro tree_cong c_string_word render_nonzero [OF a] cmd_ok_spans [OF ok])
  then show ?thesis using that [OF r ok] c(2) by simp
qed

text \<open>
  C36. Parsing recovers every command. For every tree of programs with arguments, redirections, pipes, lists and
  background commands there is a line, its text in parentheses, on which \<^verbatim>\<open>parsecmd\<close> succeeds and gives that tree:
  the same structure and redirection modes, and, once \<^verbatim>\<open>nulterminate\<close> has put a zero at the end of every word,
  argument and file names that are exactly the words, none of them cut short by the zero of another.
\<close>

theorem parsecmd_render:
  assumes "acmd_ok a"
  shows "\<exists>c buf. parsecmd (render a) = POk (c, buf) (length (render a)) \<and>
     tree (\<lambda>q eq. c_string (length (render a) + 1) buf q) c = a"
  by (rule parsecmd_tree [OF assms]) blast

theorem parsecmd_render_witness:
  "\<exists>c buf. parsecmd (render (APipe (AExec [[108, 115]]) (ARedir (AExec [[119, 99], [45, 108]]) [111] RAppend))) = POk (c, buf) 17 \<and>
     tree (\<lambda>q eq. c_string (17 + 1) buf q) c = APipe (AExec [[108, 115]]) (ARedir (AExec [[119, 99], [45, 108]]) [111] RAppend)"
proof -
  let ?a = "APipe (AExec [[108, 115]]) (ARedir (AExec [[119, 99], [45, 108]]) [111] RAppend)"
  have "acmd_ok ?a" by (simp add: word_ok_def is_word_def whitespace_def symbols_def MAXARGS_def)
  moreover have "length (render ?a) = 17" by simp
  ultimately show ?thesis using parsecmd_render [of ?a] by (simp only:)
qed

section \<open>Running commands\<close>

text \<open>
  What a process of the shell does next, as a tree of the system calls it makes: each constructor is a call with its
  arguments, and its branches are what follows for each result. In \<open>SFork\<close> they are a failed fork, the child and the
  parent; \<open>SHalt\<close> is a loop that is still running when its bound is used up.
\<close>

datatype sysprog =
    SExit int
  | SExec "byte list list" sysprog
  | SClose nat sysprog
  | SOpen "byte list" uint32 "nat option \<Rightarrow> sysprog"
  | SPipe sysprog "nat \<Rightarrow> nat \<Rightarrow> sysprog"
  | SDup nat sysprog
  | SFork sysprog sysprog sysprog
  | SWait sysprog
  | SChdir "byte list" "bool \<Rightarrow> sysprog"
  | SPrint nat "byte list" sysprog
  | SHalt

definition ascii :: "string \<Rightarrow> byte list" where "ascii = map of_char"

definition sh_panic :: "string \<Rightarrow> sysprog" where
  "sh_panic s = SPrint 2 (ascii s @ [10]) (SExit 1)"

definition fork1 :: "sysprog \<Rightarrow> sysprog \<Rightarrow> sysprog" where
  "fork1 child parent = SFork (sh_panic ''fork'') child parent"

text \<open>\<^verbatim>\<open>runcmd\<close>, with a function that gives the string at a pointer into the line.\<close>

primrec runcmd :: "(nat \<Rightarrow> byte list) \<Rightarrow> cmd \<Rightarrow> sysprog" where
  "runcmd str (EXEC args) =
     (case args of
        [] \<Rightarrow> SExit 1
      | (q, _) # _ \<Rightarrow> SExec (map (\<lambda>(q, _). str q) args) (SPrint 2 (ascii ''exec '' @ str q @ ascii '' failed'' @ [10]) (SExit 0)))"
| "runcmd str (REDIR c q eq mode fd) =
     SClose fd (SOpen (str q) mode (\<lambda>r.
       case r of
         None \<Rightarrow> SPrint 2 (ascii ''open '' @ str q @ ascii '' failed'' @ [10]) (SExit 1)
       | Some _ \<Rightarrow> runcmd str c))"
| "runcmd str (LIST l r) = fork1 (runcmd str l) (SWait (runcmd str r))"
| "runcmd str (PIPE l r) =
     SPipe (sh_panic ''pipe'') (\<lambda>p0 p1.
       fork1 (SClose 1 (SDup p1 (SClose p0 (SClose p1 (runcmd str l)))))
      (fork1 (SClose 0 (SDup p0 (SClose p0 (SClose p1 (runcmd str r)))))
             (SClose p0 (SClose p1 (SWait (SWait (SExit 0)))))))"
| "runcmd str (BACK c) = fork1 (runcmd str c) (SExit 0)"

text \<open>
  \<^verbatim>\<open>main\<close>: the loop that opens the console until descriptor 3 comes back, bounded by the number of descriptors, and the
  loop over the lines that \<^verbatim>\<open>getcmd\<close> reads. A line is the string in the buffer after \<^verbatim>\<open>gets\<close>; an empty one, or no more
  lines, is the end of the input. A panic of the parser is one of the child.
\<close>

primrec open_console :: "nat \<Rightarrow> sysprog \<Rightarrow> sysprog" where
  "open_console 0 rest = SHalt"
| "open_console (Suc k) rest =
     SOpen (ascii ''console'') O_RDWR (\<lambda>r.
       case r of
         None \<Rightarrow> rest
       | Some fd \<Rightarrow> if fd \<ge> 3 then SClose fd rest else open_console k rest)"

definition run_line :: "byte list \<Rightarrow> sysprog" where
  "run_line t =
     (case parsecmd t of
        POk (c, buf) _ \<Rightarrow> runcmd (c_string (length t + 1) buf) c
      | PPanic e \<Rightarrow> sh_panic e
      | PFuel \<Rightarrow> SHalt)"

definition sh_prompt :: "sysprog \<Rightarrow> sysprog" where
  "sh_prompt rest = SPrint 2 (ascii ''$ '') rest"

primrec sh_loop :: "byte list list \<Rightarrow> sysprog" where
  "sh_loop [] = sh_prompt (SExit 0)"
| "sh_loop (t # ts) =
     sh_prompt
      (if t = [] then SExit 0
       else if take 3 t = ascii ''cd '' then
         (let dir = drop 3 (butlast t)
          in SChdir dir (\<lambda>ok. if ok then sh_loop ts else SPrint 2 (ascii ''cannot cd '' @ dir @ [10]) (sh_loop ts)))
       else fork1 (run_line t) (SWait (sh_loop ts)))"

definition sh_main :: "byte list list \<Rightarrow> sysprog" where
  "sh_main ts = open_console (NOFILE + 1) (sh_loop ts)"

text \<open>
  The calls on a table of descriptors. What a descriptor stands for is a device or file by name, or an end of the
  \<open>n\<close>-th pipe. Descriptors are given out by the kernel's own \<^verbatim>\<open>fdalloc\<close>. The environment says which names can be
  opened and executed; forks succeed. The result lists every program that is executed, with its arguments and
  descriptors.
\<close>

datatype desc = Opened "byte list" uint32 | ReadEnd nat | WriteEnd nat

type_synonym fdtab = "nat \<Rightarrow> desc option"

record shell_env =
  can_open :: "byte list \<Rightarrow> uint32 \<Rightarrow> bool"
  can_exec :: "byte list \<Rightarrow> bool"
  can_chdir :: "byte list \<Rightarrow> bool"

definition lowest :: "fdtab \<Rightarrow> nat option" where
  "lowest tab = fdalloc_scan (\<lambda>fd. map_option (\<lambda>_. 0) (tab fd)) 0 NOFILE"

type_synonym started = "(byte list list \<times> fdtab) list"

primrec runs :: "shell_env \<Rightarrow> sysprog \<Rightarrow> fdtab \<Rightarrow> nat \<Rightarrow> started \<times> nat" where
  "runs env (SExit x) tab n = ([], n)"
| "runs env (SExec args p) tab n = (if can_exec env (hd args) then ([(args, tab)], n) else runs env p tab n)"
| "runs env (SClose fd p) tab n = runs env p (tab(fd := None)) n"
| "runs env (SOpen f mode g) tab n =
     (if can_open env f mode then
        (case lowest tab of
           None \<Rightarrow> runs env (g None) tab n
         | Some fd \<Rightarrow> runs env (g (Some fd)) (tab(fd := Some (Opened f mode))) n)
      else runs env (g None) tab n)"
| "runs env (SPipe fail g) tab n =
     (case lowest tab of
        None \<Rightarrow> runs env fail tab n
      | Some a \<Rightarrow>
          (case lowest (tab(a := Some (ReadEnd n))) of
             None \<Rightarrow> runs env fail tab n
           | Some b \<Rightarrow> runs env (g a b) (tab(a := Some (ReadEnd n), b := Some (WriteEnd n))) (Suc n)))"
| "runs env (SDup fd p) tab n =
     (case tab fd of
        None \<Rightarrow> runs env p tab n
      | Some d \<Rightarrow>
          (case lowest tab of None \<Rightarrow> runs env p tab n | Some x \<Rightarrow> runs env p (tab(x := Some d)) n))"
| "runs env (SFork fail c p) tab n =
     (let (xs, n') = runs env c tab n; (ys, n'') = runs env p tab n' in (xs @ ys, n''))"
| "runs env (SWait p) tab n = runs env p tab n"
| "runs env (SChdir d g) tab n = runs env (g (can_chdir env d)) tab n"
| "runs env (SPrint fd x p) tab n = runs env p tab n"
| "runs env SHalt tab n = ([], n)"

text \<open>What a command tree should start: programs with standard input and output where the tree says.\<close>

primrec plan :: "shell_env \<Rightarrow> acmd \<Rightarrow> fdtab \<Rightarrow> nat \<Rightarrow> started \<times> nat" where
  "plan env (AExec ws) tab n = (if ws \<noteq> [] \<and> can_exec env (hd ws) then ([(ws, tab)], n) else ([], n))"
| "plan env (ARedir a f m) tab n =
     (if can_open env f (mode_of m) then plan env a (tab(fd_of m := Some (Opened f (mode_of m)))) n else ([], n))"
| "plan env (APipe a b) tab n =
     (let (xs, n') = plan env a (tab(1 := Some (WriteEnd n))) (Suc n);
          (ys, n'') = plan env b (tab(0 := Some (ReadEnd n))) n'
      in (xs @ ys, n''))"
| "plan env (AList a b) tab n =
     (let (xs, n') = plan env a tab n; (ys, n'') = plan env b tab n' in (xs @ ys, n''))"
| "plan env (ABack a) tab n = plan env a tab n"

text \<open>A table with standard input and output open and two descriptors free.\<close>

definition roomy :: "fdtab \<Rightarrow> bool" where
  "roomy tab \<longleftrightarrow> tab 0 \<noteq> None \<and> tab 1 \<noteq> None \<and> 2 \<le> card {fd. fd < NOFILE \<and> tab fd = None}"

lemma range_Suc: "fd \<le> i \<and> i < fd + Suc k \<longleftrightarrow> i = fd \<or> Suc fd \<le> i \<and> i < Suc fd + k" for i :: nat
  by auto

lemma scan_None: "fdalloc_scan fs fd k = None \<longleftrightarrow> (\<forall>i. fd \<le> i \<and> i < fd + k \<longrightarrow> fs i \<noteq> None)"
proof (induction k arbitrary: fd)
  case (Suc k)
  show ?case
  proof (cases "fs fd = None")
    case True
    then show ?thesis by (auto intro!: exI [of _ fd])
  next
    case False
    then have "(\<forall>i. fd \<le> i \<and> i < fd + Suc k \<longrightarrow> fs i \<noteq> None) \<longleftrightarrow> (\<forall>i. Suc fd \<le> i \<and> i < Suc fd + k \<longrightarrow> fs i \<noteq> None)"
      unfolding range_Suc by blast
    with False Suc.IH [of "Suc fd"] show ?thesis by (simp only: fdalloc_scan.simps if_False)
  qed
qed auto

lemma scan_Some: "fdalloc_scan fs fd k = Some x \<Longrightarrow> fs x = None \<and> fd \<le> x \<and> x < fd + k \<and> (\<forall>i. fd \<le> i \<and> i < x \<longrightarrow> fs i \<noteq> None)"
proof (induction k arbitrary: fd)
  case (Suc k)
  show ?case
  proof (cases "fs fd = None")
    case False
    with Suc.prems Suc.IH [of "Suc fd"] have *: "fs x = None \<and> Suc fd \<le> x \<and> x < Suc fd + k" "\<And>i. Suc fd \<le> i \<Longrightarrow> i < x \<Longrightarrow> fs i \<noteq> None" by simp_all
    have "fs i \<noteq> None" if "fd \<le> i" "i < x" for i using *(2) [of i] False that by (cases "i = fd") auto
    with *(1) show ?thesis by auto
  qed (use Suc.prems in auto)
qed simp

lemma lowest_is:
  assumes "tab x = None" "x < NOFILE" "\<And>i. i < x \<Longrightarrow> tab i \<noteq> None"
  shows "lowest tab = Some x"
proof -
  let ?f = "\<lambda>fd. map_option (\<lambda>_. 0 :: nat) (tab fd)"
  have "fdalloc_scan ?f 0 NOFILE \<noteq> None" using assms(1,2) by (auto simp: scan_None)
  then obtain y where y: "fdalloc_scan ?f 0 NOFILE = Some y" by blast
  note s = scan_Some [OF y]
  have "tab y = None" using s by simp
  moreover have "\<not> x < y" using s assms(1) by auto
  ultimately have "y = x" using assms(3) [of y] by (cases "y < x") auto
  with y show ?thesis by (simp add: lowest_def)
qed

lemma lowest_Some: "lowest tab = Some x \<Longrightarrow> tab x = None \<and> x < NOFILE"
  unfolding lowest_def using scan_Some [of "\<lambda>fd. map_option (\<lambda>_. 0) (tab fd)" 0 NOFILE x] by auto

lemma lowest_free: "{fd. fd < NOFILE \<and> tab fd = None} \<noteq> {} \<Longrightarrow> \<exists>x. lowest tab = Some x"
  unfolding lowest_def using scan_None [of "\<lambda>fd. map_option (\<lambda>_. 0) (tab fd)" 0 NOFILE] by auto

lemma roomy_upd:
  assumes "roomy tab" "fd < 2"
  shows "roomy (tab(fd := Some d))"
proof -
  have "tab fd \<noteq> None" using assms by (cases fd) (auto simp: roomy_def less_Suc_eq)
  then have "{i. i < NOFILE \<and> (tab(fd := Some d)) i = None} = {i. i < NOFILE \<and> tab i = None}" by auto
  then show ?thesis using assms(1) by (simp add: roomy_def)
qed

lemma lowest_closed:
  assumes "tab 0 \<noteq> None" "fd < 2"
  shows "lowest (tab(fd := None)) = Some fd"
proof (rule lowest_is)
  fix i assume "i < fd"
  with assms(2) have "i = 0" "fd = 1" by auto
  with assms(1) show "(tab(fd := None)) i \<noteq> None" by simp
qed (use assms(2) in \<open>simp_all add: NOFILE_def\<close>)

lemma roomy_pipe:
  assumes "roomy tab"
  obtains a b where "lowest tab = Some a" "lowest (tab(a := Some x)) = Some b" "1 < a" "1 < b" "a \<noteq> b" "tab a = None" "tab b = None"
proof -
  let ?F = "{fd. fd < NOFILE \<and> tab fd = None}"
  have F: "finite ?F" "2 \<le> card ?F" and open_std: "tab 0 \<noteq> None" "tab 1 \<noteq> None" using assms by (simp_all add: roomy_def)
  then have "card ?F \<noteq> 0" by linarith
  then have "?F \<noteq> {}" by (metis card.empty)
  then obtain a where a: "lowest tab = Some a" using lowest_free by blast
  have a': "tab a = None" "a \<in> ?F" using lowest_Some [OF a] by auto
  have "card (?F - {a}) \<noteq> 0" using F a'(2) by simp
  then have "?F - {a} \<noteq> {}" by (metis card.empty)
  moreover have "?F - {a} = {fd. fd < NOFILE \<and> (tab(a := Some x)) fd = None}" by auto
  ultimately obtain b where b: "lowest (tab(a := Some x)) = Some b" using lowest_free [of "tab(a := Some x)"] by auto
  have b': "b \<noteq> a" "tab b = None" using lowest_Some [OF b] by (auto split: if_splits)
  have "1 < y" if "tab y = None" for y using that open_std by (cases y rule: nat.exhaust; cases "y = 1") auto
  with a a' b b' that show ?thesis by metis
qed

lemma rmode_mode [simp]: "rmode_of (mode_of m) (fd_of m) = m"
  by (cases m) (simp_all add: rmode_of_def O_WRONLY_def O_CREATE_def O_TRUNC_def)

lemma fd_of_less [simp]: "fd_of m < 2"
  by (cases m) simp_all

lemma runs_piped:
  assumes "tab 0 \<noteq> None" "fd < 2" "1 < a" "1 < b" "a \<noteq> b" "tab a = None" "tab b = None" "end = a \<or> end = b"
    "T = tab(a := Some (ReadEnd n), b := Some (WriteEnd n))"
  shows "runs env (SClose fd (SDup end (SClose a (SClose b p)))) T m = runs env p (tab(fd := T end)) m"
proof -
  have l: "lowest (T(fd := None)) = Some fd" using lowest_closed [of T fd] assms by auto
  have "fd \<noteq> a" "fd \<noteq> b" using assms by auto
  with assms have e: "(T(fd := None)) end = T end" "T end \<noteq> None" by auto
  then obtain d where d: "T end = Some d" by auto
  have "((T(fd := None))(fd := Some d, a := None, b := None)) = tab(fd := Some d)" using assms \<open>fd \<noteq> a\<close> \<open>fd \<noteq> b\<close> by auto
  with l e d show ?thesis by simp
qed

lemma runs_runcmd:
  "cmd_ok t c \<Longrightarrow> roomy tab \<Longrightarrow> runs env (runcmd str c) tab n = plan env (tree (\<lambda>q eq. str q) c) tab n"
proof (induction c arbitrary: tab n)
  case (EXEC args)
  then show ?case by (cases args) auto
next
  case (REDIR c q eq mode fd)
  then obtain m where m: "mode = mode_of m" "fd = fd_of m" by auto
  have "lowest (tab(fd_of m := None)) = Some (fd_of m)" using REDIR.prems lowest_closed by (simp add: roomy_def)
  with REDIR m roomy_upd [of tab "fd_of m"] show ?case by simp
next
  case (PIPE l r)
  obtain a b where ab: "lowest tab = Some a" "lowest (tab(a := Some (ReadEnd n))) = Some b" "1 < a" "1 < b" "a \<noteq> b" "tab a = None" "tab b = None"
    using roomy_pipe [OF PIPE.prems(2)] by metis
  have t0: "tab 0 \<noteq> None" using PIPE.prems(2) by (simp add: roomy_def)
  let ?T = "tab(a := Some (ReadEnd n), b := Some (WriteEnd n))"
  have L: "runs env (SClose 1 (SDup b (SClose a (SClose b (runcmd str l))))) ?T m = plan env (tree (\<lambda>q eq. str q) l) (tab(1 := Some (WriteEnd n))) m" for m
    using runs_piped [OF t0 _ ab(3-7), of 1 b ?T n] PIPE.IH(1) PIPE.prems roomy_upd [of tab 1] by simp
  have R: "runs env (SClose 0 (SDup a (SClose a (SClose b (runcmd str r))))) ?T m = plan env (tree (\<lambda>q eq. str q) r) (tab(0 := Some (ReadEnd n))) m" for m
    using runs_piped [OF t0 _ ab(3-7), of 0 a ?T n] PIPE.IH(2) PIPE.prems roomy_upd [of tab 0] ab(5) by simp
  show ?case using ab(1,2) L R by (simp add: fork1_def split: prod.split del: One_nat_def)
next
  case (LIST l r)
  then show ?case by (simp add: fork1_def)
next
  case (BACK c)
  then show ?case by (simp add: fork1_def split: prod.split)
qed

lemma runs_line:
  assumes a: "acmd_ok a" and tab: "roomy tab"
  shows "runs env (run_line (render a)) tab n = plan env a tab n"
proof (rule parsecmd_tree [OF a])
  fix c assume p: "parsecmd (render a) = POk (c, nulterminate c (char_at (render a))) (length (render a))" and ok: "cmd_ok (render a) c"
    and tr: "tree (\<lambda>q eq. c_string (length (render a) + 1) (nulterminate c (char_at (render a))) q) c = a"
  show ?thesis unfolding run_line_def p presult.case prod.case runs_runcmd [OF ok tab] tr ..
qed

text \<open>The descriptors after \<^verbatim>\<open>main\<close> has opened the console for those of the first three that were closed.\<close>

definition std_open :: "fdtab \<Rightarrow> fdtab" where
  "std_open tab = (\<lambda>fd. if fd < 3 \<and> tab fd = None then Some (Opened (ascii ''console'') O_RDWR) else tab fd)"

lemma lowest_le:
  assumes "tab fd = None" "fd < NOFILE"
  shows "\<exists>y. lowest tab = Some y \<and> y \<le> fd"
proof -
  obtain y where y: "fdalloc_scan (\<lambda>fd. map_option (\<lambda>_. 0 :: nat) (tab fd)) 0 NOFILE = Some y"
    using assms lowest_free [of tab] by (auto simp: lowest_def)
  have "\<not> fd < y" using scan_Some [OF y] assms(1) by auto
  with y show ?thesis by (simp add: lowest_def)
qed

lemma runs_open_console:
  assumes "can_open env (ascii ''console'') O_RDWR" "card {fd. fd < 3 \<and> tab fd = None} < k"
  shows "runs env (open_console k rest) tab n = runs env rest (std_open tab) n"
  using assms(2)
proof (induction k arbitrary: tab)
  case (Suc k)
  have all_open: "std_open tab = tab" if "\<And>fd. fd < 3 \<Longrightarrow> tab fd \<noteq> None" using that by (auto simp: std_open_def)
  show ?case
  proof (cases "lowest tab")
    case None
    then have "tab fd \<noteq> None" if "fd < 3" for fd using lowest_le [of tab fd] that by (auto simp: NOFILE_def)
    with None all_open assms(1) show ?thesis by simp
  next
    case (Some x)
    note x = lowest_Some [OF Some]
    let ?t = "tab(x := Some (Opened (ascii ''console'') O_RDWR))"
    show ?thesis
    proof (cases "x < 3")
      case True
      have "{fd. fd < 3 \<and> ?t fd = None} \<subset> {fd. fd < 3 \<and> tab fd = None}" using True x by auto
      then have "card {fd. fd < 3 \<and> ?t fd = None} < card {fd. fd < 3 \<and> tab fd = None}" by (intro psubset_card_mono) auto
      with Suc.prems have "card {fd. fd < 3 \<and> ?t fd = None} < k" by linarith
      then have ih: "runs env (open_console k rest) ?t n = runs env rest (std_open ?t) n" by (rule Suc.IH)
      have "std_open ?t = std_open tab" using True x by (auto simp: std_open_def)
      with ih Some True assms(1) show ?thesis by simp
    next
      case False
      have "tab fd \<noteq> None" if "fd < 3" for fd
      proof
        assume "tab fd = None"
        then obtain y where "lowest tab = Some y" "y \<le> fd" using lowest_le [of tab fd] \<open>fd < 3\<close> by (auto simp: NOFILE_def)
        with Some False that show False by simp
      qed
      moreover have "?t(x := None) = tab" using x by auto
      ultimately show ?thesis using Some False assms(1) all_open by simp
    qed
  qed
qed simp

text \<open>The programs that a list of commands should start, one command after the other.\<close>

primrec plans :: "shell_env \<Rightarrow> acmd list \<Rightarrow> fdtab \<Rightarrow> nat \<Rightarrow> started \<times> nat" where
  "plans env [] tab n = ([], n)"
| "plans env (a # as) tab n = (let (xs, n') = plan env a tab n; (ys, n'') = plans env as tab n' in (xs @ ys, n''))"

definition typed :: "acmd \<Rightarrow> bool" where
  "typed a \<longleftrightarrow> acmd_ok a \<and> render a \<noteq> [] \<and> take 3 (render a) \<noteq> ascii ''cd ''"

lemma runs_loop: "roomy tab \<Longrightarrow> \<forall>a\<in>set as. typed a \<Longrightarrow> runs env (sh_loop (map render as)) tab n = plans env as tab n"
  by (induction as arbitrary: n) (simp_all add: sh_prompt_def typed_def fork1_def runs_line)


definition sample_env :: shell_env where
  "sample_env = \<lparr>can_open = \<lambda>f mode. True, can_exec = \<lambda>f. True, can_chdir = \<lambda>d. True\<rparr>"

definition sample_line :: acmd where
  "sample_line = APipe (AExec [[108, 115]]) (AExec [[119, 99]])"


end
