(* ===== verification/Virtio.thy ===== *)
theory Virtio
  imports Bcache
begin

unbundle bit_operations_syntax

text \<open>
  The virtio disk driver, \<^verbatim>\<open>kernel/virtio_disk.c\<close>: descriptors, the two rings it shares with the device, requests and
  completion interrupts. The device itself is not part of the sources; it is a relation on the shared state, and the
  theorems assume of it what the virtio specification says of a block device.
\<close>

section \<open>Shared memory and bookkeeping\<close>

definition NUM :: nat where "NUM = 8"
definition VRING_DESC_F_NEXT :: "16 word" where "VRING_DESC_F_NEXT = 1"
definition VRING_DESC_F_WRITE :: "16 word" where "VRING_DESC_F_WRITE = 2"
definition VIRTIO_BLK_T_IN :: uint32 where "VIRTIO_BLK_T_IN = 0"
definition VIRTIO_BLK_T_OUT :: uint32 where "VIRTIO_BLK_T_OUT = 1"

text \<open>
  What a descriptor points to: the request header on the stack of the caller, which nobody changes before the call
  returns and which is therefore given by its contents (type and sector), the data of a buffer, or the status byte of
  \<^verbatim>\<open>info[i]\<close>.
\<close>

datatype vaddr = ANull | AHdr uint32 uint64 | AData nat | AStatus nat

record vdesc =
  vd_addr :: vaddr
  vd_len :: nat
  vd_flags :: "16 word"
  vd_next :: nat

text \<open>
  The driver's \<^verbatim>\<open>struct disk\<close> with the descriptor table and the rings in its pages, the fields \<^verbatim>\<open>disk\<close> and \<^verbatim>\<open>data\<close> of the
  buffers, and on the side of the device how far it has read the available ring, the chains it is working on and
  the sectors of the disk. The 16-bit ring indices are written with their wrap-around.
\<close>

record vdisk =
  desc :: "nat \<Rightarrow> vdesc"
  avail_idx :: nat
  avail_ring :: "nat \<Rightarrow> nat"
  used_id :: nat
  used_elems :: "nat \<Rightarrow> nat"
  desc_free :: "nat \<Rightarrow> bool"
  used_idx :: nat
  info_b :: "nat \<Rightarrow> nat option"
  info_status :: "nat \<Rightarrow> byte"
  buf_disk :: "nat \<Rightarrow> bool"
  buf_data :: "nat \<Rightarrow> block"
  dev_seen :: nat
  dev_owned :: "nat list"
  sectors :: "nat \<Rightarrow> nat \<Rightarrow> byte"

definition upd_desc :: "nat \<Rightarrow> (vdesc \<Rightarrow> vdesc) \<Rightarrow> vdisk \<Rightarrow> vdisk" where
  "upd_desc i f d = d\<lparr>desc := (desc d)(i := f (desc d i))\<rparr>"

section \<open>Initialisation\<close>

text \<open>
  \<^verbatim>\<open>virtio_disk_init\<close>: the answers of the device's registers are an argument, and the result is the list of registers
  written, in order. The registers have their offsets of \<^verbatim>\<open>kernel/virtio.h\<close>; \<open>pages\<close> is the address of \<^verbatim>\<open>disk.pages\<close>.
\<close>

definition no_features :: "uint64 \<Rightarrow> uint64" where
  "no_features f =
     f AND NOT (push_bit 5 1) AND NOT (push_bit 7 1) AND NOT (push_bit 11 1) AND NOT (push_bit 12 1)
       AND NOT (push_bit 27 1) AND NOT (push_bit 29 1) AND NOT (push_bit 28 1)"

definition virtio_disk_init :: "(nat \<Rightarrow> uint32) \<Rightarrow> uint64 \<Rightarrow> (vdisk, (nat \<times> uint32) list) kernel" where
  "virtio_disk_init reg pages d =
     (if reg 0x000 \<noteq> 0x74726976 \<or> reg 0x004 \<noteq> 1 \<or> reg 0x008 \<noteq> 2 \<or> reg 0x00c \<noteq> 0x554d4551
      then Panic ''could not find virtio disk''
      else if reg 0x034 = 0 then Panic ''virtio disk has no queue 0''
      else if reg 0x034 < of_nat NUM then Panic ''virtio disk max queue too short''
      else Ret [(0x070, 1), (0x070, 1 OR 2), (0x020, ucast (no_features (ucast (reg 0x010)))),
                (0x070, 1 OR 2 OR 8), (0x070, 1 OR 2 OR 8 OR 4), (0x028, 4096), (0x030, 0),
                (0x038, of_nat NUM), (0x040, ucast (drop_bit 12 pages))]
             (d\<lparr>desc := \<lambda>i. \<lparr>vd_addr = ANull, vd_len = 0, vd_flags = 0, vd_next = 0\<rparr>, avail_idx := 0, avail_ring := \<lambda>i. 0,
                used_id := 0, used_elems := \<lambda>i. 0, desc_free := \<lambda>i. if i < NUM then True else desc_free d i\<rparr>))"

section \<open>Descriptors\<close>

primrec alloc_scan :: "(nat \<Rightarrow> bool) \<Rightarrow> nat \<Rightarrow> nat \<Rightarrow> nat option" where
  "alloc_scan fr i 0 = None"
| "alloc_scan fr i (Suc k) = (if fr i then Some i else alloc_scan fr (Suc i) k)"

definition alloc_desc :: "(vdisk, nat option) kernel" where
  "alloc_desc d =
     (case alloc_scan (desc_free d) 0 NUM of
        Some i \<Rightarrow> Ret (Some i) (d\<lparr>desc_free := (desc_free d)(i := False)\<rparr>)
      | None \<Rightarrow> Ret None d)"

definition free_desc :: "nat \<Rightarrow> (vdisk, unit) kernel" where
  "free_desc i d =
     (if i \<ge> NUM then Panic ''virtio_disk_intr 1''
      else if desc_free d i then Panic ''virtio_disk_intr 2''
      else Ret () ((upd_desc i (\<lambda>x. x\<lparr>vd_addr := ANull\<rparr>) d)\<lparr>desc_free := (desc_free d)(i := True)\<rparr>))"

primrec free_chain :: "nat \<Rightarrow> nat \<Rightarrow> (vdisk, unit) kernel" where
  "free_chain 0 i = (\<lambda>d. Loop)"
| "free_chain (Suc k) i =
     kthen (free_desc i)
       (\<lambda>d. if vd_flags (desc d i) AND VRING_DESC_F_NEXT \<noteq> 0 then free_chain k (vd_next (desc d i)) d else Ret () d)"

definition alloc3_desc :: "(vdisk, (nat \<times> nat \<times> nat) option) kernel" where
  "alloc3_desc =
     kbind alloc_desc (\<lambda>r0.
       case r0 of
         None \<Rightarrow> kret None
       | Some i0 \<Rightarrow>
           kbind alloc_desc (\<lambda>r1.
             case r1 of
               None \<Rightarrow> kthen (free_desc i0) (kret None)
             | Some i1 \<Rightarrow>
                 kbind alloc_desc (\<lambda>r2.
                   case r2 of
                     None \<Rightarrow> kthen (free_desc i0) (kthen (free_desc i1) (kret None))
                   | Some i2 \<Rightarrow> kret (Some (i0, i1, i2)))))"

section \<open>Requests\<close>

text \<open>The block number times the sectors of a block is computed with 32 bits.\<close>

definition sector_of :: "uint32 \<Rightarrow> uint64" where
  "sector_of blockno = ucast (blockno * of_nat (BSIZE div 512))"

definition format_desc :: "nat \<Rightarrow> uint64 \<Rightarrow> bool \<Rightarrow> nat \<times> nat \<times> nat \<Rightarrow> vdisk \<Rightarrow> vdisk" where
  "format_desc b sector write idx d =
     (case idx of (i0, i1, i2) \<Rightarrow>
      let d = upd_desc i0 (\<lambda>x. \<lparr>vd_addr = AHdr (if write then VIRTIO_BLK_T_OUT else VIRTIO_BLK_T_IN) sector,
                vd_len = 16, vd_flags = VRING_DESC_F_NEXT, vd_next = i1\<rparr>) d;
          d = upd_desc i1 (\<lambda>x. \<lparr>vd_addr = AData b, vd_len = BSIZE,
                vd_flags = (if write then 0 else VRING_DESC_F_WRITE) OR VRING_DESC_F_NEXT, vd_next = i2\<rparr>) d;
          d = d\<lparr>info_status := (info_status d)(i0 := 0)\<rparr>;
          d = upd_desc i2 (\<lambda>x. \<lparr>vd_addr = AStatus i0, vd_len = 1, vd_flags = VRING_DESC_F_WRITE, vd_next = 0\<rparr>) d
      in d\<lparr>buf_disk := (buf_disk d)(b := True), info_b := (info_b d)(i0 := Some b)\<rparr>)"

definition publish :: "nat \<Rightarrow> vdisk \<Rightarrow> vdisk" where
  "publish i0 d = d\<lparr>avail_ring := (avail_ring d)(avail_idx d mod NUM := i0), avail_idx := (avail_idx d + 1) mod 65536\<rparr>"

text \<open>
  \<^verbatim>\<open>virtio_disk_rw\<close> up to the notification of the device, and from there on. The caller sleeps in the first part while there
  are no three free descriptors, and in the second while the request is not complete.
\<close>

definition rw_begin :: "nat \<Rightarrow> uint32 \<Rightarrow> bool \<Rightarrow> (vdisk, nat \<times> nat \<times> nat) kernel" where
  "rw_begin b blockno write =
     kbind alloc3_desc (\<lambda>r.
       case r of
         None \<Rightarrow> (\<lambda>d. Sleep ''disk.free'')
       | Some idx \<Rightarrow>
           kthen (kmod (format_desc b (sector_of blockno) write idx))
          (kthen (kmod (publish (fst idx)))
                 (kret idx)))"

definition rw_end :: "nat \<Rightarrow> nat \<times> nat \<times> nat \<Rightarrow> (vdisk, unit) kernel" where
  "rw_end b idx d =
     (if buf_disk d b then Sleep ''buf''
      else free_chain NUM (fst idx) (d\<lparr>info_b := (info_b d)(fst idx := None)\<rparr>))"

definition virtio_disk_rw :: "nat \<Rightarrow> uint32 \<Rightarrow> bool \<Rightarrow> (vdisk, unit) kernel" where
  "virtio_disk_rw b blockno write = kbind (rw_begin b blockno write) (\<lambda>idx. rw_end b idx)"

text \<open>
  One round of the loop of \<^verbatim>\<open>virtio_disk_intr\<close>, and the loop. A null \<^verbatim>\<open>info[id].b\<close> is a fault in the kernel.
\<close>

definition intr_one :: "(vdisk, bool) kernel" where
  "intr_one d =
     (if used_idx d mod NUM = used_id d mod NUM then Ret False d
      else let id = used_elems d (used_idx d) in
        if info_status d id \<noteq> 0 then Panic ''virtio_disk_intr status''
        else case info_b d id of
               None \<Rightarrow> Panic ''kerneltrap''
             | Some b \<Rightarrow> Ret True (d\<lparr>buf_disk := (buf_disk d)(b := False), used_idx := (used_idx d + 1) mod NUM\<rparr>))"

primrec intr_loop :: "nat \<Rightarrow> (vdisk, unit) kernel" where
  "intr_loop 0 = (\<lambda>d. Loop)"
| "intr_loop (Suc k) = kbind intr_one (\<lambda>more. if more then intr_loop k else kret ())"

definition virtio_disk_intr :: "(vdisk, unit) kernel" where
  "virtio_disk_intr = intr_loop NUM"

section \<open>The device\<close>

text \<open>
  What the specification allows a device to do: to read the next entry of the available ring, or to serve a chain it has
  read. A well-formed chain is a header, a data part the device may write exactly when the disk is read, and a status
  byte; serving it transfers the data, stores status 0 and adds the chain to the used ring. About malformed chains
  nothing is said.
\<close>

definition fetch :: "vdisk \<Rightarrow> vdisk" where
  "fetch d = d\<lparr>dev_owned := dev_owned d @ [avail_ring d (dev_seen d mod NUM)], dev_seen := (dev_seen d + 1) mod 65536\<rparr>"

definition to_disk :: "nat \<Rightarrow> block \<Rightarrow> (nat \<Rightarrow> nat \<Rightarrow> byte) \<Rightarrow> nat \<Rightarrow> nat \<Rightarrow> byte" where
  "to_disk sec x m = (\<lambda>s i. if sec \<le> s \<and> s < sec + BSIZE div 512 \<and> i < 512 then x ((s - sec) * 512 + i) else m s i)"

definition from_disk :: "nat \<Rightarrow> (nat \<Rightarrow> nat \<Rightarrow> byte) \<Rightarrow> block \<Rightarrow> block" where
  "from_disk sec m x = (\<lambda>i. if i < BSIZE then m (sec + i div 512) (i mod 512) else x i)"

definition transfer :: "nat \<Rightarrow> uint64 \<Rightarrow> bool \<Rightarrow> vdisk \<Rightarrow> vdisk" where
  "transfer b sector write d =
     (if write then d\<lparr>sectors := to_disk (unat sector) (buf_data d b) (sectors d)\<rparr>
      else d\<lparr>buf_data := (buf_data d)(b := from_disk (unat sector) (sectors d) (buf_data d b))\<rparr>)"

definition serve :: "nat \<Rightarrow> vdisk \<Rightarrow> vdisk option" where
  "serve h d =
     (let x0 = desc d h; x1 = desc d (vd_next x0); x2 = desc d (vd_next x1) in
      case (vd_addr x0, vd_addr x1, vd_addr x2) of
        (AHdr ty sector, AData b, AStatus k) \<Rightarrow>
          if vd_len x0 = 16 \<and> vd_flags x0 = VRING_DESC_F_NEXT \<and>
             vd_len x1 = BSIZE \<and> ty \<in> {VIRTIO_BLK_T_IN, VIRTIO_BLK_T_OUT} \<and>
             vd_flags x1 = (if ty = VIRTIO_BLK_T_IN then VRING_DESC_F_WRITE else 0) OR VRING_DESC_F_NEXT \<and>
             vd_len x2 = 1 \<and> vd_flags x2 = VRING_DESC_F_WRITE
          then Some ((transfer b sector (ty = VIRTIO_BLK_T_OUT) d)
                 \<lparr>info_status := (info_status d)(k := 0),
                  used_elems := (used_elems d)(used_id d mod NUM := h), used_id := (used_id d + 1) mod 65536,
                  dev_owned := remove1 h (dev_owned d)\<rparr>)
          else None
      | _ \<Rightarrow> None)"

definition device_ok :: "(vdisk \<Rightarrow> vdisk \<Rightarrow> bool) \<Rightarrow> bool" where
  "device_ok dev \<longleftrightarrow> (\<forall>d d'. dev d d' \<longrightarrow>
     dev_seen d \<noteq> avail_idx d \<and> d' = fetch d \<or>
     (\<exists>h\<in>set (dev_owned d). serve h d = None \<or> serve h d = Some d'))"

section \<open>Requests in flight\<close>

text \<open>
  A request: the buffer, the block number, the direction and the three descriptors in the local variable \<^verbatim>\<open>idx\<close>. The
  steps are those of the processes, of the interrupt handler and of the device, in any order. A buffer has one
  request at a time: its caller holds the buffer's lock.
\<close>

type_synonym request = "nat \<times> uint64 \<times> bool \<times> nat \<times> nat \<times> nat"

definition req_buf :: "request \<Rightarrow> nat" where "req_buf r = fst r"
definition req_idx :: "request \<Rightarrow> nat \<times> nat \<times> nat" where "req_idx r = snd (snd (snd r))"

inductive vstep :: "(vdisk \<Rightarrow> vdisk \<Rightarrow> bool) \<Rightarrow> vdisk \<times> request list \<Rightarrow> vdisk \<times> request list \<Rightarrow> bool"
  for dev where
  vtry: "alloc3_desc d = Ret None d' \<Longrightarrow> vstep dev (d, rs) (d', rs)"
| vbegin: "b \<notin> req_buf ` set rs \<Longrightarrow> rw_begin b blockno w d = Ret idx d' \<Longrightarrow>
     vstep dev (d, rs) (d', (b, sector_of blockno, w, idx) # rs)"
| vend: "rw_end (req_buf r) (req_idx r) d = Ret () d' \<Longrightarrow> vstep dev (d, xs @ r # ys) (d', xs @ ys)"
| vintr: "intr_one d = Ret go d' \<Longrightarrow> vstep dev (d, rs) (d', rs)"
| vdev: "dev d d' \<Longrightarrow> vstep dev (d, rs) (d', rs)"

definition vinit :: "vdisk \<Rightarrow> bool" where
  "vinit d \<longleftrightarrow> (\<forall>i<NUM. desc_free d i) \<and> avail_idx d = 0 \<and> used_id d = 0 \<and> used_idx d = 0 \<and> dev_seen d = 0 \<and> dev_owned d = []"

section \<open>Rings\<close>

definition since :: "nat \<Rightarrow> nat \<Rightarrow> nat \<Rightarrow> nat" where
  "since m a b = (a + m - b) mod m"

lemma since_cases: "a < m \<Longrightarrow> b < m \<Longrightarrow> since m a b = (if b \<le> a then a - b else a + m - b)"
  by (simp add: since_def mod_if)

lemma since_Suc: "a < m \<Longrightarrow> b < m \<Longrightarrow> since m a b + 1 < m \<Longrightarrow> since m ((a + 1) mod m) b = since m a b + 1"
  by (cases "a + 1 = m") (auto simp: since_cases split: if_splits)

lemma since_adv: "a < m \<Longrightarrow> b < m \<Longrightarrow> a \<noteq> b \<Longrightarrow> Suc (since m a ((b + 1) mod m)) = since m a b"
  by (cases "b + 1 = m") (auto simp: since_cases split: if_splits)

lemma since_0: "a < m \<Longrightarrow> b < m \<Longrightarrow> since m a b = 0 \<longleftrightarrow> a = b"
  by (auto simp: since_cases)

definition ring :: "(nat \<Rightarrow> nat) \<Rightarrow> nat \<Rightarrow> nat \<Rightarrow> nat list" where
  "ring f start n = map (\<lambda>k. f ((start + k) mod NUM)) [0..<n]"

lemma ring_length [simp]: "length (ring f start n) = n"
  by (simp add: ring_def)

lemma ring_0 [simp]: "ring f start 0 = []"
  by (simp add: ring_def)

lemma ring_mod: "NUM dvd m \<Longrightarrow> ring f (start mod m) n = ring f start n"
proof -
  assume "NUM dvd m"
  then have "(start mod m + k) mod NUM = (start + k) mod NUM" for k by (metis mod_add_left_eq mod_mod_cancel)
  then show ?thesis by (simp add: ring_def)
qed

lemma ring_pop: "ring f start (Suc n) = f (start mod NUM) # ring f (start + 1) n"
  by (simp add: ring_def upt_conv_Cons map_Suc_upt [symmetric] del: upt_Suc)

lemma ring_push:
  assumes "n < NUM"
  shows "ring (f((start + n) mod NUM := x)) start (Suc n) = ring f start n @ [x]"
proof -
  have "(start + k) mod NUM \<noteq> (start + n) mod NUM" if "k < n" for k
  proof
    assume e: "(start + k) mod NUM = (start + n) mod NUM"
    have "NUM dvd (start + n) - (start + k)" using mod_eq_dvd_iff_nat [of "start + k" "start + n" NUM] e that by simp
    with that assms show False by (auto dest: dvd_imp_le)
  qed
  then show ?thesis by (simp add: ring_def)
qed

section \<open>Allocation of descriptors\<close>

lemma alloc_scan_Some: "alloc_scan fr i k = Some j \<Longrightarrow> fr j \<and> i \<le> j \<and> j < i + k"
  by (induction k arbitrary: i) (auto split: if_splits, fastforce+)

lemma alloc_scan_None: "alloc_scan fr i k = None \<Longrightarrow> i \<le> j \<Longrightarrow> j < i + k \<Longrightarrow> \<not> fr j"
proof (induction k arbitrary: i)
  case (Suc k)
  then show ?case by (cases "j = i") (auto split: if_splits)
qed simp

lemma alloc_desc_cases:
  obtains "alloc_desc d = Ret None d" "\<forall>j<NUM. \<not> desc_free d j"
  | i where "alloc_desc d = Ret (Some i) (d\<lparr>desc_free := (desc_free d)(i := False)\<rparr>)" "i < NUM" "desc_free d i"
  using alloc_scan_None [of "desc_free d" 0 NUM] alloc_scan_Some [of "desc_free d" 0 NUM]
  by (cases "alloc_scan (desc_free d) 0 NUM") (auto simp: alloc_desc_def)

lemma free_desc_ret:
  "i < NUM \<Longrightarrow> \<not> desc_free d i \<Longrightarrow>
   free_desc i d = Ret () (d\<lparr>desc := (desc d)(i := (desc d i)\<lparr>vd_addr := ANull\<rparr>), desc_free := (desc_free d)(i := True)\<rparr>)"
  by (simp add: free_desc_def upd_desc_def)

lemma card_le_less: "A \<subseteq> B \<Longrightarrow> finite B \<Longrightarrow> card B < n \<Longrightarrow> card A < n"
  by (meson card_mono le_less_trans)

text \<open>The outcome of \<^verbatim>\<open>alloc3_desc\<close>: three descriptors that were free, or nothing taken.\<close>

lemma alloc3_desc_cases:
  obtains D where "alloc3_desc d = Ret None (d\<lparr>desc := D\<rparr>)" "\<And>i. \<not> desc_free d i \<Longrightarrow> D i = desc d i"
    "card {i. i < NUM \<and> desc_free d i} < 3"
  | i0 i1 i2 where "alloc3_desc d = Ret (Some (i0, i1, i2)) (d\<lparr>desc_free := (desc_free d)(i0 := False, i1 := False, i2 := False)\<rparr>)"
    "distinct [i0, i1, i2]" "{i0, i1, i2} \<subseteq> {i. i < NUM \<and> desc_free d i}"
proof (cases rule: alloc_desc_cases [of d])
  case 1
  then have "{i. i < NUM \<and> desc_free d i} = {}" by auto
  then have "card {i. i < NUM \<and> desc_free d i} < 3" by (simp only: card.empty)
  moreover have "alloc3_desc d = Ret None (d\<lparr>desc := desc d\<rparr>)" using 1 by (simp add: alloc3_desc_def)
  ultimately show ?thesis using that(1) [of "desc d"] by simp
next
  case (2 i0)
  let ?d1 = "d\<lparr>desc_free := (desc_free d)(i0 := False)\<rparr>"
  show ?thesis
  proof (cases rule: alloc_desc_cases [of ?d1])
    case 1
    then have "{i. i < NUM \<and> desc_free d i} \<subseteq> {i0}" by (auto split: if_splits)
    then have c: "card {i. i < NUM \<and> desc_free d i} < 3" by (rule card_le_less) simp_all
    let ?D = "(desc d)(i0 := (desc d i0)\<lparr>vd_addr := ANull\<rparr>)"
    have "(desc_free d)(i0 := True) = desc_free d" using 2(3) by (auto simp: fun_eq_iff)
    then have "alloc3_desc d = Ret None (d\<lparr>desc := ?D\<rparr>)" using 1 2 free_desc_ret [of i0 ?d1] by (simp add: alloc3_desc_def)
    then show ?thesis by (rule that(1)) (use 2(3) c in auto)
  next
    case (2 i1)
    note i0 = \<open>alloc_desc d = _\<close> \<open>i0 < NUM\<close> \<open>desc_free d i0\<close> and i1 = 2
    have ne: "i1 \<noteq> i0" "desc_free d i1" using i1(3) by (auto split: if_splits)
    let ?d2 = "d\<lparr>desc_free := (desc_free d)(i0 := False, i1 := False)\<rparr>"
    show ?thesis
    proof (cases rule: alloc_desc_cases [of ?d2])
      case 1
      then have "{i. i < NUM \<and> desc_free d i} \<subseteq> {i0, i1}" by (auto split: if_splits)
      then have c: "card {i. i < NUM \<and> desc_free d i} < 3" by (rule card_le_less) (simp_all add: card_insert_if)
      let ?D = "(desc d)(i0 := (desc d i0)\<lparr>vd_addr := ANull\<rparr>, i1 := (desc d i1)\<lparr>vd_addr := ANull\<rparr>)"
      have "(desc_free d)(i1 := False, i0 := True, i1 := True) = desc_free d" using i0(3) ne(2) by (auto simp: fun_eq_iff)
      then have "alloc3_desc d = Ret None (d\<lparr>desc := ?D\<rparr>)"
        using 1 i0 i1 ne free_desc_ret [of i0 ?d2] free_desc_ret [of i1 "d\<lparr>desc := (desc d)(i0 := (desc d i0)\<lparr>vd_addr := ANull\<rparr>), desc_free := (desc_free d)(i1 := False, i0 := True)\<rparr>"]
        by (simp add: alloc3_desc_def fun_upd_twist)
      then show ?thesis by (rule that(1)) (use i0(3) ne(2) c in auto)
    next
      case (2 i2)
      have ne2: "i2 \<noteq> i0" "i2 \<noteq> i1" "desc_free d i2" using 2(3) by (auto split: if_splits)
      have "alloc3_desc d = Ret (Some (i0, i1, i2)) (d\<lparr>desc_free := (desc_free d)(i0 := False, i1 := False, i2 := False)\<rparr>)"
        using 2 i0 i1 by (simp add: alloc3_desc_def)
      then show ?thesis by (rule that(2)) (use i0 i1 2 ne ne2 in auto)
    qed
  qed
qed

text \<open>Freeing the chain of a request.\<close>

definition formatted :: "vdisk \<Rightarrow> request \<Rightarrow> bool" where
  "formatted d r \<longleftrightarrow> (case r of (b, sector, w, i0, i1, i2) \<Rightarrow>
     desc d i0 = \<lparr>vd_addr = AHdr (if w then VIRTIO_BLK_T_OUT else VIRTIO_BLK_T_IN) sector, vd_len = 16, vd_flags = VRING_DESC_F_NEXT, vd_next = i1\<rparr> \<and>
     desc d i1 = \<lparr>vd_addr = AData b, vd_len = BSIZE, vd_flags = (if w then 0 else VRING_DESC_F_WRITE) OR VRING_DESC_F_NEXT, vd_next = i2\<rparr> \<and>
     desc d i2 = \<lparr>vd_addr = AStatus i0, vd_len = 1, vd_flags = VRING_DESC_F_WRITE, vd_next = 0\<rparr>)"

lemma flag_bits [simp]:
  "VRING_DESC_F_NEXT \<noteq> 0" "(VRING_DESC_F_WRITE OR VRING_DESC_F_NEXT) AND VRING_DESC_F_NEXT = VRING_DESC_F_NEXT"
  "VRING_DESC_F_WRITE AND VRING_DESC_F_NEXT = 0"
  by (simp_all add: VRING_DESC_F_NEXT_def VRING_DESC_F_WRITE_def)

lemma free_chain_request:
  assumes "formatted d (b, sector, w, i0, i1, i2)" "distinct [i0, i1, i2]" "{i0, i1, i2} \<subseteq> {i. i < NUM \<and> \<not> desc_free d i}"
  shows "\<exists>D. free_chain NUM i0 d = Ret () (d\<lparr>desc := D, desc_free := (desc_free d)(i0 := True, i1 := True, i2 := True)\<rparr>) \<and>
    (\<forall>i. i \<notin> {i0, i1, i2} \<longrightarrow> D i = desc d i)"
proof -
  have N: "NUM = Suc (Suc (Suc 5))" by (simp add: NUM_def)
  let ?n = "\<lambda>i D. D(i := (D i)\<lparr>vd_addr := ANull\<rparr>)"
  let ?D = "?n i2 (?n i1 (?n i0 (desc d)))"
  have r: "free_chain (Suc (Suc (Suc k))) i0 d = Ret () (d\<lparr>desc := ?D, desc_free := (desc_free d)(i0 := True, i1 := True, i2 := True)\<rparr>)" for k
    using assms by (cases w) (simp_all add: formatted_def free_desc_ret)
  show ?thesis unfolding N by (rule exI [of _ ?D], rule conjI, rule r) simp
qed

section \<open>The invariant of the driver\<close>

definition idxs :: "request \<Rightarrow> nat list" where
  "idxs r = (case req_idx r of (i0, i1, i2) \<Rightarrow> [i0, i1, i2])"

definition head :: "request \<Rightarrow> nat" where
  "head r = fst (req_idx r)"

lemma request_simps [simp]:
  "req_buf (b, sector, w, i0, i1, i2) = b" "req_idx (b, sector, w, i0, i1, i2) = (i0, i1, i2)"
  "idxs (b, sector, w, i0, i1, i2) = [i0, i1, i2]" "head (b, sector, w, i0, i1, i2) = i0"
  by (simp_all add: req_buf_def req_idx_def idxs_def head_def)

lemma head_idxs: "head r \<in> set (idxs r)"
  by (cases r) simp

definition queue :: "vdisk \<Rightarrow> nat list" where
  "queue d = ring (avail_ring d) (dev_seen d) (since 65536 (avail_idx d) (dev_seen d))"

definition usedq :: "vdisk \<Rightarrow> nat list" where
  "usedq d = ring (used_elems d) (used_idx d) (since NUM (used_id d mod NUM) (used_idx d))"

text \<open>
  Requests in flight have three descriptors each, all different and not free, in formatted chains; the heads of the
  chains whose buffers are still with the disk are in the available ring, with the device or in the used ring, each
  once.
\<close>

definition chains_ok :: "vdisk \<Rightarrow> request list \<Rightarrow> bool" where
  "chains_ok d rs \<longleftrightarrow>
     distinct (concat (map idxs rs)) \<and> set (concat (map idxs rs)) \<subseteq> {..<NUM} \<and>
     (\<forall>i<NUM. desc_free d i \<longleftrightarrow> i \<notin> set (concat (map idxs rs))) \<and> distinct (map req_buf rs) \<and>
     (\<forall>r\<in>set rs. formatted d r \<and> info_b d (head r) = Some (req_buf r) \<and> info_status d (head r) = 0)"

definition rings_ok :: "vdisk \<Rightarrow> request list \<Rightarrow> bool" where
  "rings_ok d rs \<longleftrightarrow>
     used_idx d < NUM \<and> avail_idx d < 65536 \<and> dev_seen d < 65536 \<and> used_id d < 65536 \<and>
     distinct (queue d @ dev_owned d @ usedq d) \<and>
     set (queue d @ dev_owned d @ usedq d) = head ` {r \<in> set rs. buf_disk d (req_buf r)}"

definition vinv :: "vdisk \<times> request list \<Rightarrow> bool" where
  "vinv s \<longleftrightarrow> (case s of (d, rs) \<Rightarrow> chains_ok d rs \<and> rings_ok d rs)"

lemma idxs_length: "length (concat (map idxs rs)) = 3 * length rs"
  by (induction rs) (auto simp: idxs_def split: prod.split)

lemma chains_few: "chains_ok d rs \<Longrightarrow> length rs \<le> 2"
proof -
  assume "chains_ok d rs"
  then have "distinct (concat (map idxs rs))" "set (concat (map idxs rs)) \<subseteq> {..<NUM}" by (simp_all add: chains_ok_def)
  then have "3 * length rs \<le> NUM" using card_mono [of "{..<NUM}" "set (concat (map idxs rs))"] by (simp only: distinct_card idxs_length finite_lessThan card_lessThan)
  then show ?thesis by (simp add: NUM_def)
qed

lemma rings_few:
  assumes "chains_ok d rs" "rings_ok d rs"
  shows "length (queue d @ dev_owned d @ usedq d) \<le> 2"
proof -
  have "length (queue d @ dev_owned d @ usedq d) = card (head ` {r \<in> set rs. buf_disk d (req_buf r)})"
    using assms(2) distinct_card [of "queue d @ dev_owned d @ usedq d"] unfolding rings_ok_def by metis
  also have "\<dots> \<le> card (head ` set rs)" by (intro card_mono) auto
  also have "\<dots> \<le> length rs" by (rule order.trans [OF card_image_le card_length]) simp
  finally show ?thesis using chains_few [OF assms(1)] by linarith
qed

lemma head_inj:
  assumes "chains_ok d rs" "r \<in> set rs" "r' \<in> set rs" "head r = head r'"
  shows "r = r'"
proof (rule ccontr)
  assume "r \<noteq> r'"
  have "info_b d (head r) = Some (req_buf r)" "info_b d (head r') = Some (req_buf r')" using assms(1-3) by (simp_all add: chains_ok_def)
  then have "req_buf r = req_buf r'" using assms(4) by simp
  moreover have "inj_on req_buf (set rs)" using assms(1) by (simp add: chains_ok_def distinct_map)
  ultimately show False using assms(2,3) \<open>r \<noteq> r'\<close> by (auto dest: inj_onD)
qed

text \<open>Changes that do not concern the chains, or not the rings.\<close>

lemma formatted_cong: "(\<And>i. i \<in> set (idxs r) \<Longrightarrow> desc d' i = desc d i) \<Longrightarrow> formatted d' r = formatted d r"
  by (cases r) (auto simp: formatted_def)

lemma chains_ok_cong:
  assumes "chains_ok d rs" "desc_free d' = desc_free d" "info_b d' = info_b d" "info_status d' = info_status d"
    "\<And>i. \<not> desc_free d i \<Longrightarrow> desc d' i = desc d i"
  shows "chains_ok d' rs"
proof -
  have "formatted d' r = formatted d r" if "r \<in> set rs" for r
    by (rule formatted_cong, rule assms(5)) (use assms(1) that in \<open>auto simp: chains_ok_def\<close>)
  then show ?thesis using assms by (simp add: chains_ok_def)
qed

lemma rings_ok_cong:
  assumes "rings_ok d rs" "avail_idx d' = avail_idx d" "avail_ring d' = avail_ring d" "used_id d' = used_id d" "used_elems d' = used_elems d"
    "used_idx d' = used_idx d" "dev_seen d' = dev_seen d" "dev_owned d' = dev_owned d" "\<And>r. r \<in> set rs \<Longrightarrow> buf_disk d' (req_buf r) = buf_disk d (req_buf r)"
  shows "rings_ok d' rs"
proof -
  have "{r \<in> set rs. buf_disk d' (req_buf r)} = {r \<in> set rs. buf_disk d (req_buf r)}" using assms(9) by auto
  then show ?thesis using assms by (simp add: rings_ok_def queue_def usedq_def)
qed

section \<open>The abstract disk\<close>

text \<open>
  A disk that carries out requests one at a time, each as one transfer, in any order: requests wait, then are done, then
  are taken back. A request is a buffer, a sector and a direction.
\<close>

type_synonym arequest = "nat \<times> uint64 \<times> bool"

record adisk =
  a_sectors :: "nat \<Rightarrow> nat \<Rightarrow> byte"
  a_data :: "nat \<Rightarrow> block"
  a_waiting :: "arequest set"
  a_done :: "arequest set"

definition a_transfer :: "arequest \<Rightarrow> adisk \<Rightarrow> adisk" where
  "a_transfer r a =
     (case r of (b, sector, w) \<Rightarrow>
       if w then a\<lparr>a_sectors := to_disk (unat sector) (a_data a b) (a_sectors a)\<rparr>
       else a\<lparr>a_data := (a_data a)(b := from_disk (unat sector) (a_sectors a) (a_data a b))\<rparr>)"

inductive astep :: "adisk \<Rightarrow> adisk \<Rightarrow> bool" where
  abegin: "b \<notin> fst ` (a_waiting a \<union> a_done a) \<Longrightarrow> astep a (a\<lparr>a_waiting := insert (b, sector, w) (a_waiting a)\<rparr>)"
| atransfer: "r \<in> a_waiting a \<Longrightarrow> astep a ((a_transfer r a)\<lparr>a_waiting := a_waiting a - {r}, a_done := insert r (a_done a)\<rparr>)"
| aend: "r \<in> a_done a \<Longrightarrow> astep a (a\<lparr>a_done := a_done a - {r}\<rparr>)"

definition areq :: "request \<Rightarrow> arequest" where
  "areq r = (case r of (b, sector, w, idx) \<Rightarrow> (b, sector, w))"

text \<open>A request waits as long as its chain is in the available ring or with the device.\<close>

definition abs_disk :: "vdisk \<times> request list \<Rightarrow> adisk" where
  "abs_disk s = (case s of (d, rs) \<Rightarrow>
     \<lparr>a_sectors = sectors d, a_data = buf_data d,
      a_waiting = areq ` {r \<in> set rs. head r \<in> set (queue d @ dev_owned d)},
      a_done = areq ` {r \<in> set rs. head r \<notin> set (queue d @ dev_owned d)}\<rparr>)"

lemma fst_areq [simp]: "fst (areq r) = req_buf r"
  by (cases r) (simp add: areq_def)

lemma areq_inj: "chains_ok d rs \<Longrightarrow> inj_on areq (set rs)"
proof (rule inj_onI)
  fix r r' assume "chains_ok d rs" "r \<in> set rs" "r' \<in> set rs" "areq r = areq r'"
  moreover from this have "req_buf r = req_buf r'" by (metis fst_areq)
  ultimately show "r = r'" by (auto simp: chains_ok_def distinct_map dest: inj_onD)
qed

lemma abs_buffers: "fst ` (a_waiting (abs_disk (d, rs)) \<union> a_done (abs_disk (d, rs))) = req_buf ` set rs"
proof -
  have "a_waiting (abs_disk (d, rs)) \<union> a_done (abs_disk (d, rs)) = areq ` set rs" unfolding abs_disk_def by (auto simp del: request_simps)
  then show ?thesis by (simp add: image_image)
qed

section \<open>The steps keep the invariant and refine the abstract disk\<close>

lemma try_ok:
  assumes "vinv (d, rs)" "alloc3_desc d = Ret None d'"
  shows "vinv (d', rs) \<and> abs_disk (d', rs) = abs_disk (d, rs)"
proof -
  obtain D where "d' = d\<lparr>desc := D\<rparr>" "\<And>i. \<not> desc_free d i \<Longrightarrow> D i = desc d i"
    by (rule alloc3_desc_cases [of d]) (use assms(2) in auto)
  then show ?thesis using assms(1) chains_ok_cong [of d rs d'] rings_ok_cong [of d rs d']
    by (simp add: vinv_def abs_disk_def queue_def)
qed

lemma queue_publish:
  assumes "avail_idx d < 65536" "dev_seen d < 65536" "length (queue d) < 8"
  shows "queue (publish i d) = queue d @ [i]"
proof -
  let ?n = "since 65536 (avail_idx d) (dev_seen d)"
  have n: "?n < NUM" "?n + 1 < 65536" using assms(3) by (simp_all add: queue_def NUM_def)
  have "avail_idx d = (dev_seen d + ?n) mod 65536" using assms(1,2) by (simp add: since_cases mod_if)
  moreover have "NUM dvd 65536" by (simp add: NUM_def)
  ultimately have "avail_idx d mod NUM = (dev_seen d + ?n) mod NUM" by (metis mod_mod_cancel)
  then show ?thesis using ring_push [OF n(1)] since_Suc [OF assms(1,2) n(2)] by (simp add: queue_def publish_def)
qed

lemma rw_begin_cases:
  assumes "rw_begin b blockno w d = Ret idx d'"
  obtains i0 i1 i2 where "idx = (i0, i1, i2)" "distinct [i0, i1, i2]" "{i0, i1, i2} \<subseteq> {i. i < NUM \<and> desc_free d i}"
    "d' = publish i0 (format_desc b (sector_of blockno) w (i0, i1, i2) (d\<lparr>desc_free := (desc_free d)(i0 := False, i1 := False, i2 := False)\<rparr>))"
  by (rule alloc3_desc_cases [of d]) (use assms in \<open>auto simp: rw_begin_def kbind_def kthen_def\<close>)

lemma format_fields [simp]:
  "avail_idx (format_desc b sec w (i0, i1, i2) d) = avail_idx d" "avail_ring (format_desc b sec w (i0, i1, i2) d) = avail_ring d"
  "used_id (format_desc b sec w (i0, i1, i2) d) = used_id d" "used_elems (format_desc b sec w (i0, i1, i2) d) = used_elems d"
  "desc_free (format_desc b sec w (i0, i1, i2) d) = desc_free d" "used_idx (format_desc b sec w (i0, i1, i2) d) = used_idx d"
  "info_b (format_desc b sec w (i0, i1, i2) d) = (info_b d)(i0 := Some b)" "info_status (format_desc b sec w (i0, i1, i2) d) = (info_status d)(i0 := 0)"
  "buf_disk (format_desc b sec w (i0, i1, i2) d) = (buf_disk d)(b := True)" "buf_data (format_desc b sec w (i0, i1, i2) d) = buf_data d"
  "dev_seen (format_desc b sec w (i0, i1, i2) d) = dev_seen d" "dev_owned (format_desc b sec w (i0, i1, i2) d) = dev_owned d"
  "sectors (format_desc b sec w (i0, i1, i2) d) = sectors d"
  by (simp_all add: format_desc_def upd_desc_def Let_def)

lemma format_other: "i \<notin> {i0, i1, i2} \<Longrightarrow> desc (format_desc b sec w (i0, i1, i2) d) i = desc d i"
  by (simp add: format_desc_def upd_desc_def Let_def)

lemma format_formatted: "distinct [i0, i1, i2] \<Longrightarrow> formatted (format_desc b sec w (i0, i1, i2) d) (b, sec, w, i0, i1, i2)"
  by (simp add: formatted_def format_desc_def upd_desc_def Let_def)

lemma publish_fields [simp]:
  "desc (publish i d) = desc d" "used_id (publish i d) = used_id d" "used_elems (publish i d) = used_elems d"
  "desc_free (publish i d) = desc_free d" "used_idx (publish i d) = used_idx d" "info_b (publish i d) = info_b d"
  "info_status (publish i d) = info_status d" "buf_disk (publish i d) = buf_disk d" "buf_data (publish i d) = buf_data d"
  "dev_seen (publish i d) = dev_seen d" "dev_owned (publish i d) = dev_owned d" "sectors (publish i d) = sectors d"
  by (simp_all add: publish_def)

lemma formatted_publish [simp]: "formatted (publish i d) r = formatted d r"
  by (simp add: formatted_def)

lemma begin_chains:
  assumes c: "chains_ok d rs" and b: "b \<notin> req_buf ` set rs" and i: "distinct [i0, i1, i2]" "{i0, i1, i2} \<subseteq> {i. i < NUM \<and> desc_free d i}"
    and d': "d' = publish i0 (format_desc b sec w (i0, i1, i2) (d\<lparr>desc_free := (desc_free d)(i0 := False, i1 := False, i2 := False)\<rparr>))"
  shows "chains_ok d' ((b, sec, w, i0, i1, i2) # rs)"
proof -
  let ?I = "set (concat (map idxs rs))"
  have new: "i0 \<notin> ?I" "i1 \<notin> ?I" "i2 \<notin> ?I" using c i(2) by (auto simp: chains_ok_def)
  have old: "formatted d' r \<and> info_b d' (head r) = Some (req_buf r) \<and> info_status d' (head r) = 0" if r: "r \<in> set rs" for r
  proof -
    have "j \<notin> {i0, i1, i2}" if "j \<in> set (idxs r)" for j using new that r by auto
    then have "formatted d' r = formatted d r" "head r \<noteq> i0" using head_idxs [of r] by (auto intro!: formatted_cong simp: d' format_other)
    then show ?thesis using c r by (simp add: chains_ok_def d')
  qed
  have "formatted d' (b, sec, w, i0, i1, i2)" by (simp add: d' format_formatted [OF i(1)])
  moreover have "\<forall>j<NUM. desc_free d' j \<longleftrightarrow> j \<notin> set (concat (map idxs ((b, sec, w, i0, i1, i2) # rs)))"
    using c by (auto simp: chains_ok_def d')
  ultimately show ?thesis using c b i new old unfolding chains_ok_def by (simp add: d')
qed

lemma begin_rings:
  assumes c: "chains_ok d rs" "rings_ok d rs" and b: "b \<notin> req_buf ` set rs" and i: "i0 < NUM" "desc_free d i0"
    and d': "d' = publish i0 (format_desc b sec w (i0, i1, i2) (d\<lparr>desc_free := F\<rparr>))"
  shows "rings_ok d' ((b, sec, w, i0, i1, i2) # rs) \<and> queue d' = queue d @ [i0]"
proof -
  let ?e = "format_desc b sec w (i0, i1, i2) (d\<lparr>desc_free := F\<rparr>)"
  have q: "queue ?e = queue d" "usedq d' = usedq d" by (simp_all add: queue_def usedq_def d')
  have r: "avail_idx d < 65536" "dev_seen d < 65536" using c(2) by (simp_all add: rings_ok_def)
  have qd: "queue d' = queue d @ [i0]" unfolding d' using queue_publish [of ?e i0] r rings_few [OF c] q(1) by simp
  have "i0 \<notin> set (concat (map idxs rs))" using c(1) i by (auto simp: chains_ok_def)
  then have "i0 \<notin> head ` set rs" using head_idxs by fastforce
  then have n: "i0 \<notin> set (queue d @ dev_owned d @ usedq d)" using c(2) by (auto simp: rings_ok_def)
  have "buf_disk d' (req_buf r) = buf_disk d (req_buf r)" if "r \<in> set rs" for r using b that by (auto simp: d')
  then have "{r \<in> set rs. buf_disk d' (req_buf r)} = {r \<in> set rs. buf_disk d (req_buf r)}" by auto
  moreover have "buf_disk d' b" by (simp add: d')
  then have "{r \<in> set ((b, sec, w, i0, i1, i2) # rs). buf_disk d' (req_buf r)} = insert (b, sec, w, i0, i1, i2) {r \<in> set rs. buf_disk d' (req_buf r)}" by auto
  moreover have "set (queue d' @ dev_owned d' @ usedq d') = insert i0 (set (queue d @ dev_owned d @ usedq d))" "dev_owned d' = dev_owned d" unfolding qd q(2) by (auto simp: d')
  ultimately have "set (queue d' @ dev_owned d' @ usedq d') = head ` {r \<in> set ((b, sec, w, i0, i1, i2) # rs). buf_disk d' (req_buf r)}"
    using c(2) by (simp only: rings_ok_def image_insert request_simps)
  moreover have "distinct (queue d' @ dev_owned d' @ usedq d')" unfolding qd q(2) using c(2) n by (auto simp: d' rings_ok_def)
  moreover have "avail_idx d' < 65536" by (simp add: d' publish_def)
  ultimately show ?thesis using c(2) qd unfolding rings_ok_def by (simp add: d')
qed

lemma insert_filter:
  "P' x \<Longrightarrow> (\<And>r. r \<in> A \<Longrightarrow> P' r \<longleftrightarrow> P r) \<Longrightarrow> {r \<in> insert x A. P' r} = insert x {r \<in> A. P r}"
  "P' x \<Longrightarrow> (\<And>r. r \<in> A \<Longrightarrow> P' r \<longleftrightarrow> P r) \<Longrightarrow> {r \<in> insert x A. \<not> P' r} = {r \<in> A. \<not> P r}"
  by auto

lemma rings_head:
  assumes "rings_ok d rs" "h \<in> set (queue d) \<union> set (dev_owned d) \<union> set (usedq d)"
  obtains r where "r \<in> set rs" "head r = h" "buf_disk d (req_buf r)"
proof -
  have "set (queue d @ dev_owned d @ usedq d) = head ` {r \<in> set rs. buf_disk d (req_buf r)}" using assms(1) by (simp only: rings_ok_def)
  moreover have "h \<in> set (queue d @ dev_owned d @ usedq d)" using assms(2) by auto
  ultimately have "h \<in> head ` {r \<in> set rs. buf_disk d (req_buf r)}" by (simp only:)
  then show ?thesis using that by (elim imageE CollectE conjE) blast
qed

lemma begin_ok:
  assumes "vinv (d, rs)" "b \<notin> req_buf ` set rs" "rw_begin b blockno w d = Ret idx d'"
  shows "vinv (d', (b, sector_of blockno, w, idx) # rs) \<and> astep (abs_disk (d, rs)) (abs_disk (d', (b, sector_of blockno, w, idx) # rs))"
proof (rule rw_begin_cases [OF assms(3)])
  fix i0 i1 i2
  assume idx: "idx = (i0, i1, i2)" "distinct [i0, i1, i2]" "{i0, i1, i2} \<subseteq> {i. i < NUM \<and> desc_free d i}"
    and d': "d' = publish i0 (format_desc b (sector_of blockno) w (i0, i1, i2) (d\<lparr>desc_free := (desc_free d)(i0 := False, i1 := False, i2 := False)\<rparr>))"
  let ?r = "(b, sector_of blockno, w, i0, i1, i2)"
  have c: "chains_ok d rs" "rings_ok d rs" using assms(1) by (simp_all add: vinv_def)
  have new: "chains_ok d' (?r # rs)" by (rule begin_chains [OF c(1) assms(2) idx(2,3) d'])
  have "rings_ok d' (?r # rs) \<and> queue d' = queue d @ [i0]" by (rule begin_rings [OF c assms(2) _ _ d']) (use idx(3) in auto)
  then have ri: "rings_ok d' (?r # rs)" and q: "queue d' = queue d @ [i0]" by auto
  have "head r \<noteq> i0" if r: "r \<in> set rs" for r
  proof
    assume "head r = i0"
    then have "r = ?r" using head_inj [OF new, of r ?r] r by simp
    then have "req_buf r = b" by simp
    with r assms(2) show False by blast
  qed
  then have "head r \<in> set (queue d' @ dev_owned d') \<longleftrightarrow> head r \<in> set (queue d @ dev_owned d)" if "r \<in> set rs" for r using that q by (auto simp: d')
  then have "{r \<in> set (?r # rs). head r \<in> set (queue d' @ dev_owned d')} = insert ?r {r \<in> set rs. head r \<in> set (queue d @ dev_owned d)}"
    "{r \<in> set (?r # rs). head r \<notin> set (queue d' @ dev_owned d')} = {r \<in> set rs. head r \<notin> set (queue d @ dev_owned d)}"
    unfolding list.set by (intro insert_filter; simp add: q)+
  then have "abs_disk (d', ?r # rs) = (abs_disk (d, rs))\<lparr>a_waiting := insert (areq ?r) (a_waiting (abs_disk (d, rs)))\<rparr>"
    unfolding abs_disk_def prod.case by (simp only: image_insert adisk.simps) (simp add: d')
  then have "astep (abs_disk (d, rs)) (abs_disk (d', ?r # rs))"
    using astep.abegin [of b "abs_disk (d, rs)"] assms(2) by (simp add: abs_buffers areq_def)
  with new ri show ?thesis by (simp add: idx(1) vinv_def)
qed

lemma end_state:
  assumes "chains_ok d (xs @ r # ys)" "rw_end (req_buf r) (req_idx r) d = Ret () d'"
  obtains D where "d' = d\<lparr>desc := D, desc_free := \<lambda>i. i \<in> set (idxs r) \<or> desc_free d i, info_b := (info_b d)(head r := None)\<rparr>"
    "\<And>i. i \<notin> set (idxs r) \<Longrightarrow> D i = desc d i" "\<not> buf_disk d (req_buf r)"
proof -
  obtain b sec w i0 i1 i2 where r: "r = (b, sec, w, i0, i1, i2)" by (cases r)
  let ?e = "d\<lparr>info_b := (info_b d)(i0 := None)\<rparr>"
  have f: "formatted ?e (b, sec, w, i0, i1, i2)" "distinct [i0, i1, i2]" "{i0, i1, i2} \<subseteq> {i. i < NUM \<and> \<not> desc_free ?e i}"
    using assms(1) by (auto simp: chains_ok_def formatted_def r)
  obtain D where D: "free_chain NUM i0 ?e = Ret () (?e\<lparr>desc := D, desc_free := (desc_free d)(i0 := True, i1 := True, i2 := True)\<rparr>)"
    "\<forall>i. i \<notin> {i0, i1, i2} \<longrightarrow> D i = desc d i" using free_chain_request [OF f] by auto
  have n: "\<not> buf_disk d b" using assms(2) by (auto simp: rw_end_def r split: if_splits)
  then have "d' = ?e\<lparr>desc := D, desc_free := (desc_free d)(i0 := True, i1 := True, i2 := True)\<rparr>" using assms(2) D(1) by (simp add: rw_end_def r)
  moreover have "(desc_free d)(i0 := True, i1 := True, i2 := True) = (\<lambda>i. i \<in> set (idxs r) \<or> desc_free d i)" by (auto simp: r fun_eq_iff)
  ultimately show ?thesis using that [of D] D(2) n by (simp add: r)
qed

lemma end_ok:
  assumes v: "vinv (d, xs @ r # ys)" and e: "rw_end (req_buf r) (req_idx r) d = Ret () d'"
  shows "vinv (d', xs @ ys) \<and> astep (abs_disk (d, xs @ r # ys)) (abs_disk (d', xs @ ys))"
proof -
  have c: "chains_ok d (xs @ r # ys)" "rings_ok d (xs @ r # ys)" using v by (simp_all add: vinv_def)
  obtain D where d': "d' = d\<lparr>desc := D, desc_free := \<lambda>i. i \<in> set (idxs r) \<or> desc_free d i, info_b := (info_b d)(head r := None)\<rparr>"
    and D: "\<And>i. i \<notin> set (idxs r) \<Longrightarrow> D i = desc d i" and n: "\<not> buf_disk d (req_buf r)" using end_state [OF c(1) e] by blast
  have dis: "set (idxs r) \<inter> set (idxs r') = {}" if "r' \<in> set (xs @ ys)" for r' using c(1) that by (auto simp: chains_ok_def)
  have old: "formatted d' r' \<and> info_b d' (head r') = Some (req_buf r') \<and> info_status d' (head r') = 0" if r': "r' \<in> set (xs @ ys)" for r'
  proof -
    have "formatted d' r' = formatted d r'" by (rule formatted_cong) (use dis [OF r'] D d' in auto)
    moreover have "head r' \<noteq> head r" using dis [OF r'] head_idxs [of r] head_idxs [of r'] by auto
    ultimately show ?thesis using c(1) r' by (auto simp: chains_ok_def d')
  qed
  have "\<forall>j<NUM. desc_free d' j \<longleftrightarrow> j \<notin> set (concat (map idxs (xs @ ys)))" using c(1) dis by (auto simp: chains_ok_def d')
  moreover have "distinct (concat (map idxs (xs @ ys)))" "distinct (map req_buf (xs @ ys))" "set (concat (map idxs (xs @ ys))) \<subseteq> {..<NUM}"
    using c(1) by (auto simp: chains_ok_def)
  ultimately have nc: "chains_ok d' (xs @ ys)" using old unfolding chains_ok_def by blast
  have "{r' \<in> set (xs @ r # ys). buf_disk d (req_buf r')} = {r' \<in> set (xs @ ys). buf_disk d (req_buf r')}" using n by auto
  then have nr: "rings_ok d' (xs @ ys)" using c(2) unfolding rings_ok_def by (simp add: d' queue_def usedq_def)
  have hr: "head r \<notin> set (queue d @ dev_owned d)"
  proof
    assume "head r \<in> set (queue d @ dev_owned d)"
    then obtain r' where "r' \<in> set (xs @ r # ys)" "head r' = head r" "buf_disk d (req_buf r')" using rings_head [OF c(2), of "head r"] by (metis UnI1 set_append)
    with head_inj [OF c(1), of r r'] n show False by auto
  qed
  have inj: "inj_on areq (set (xs @ r # ys))" by (rule areq_inj [OF c(1)])
  have "r \<notin> set (xs @ ys)" using c(1) by (auto simp: chains_ok_def)
  then have "areq ` {r' \<in> set (xs @ ys). head r' \<notin> set (queue d @ dev_owned d)} = areq ` {r' \<in> set (xs @ r # ys). head r' \<notin> set (queue d @ dev_owned d)} - {areq r}"
    using inj by (auto simp: inj_on_def)
  moreover have "{r' \<in> set (xs @ ys). head r' \<in> set (queue d @ dev_owned d)} = {r' \<in> set (xs @ r # ys). head r' \<in> set (queue d @ dev_owned d)}" using hr by auto
  moreover have "queue d' = queue d" "dev_owned d' = dev_owned d" by (simp_all add: d' queue_def)
  ultimately have "abs_disk (d', xs @ ys) = (abs_disk (d, xs @ r # ys))\<lparr>a_done := a_done (abs_disk (d, xs @ r # ys)) - {areq r}\<rparr>"
    unfolding abs_disk_def prod.case by (simp only: adisk.simps) (simp add: d')
  moreover have "areq r \<in> a_done (abs_disk (d, xs @ r # ys))" using hr by (auto simp: abs_disk_def)
  ultimately show ?thesis using nc nr astep.aend [of "areq r"] by (simp add: vinv_def)
qed

lemma usedq_pop:
  assumes "used_idx d < NUM" "used_idx d \<noteq> used_id d mod NUM"
  shows "usedq d = used_elems d (used_idx d) # usedq (d\<lparr>buf_disk := X, used_idx := (used_idx d + 1) mod NUM\<rparr>)"
proof -
  have "Suc (since NUM (used_id d mod NUM) ((used_idx d + 1) mod NUM)) = since NUM (used_id d mod NUM) (used_idx d)"
    by (rule since_adv) (use assms in auto)
  then show ?thesis using assms(1) ring_pop [of "used_elems d" "used_idx d" "since NUM (used_id d mod NUM) ((used_idx d + 1) mod NUM)"]
    by (simp add: usedq_def ring_mod)
qed

text \<open>One round of the interrupt handler: nothing to do, or a request of ours whose buffer it hands back.\<close>

lemma intr_cases:
  assumes c: "chains_ok d rs" "rings_ok d rs"
  obtains "intr_one d = Ret False d"
  | r d' where "r \<in> set rs" "buf_disk d (req_buf r)" "usedq d = head r # usedq d'" "intr_one d = Ret True d'"
    "d' = d\<lparr>buf_disk := (buf_disk d)(req_buf r := False), used_idx := (used_idx d + 1) mod NUM\<rparr>"
proof (cases "used_idx d = used_id d mod NUM")
  case True
  then show ?thesis using that(1) by (simp add: intr_one_def)
next
  case False
  have u: "used_idx d < NUM" using c(2) by (simp add: rings_ok_def)
  note p = usedq_pop [OF u False]
  have "used_elems d (used_idx d) \<in> set (usedq d)" by (subst p) simp
  then obtain r where r: "r \<in> set rs" "head r = used_elems d (used_idx d)" "buf_disk d (req_buf r)"
    using rings_head [OF c(2), of "used_elems d (used_idx d)"] by (metis UnI2)
  have "info_b d (head r) = Some (req_buf r)" "info_status d (head r) = 0" using c(1) r(1) by (simp_all add: chains_ok_def)
  then have "intr_one d = Ret True (d\<lparr>buf_disk := (buf_disk d)(req_buf r := False), used_idx := (used_idx d + 1) mod NUM\<rparr>)"
    using False u r(2) by (simp add: intr_one_def)
  then show ?thesis using that(2) [OF r(1,3)] p r(2) by simp
qed

lemma intr_ok:
  assumes v: "vinv (d, rs)" and i: "intr_one d = Ret go d'"
  shows "vinv (d', rs) \<and> abs_disk (d', rs) = abs_disk (d, rs)"
proof -
  have c: "chains_ok d rs" "rings_ok d rs" using v by (simp_all add: vinv_def)
  show ?thesis
  proof (rule intr_cases [OF c])
    assume "intr_one d = Ret False d"
    with i v show ?thesis by simp
  next
    fix r e assume r: "r \<in> set rs" "buf_disk d (req_buf r)" "usedq d = head r # usedq e" and one: "intr_one d = Ret True e"
      and e: "e = d\<lparr>buf_disk := (buf_disk d)(req_buf r := False), used_idx := (used_idx d + 1) mod NUM\<rparr>"
    have d': "d' = e" using i one by simp
    have q: "queue e = queue d" "dev_owned e = dev_owned d" by (simp_all add: e queue_def)
    have hd: "head r \<notin> set (queue d) \<union> set (dev_owned d) \<union> set (usedq e)" using c(2) r(3) by (auto simp: rings_ok_def)
    have inj: "inj_on req_buf (set rs)" using c(1) by (simp add: chains_ok_def distinct_map)
    have "{r' \<in> set rs. buf_disk e (req_buf r')} = {r' \<in> set rs. buf_disk d (req_buf r')} - {r}" using inj r(1) by (auto simp: e inj_on_def)
    moreover have "inj_on head {r' \<in> set rs. buf_disk d (req_buf r')}" using head_inj [OF c(1)] by (auto simp: inj_on_def simp del: split_paired_All)
    ultimately have "head ` {r' \<in> set rs. buf_disk e (req_buf r')} = head ` {r' \<in> set rs. buf_disk d (req_buf r')} - {head r}"
      using r(1,2) by (simp add: inj_on_image_set_diff [where C = "{r' \<in> set rs. buf_disk d (req_buf r')}"])
    moreover have "set (queue d @ dev_owned d @ usedq d) = insert (head r) (set (queue d) \<union> set (dev_owned d) \<union> set (usedq e))" using r(3) by auto
    moreover have "set (queue d @ dev_owned d @ usedq d) = head ` {r' \<in> set rs. buf_disk d (req_buf r')}" using c(2) by (simp only: rings_ok_def)
    ultimately have "set (queue e @ dev_owned e @ usedq e) = head ` {r' \<in> set rs. buf_disk e (req_buf r')}" using hd q by auto
    moreover have "distinct (queue e @ dev_owned e @ usedq e)" using c(2) r(3) q by (auto simp: rings_ok_def)
    moreover have "used_idx e < NUM" by (simp add: e NUM_def)
    ultimately have "rings_ok e rs" using c(2) unfolding rings_ok_def by (simp add: e)
    moreover have "chains_ok e rs" by (rule chains_ok_cong [OF c(1)]) (simp_all add: e)
    ultimately show ?thesis unfolding d' by (simp add: vinv_def abs_disk_def q) (simp add: e)
  qed
qed

lemma fetch_ok:
  assumes v: "vinv (d, rs)" and n: "dev_seen d \<noteq> avail_idx d"
  shows "vinv (fetch d, rs) \<and> abs_disk (fetch d, rs) = abs_disk (d, rs)"
proof -
  have c: "chains_ok d rs" "rings_ok d rs" using v by (simp_all add: vinv_def)
  have b: "avail_idx d < 65536" "dev_seen d < 65536" using c(2) by (simp_all add: rings_ok_def)
  let ?x = "avail_ring d (dev_seen d mod NUM)"
  have "Suc (since 65536 (avail_idx d) ((dev_seen d + 1) mod 65536)) = since 65536 (avail_idx d) (dev_seen d)"
    by (rule since_adv [OF b]) (use n in simp)
  moreover have "ring (avail_ring d) ((dev_seen d + 1) mod 65536) k = ring (avail_ring d) (dev_seen d + 1) k" for k by (rule ring_mod) (simp add: NUM_def)
  ultimately have q: "queue d = ?x # queue (fetch d)"
    using ring_pop [of "avail_ring d" "dev_seen d" "since 65536 (avail_idx d) ((dev_seen d + 1) mod 65536)"]
    unfolding queue_def by (simp add: fetch_def)
  have o: "dev_owned (fetch d) = dev_owned d @ [?x]" "usedq (fetch d) = usedq d" by (simp_all add: fetch_def usedq_def)
  then have s: "set (queue (fetch d) @ dev_owned (fetch d) @ usedq (fetch d)) = set (queue d @ dev_owned d @ usedq d)"
    and w: "set (queue (fetch d) @ dev_owned (fetch d)) = set (queue d @ dev_owned d)" using q by auto
  moreover have "distinct (queue (fetch d) @ dev_owned (fetch d) @ usedq (fetch d))" using c(2) q o by (auto simp: rings_ok_def)
  moreover have "dev_seen (fetch d) < 65536" by (simp add: fetch_def)
  ultimately have "rings_ok (fetch d) rs" using c(2) unfolding rings_ok_def s by (simp add: fetch_def)
  moreover have "chains_ok (fetch d) rs" by (rule chains_ok_cong [OF c(1)]) (simp_all add: fetch_def)
  ultimately show ?thesis unfolding abs_disk_def vinv_def prod.case w by (simp add: fetch_def)
qed

definition served :: "nat \<Rightarrow> vdisk \<Rightarrow> vdisk \<Rightarrow> vdisk" where
  "served h d e = e\<lparr>info_status := (info_status d)(h := 0), used_elems := (used_elems d)(used_id d mod NUM := h),
     used_id := (used_id d + 1) mod 65536, dev_owned := remove1 h (dev_owned d)\<rparr>"

lemma serve_formatted:
  assumes "formatted d (b, sec, w, i0, i1, i2)"
  shows "serve i0 d = Some (served i0 d (transfer b sec w d))"
proof -
  have "VIRTIO_BLK_T_OUT \<noteq> VIRTIO_BLK_T_IN" by (simp add: VIRTIO_BLK_T_OUT_def VIRTIO_BLK_T_IN_def)
  with assms show ?thesis by (cases w) (simp_all add: serve_def formatted_def served_def)
qed

lemma transfer_fields [simp]:
  "desc (transfer b sec w d) = desc d" "avail_idx (transfer b sec w d) = avail_idx d" "avail_ring (transfer b sec w d) = avail_ring d"
  "used_id (transfer b sec w d) = used_id d" "desc_free (transfer b sec w d) = desc_free d" "used_idx (transfer b sec w d) = used_idx d"
  "info_b (transfer b sec w d) = info_b d" "buf_disk (transfer b sec w d) = buf_disk d" "dev_seen (transfer b sec w d) = dev_seen d"
  by (simp_all add: transfer_def)

lemma since_back: "a < m \<Longrightarrow> b < m \<Longrightarrow> (b + since m a b) mod m = a"
  by (simp add: since_cases)

lemma usedq_served:
  assumes "used_idx d < NUM" "length (usedq d) < 7"
  shows "usedq (served h d (transfer b sec w d)) = usedq d @ [h]"
proof -
  let ?n = "since NUM (used_id d mod NUM) (used_idx d)"
  have N: "NUM dvd 65536" "0 < NUM" "used_id d mod NUM < NUM" by (simp_all add: NUM_def)
  have n: "?n < NUM" "?n + 1 < NUM" using assms(2) by (simp_all add: usedq_def NUM_def)
  have a: "(used_id d + 1) mod 65536 mod NUM = (used_id d mod NUM + 1) mod NUM" using mod_mod_cancel [OF N(1)] mod_add_left_eq [of "used_id d" NUM 1] by metis
  have "used_id d mod NUM = (used_idx d + ?n) mod NUM" by (rule since_back [OF N(3) assms(1), symmetric])
  then have "ring ((used_elems d)(used_id d mod NUM := h)) (used_idx d) (Suc ?n) = ring (used_elems d) (used_idx d) ?n @ [h]"
    using ring_push [OF n(1)] by metis
  then show ?thesis unfolding usedq_def served_def using since_Suc [OF N(3) assms(1) n(2)] a by simp
qed

lemma move_image:
  assumes "inj_on f A" "x \<in> A" "\<And>y. y \<in> A \<Longrightarrow> P' y \<longleftrightarrow> P y \<and> y \<noteq> x" "P x"
  shows "f ` {y \<in> A. P' y} = f ` {y \<in> A. P y} - {f x}" "f ` {y \<in> A. \<not> P' y} = insert (f x) (f ` {y \<in> A. \<not> P y})"
  using assms by (auto simp: inj_on_def)

lemma serve_ok:
  assumes v: "vinv (d, rs)" and h: "h \<in> set (dev_owned d)" and s: "serve h d = None \<or> serve h d = Some d'"
  shows "vinv (d', rs) \<and> astep (abs_disk (d, rs)) (abs_disk (d', rs))"
proof -
  have c: "chains_ok d rs" "rings_ok d rs" using v by (simp_all add: vinv_def)
  obtain r where r: "r \<in> set rs" "head r = h" "buf_disk d (req_buf r)" using rings_head [OF c(2), of h] h by (metis UnI1 UnI2)
  obtain b sec w i0 i1 i2 where rr: "r = (b, sec, w, i0, i1, i2)" by (cases r)
  have i0: "i0 = h" "formatted d (b, sec, w, i0, i1, i2)" "info_status d h = 0" using c(1) r rr by (auto simp: chains_ok_def)
  have d': "d' = served h d (transfer b sec w d)" using s serve_formatted [OF i0(2)] i0(1) by auto
  have dis: "distinct (queue d @ dev_owned d @ usedq d)" using c(2) by (simp only: rings_ok_def)
  have u: "usedq d' = usedq d @ [h]" unfolding d' by (rule usedq_served) (use c(2) rings_few [OF c] in \<open>auto simp: rings_ok_def\<close>)
  have q: "queue d' = queue d" "dev_owned d' = remove1 h (dev_owned d)" "set (remove1 h (dev_owned d)) = set (dev_owned d) - {h}"
    using dis by (simp_all add: d' served_def queue_def)
  have sets: "set (queue d' @ dev_owned d' @ usedq d') = set (queue d @ dev_owned d @ usedq d)" using u q h by auto
  have "distinct (queue d' @ dev_owned d' @ usedq d')" using u q dis h by (auto simp: distinct_remove1)
  moreover have "buf_disk d' = buf_disk d" "used_id d' < 65536" by (simp_all add: d' served_def)
  ultimately have "rings_ok d' rs" using c(2) unfolding rings_ok_def sets by (simp add: d' served_def)
  moreover have "info_status d' = info_status d" using i0(3) by (auto simp: d' served_def fun_eq_iff)
  then have "chains_ok d' rs" by (intro chains_ok_cong [OF c(1)]) (simp_all add: d' served_def)
  moreover have "head r' \<in> set (queue d' @ dev_owned d') \<longleftrightarrow> head r' \<in> set (queue d @ dev_owned d) \<and> r' \<noteq> r" if "r' \<in> set rs" for r'
  proof -
    have "head r' = h \<longleftrightarrow> r' = r" using head_inj [OF c(1) that r(1)] r(2) by auto
    moreover have "h \<notin> set (queue d)" using dis h by auto
    ultimately show ?thesis using q by auto
  qed
  note kept = this
  have "head r \<in> set (queue d @ dev_owned d)" using r(2) h by simp
  note mv = move_image [where P' = "\<lambda>y. head y \<in> set (queue d' @ dev_owned d')" and P = "\<lambda>y. head y \<in> set (queue d @ dev_owned d)",
      OF areq_inj [OF c(1)] r(1) kept this]
  have "areq r \<in> a_waiting (abs_disk (d, rs))" unfolding abs_disk_def prod.case adisk.simps by (intro imageI) (simp add: r h)
  moreover have "a_waiting (abs_disk (d', rs)) = a_waiting (abs_disk (d, rs)) - {areq r}"
    unfolding abs_disk_def prod.case adisk.simps by (rule mv(1))
  moreover have "a_done (abs_disk (d', rs)) = insert (areq r) (a_done (abs_disk (d, rs)))"
    unfolding abs_disk_def prod.case adisk.simps by (rule mv(2))
  moreover have "a_sectors (abs_disk (d', rs)) = a_sectors (a_transfer (areq r) (abs_disk (d, rs)))" "a_data (abs_disk (d', rs)) = a_data (a_transfer (areq r) (abs_disk (d, rs)))"
    by (simp_all add: abs_disk_def d' served_def transfer_def a_transfer_def areq_def rr)
  ultimately have "abs_disk (d', rs) = (a_transfer (areq r) (abs_disk (d, rs)))\<lparr>a_waiting := a_waiting (abs_disk (d, rs)) - {areq r}, a_done := insert (areq r) (a_done (abs_disk (d, rs)))\<rparr>"
    "areq r \<in> a_waiting (abs_disk (d, rs))" by simp_all
  moreover note \<open>rings_ok d' rs\<close> \<open>chains_ok d' rs\<close>
  ultimately show ?thesis using astep.atransfer [of "areq r" "abs_disk (d, rs)"] by (simp add: vinv_def)
qed

section \<open>Every run\<close>

inductive_cases vstepE: "vstep dev (d, rs) s"

lemma device_step_ok:
  assumes "device_ok dev" "dev d d'" "vinv (d, rs)"
  shows "vinv (d', rs) \<and> astep\<^sup>*\<^sup>* (abs_disk (d, rs)) (abs_disk (d', rs))"
proof -
  consider "dev_seen d \<noteq> avail_idx d" "d' = fetch d" | h where "h \<in> set (dev_owned d)" "serve h d = None \<or> serve h d = Some d'"
    using assms(1,2) unfolding device_ok_def by blast
  then show ?thesis
  proof cases
    case 1
    then show ?thesis using fetch_ok [OF assms(3)] by simp
  next
    case (2 h)
    then show ?thesis using serve_ok [OF assms(3) 2] by blast
  qed
qed

lemma vstep_ok:
  assumes dev: "device_ok dev" and st: "vstep dev (d, rs) (d', rs')" and v: "vinv (d, rs)"
  shows "vinv (d', rs') \<and> astep\<^sup>*\<^sup>* (abs_disk (d, rs)) (abs_disk (d', rs'))"
  using st
proof (rule vstepE)
  fix x assume "(d', rs') = (x, rs)" "alloc3_desc d = Ret None x"
  then show ?thesis using try_ok [OF v, of x] by simp
next
  fix b blockno w idx x assume "(d', rs') = (x, (b, sector_of blockno, w, idx) # rs)" "b \<notin> req_buf ` set rs" "rw_begin b blockno w d = Ret idx x"
  then show ?thesis using begin_ok [OF v, of b blockno w idx x] by blast
next
  fix r x xs ys assume "(d', rs') = (x, xs @ ys)" "rs = xs @ r # ys" "rw_end (req_buf r) (req_idx r) d = Ret () x"
  then show ?thesis using end_ok [of d xs r ys x] v by blast
next
  fix go x assume "(d', rs') = (x, rs)" "intr_one d = Ret go x"
  then show ?thesis using intr_ok [OF v, of go x] by simp
next
  fix x assume "(d', rs') = (x, rs)" "dev d x"
  then show ?thesis using device_step_ok [OF dev _ v, of x] by simp
qed

lemma vinit_inv: "vinit d \<Longrightarrow> vinv (d, [])"
  by (simp add: vinit_def vinv_def chains_ok_def rings_ok_def queue_def usedq_def since_def NUM_def)

lemma vruns_ok:
  assumes "device_ok dev" "vinit d0" "(vstep dev)\<^sup>*\<^sup>* (d0, []) s"
  shows "vinv s \<and> astep\<^sup>*\<^sup>* (abs_disk (d0, [])) (abs_disk s)"
  using assms(3)
proof (induction rule: rtranclp_induct)
  case base
  then show ?case using vinit_inv [OF assms(2)] by simp
next
  case (step s t)
  then show ?case using vstep_ok [OF assms(1), of "fst s" "snd s" "fst t" "snd t"] by auto
qed

text \<open>In a state that satisfies the invariant the handler returns, and so do the calls that can go on.\<close>

lemma intr_loop_ret: "vinv (d, rs) \<Longrightarrow> length (usedq d) < k \<Longrightarrow> \<exists>d'. intr_loop k d = Ret () d'"
proof (induction k arbitrary: d)
  case (Suc k)
  have c: "chains_ok d rs" "rings_ok d rs" using Suc.prems(1) by (simp_all add: vinv_def)
  show ?case
  proof (rule intr_cases [OF c])
    assume "intr_one d = Ret False d"
    then show ?thesis by (simp add: kbind_def)
  next
    fix r e assume u: "usedq d = head r # usedq e" and one: "intr_one d = Ret True e"
    have "vinv (e, rs)" using intr_ok [OF Suc.prems(1) one] by simp
    then show ?thesis using Suc.IH [of e] Suc.prems(2) u one by (simp add: kbind_def)
  qed
qed simp

lemma intr_ret:
  assumes "vinv (d, rs)"
  shows "\<exists>d'. virtio_disk_intr d = Ret () d'"
proof -
  have "length (queue d @ dev_owned d @ usedq d) \<le> 2" using assms rings_few [of d rs] by (simp add: vinv_def)
  then have "length (usedq d) < NUM" by (simp add: NUM_def)
  then show ?thesis unfolding virtio_disk_intr_def by (rule intr_loop_ret [OF assms])
qed

lemma begin_ret:
  assumes "chains_ok d rs" "length rs < 2"
  shows "\<exists>idx d'. rw_begin b blockno w d = Ret idx d'"
proof (rule alloc3_desc_cases [of d])
  assume few: "card {i. i < NUM \<and> desc_free d i} < 3"
  let ?I = "set (concat (map idxs rs))"
  have "{i. i < NUM \<and> desc_free d i} = {..<NUM} - ?I" using assms(1) by (auto simp: chains_ok_def)
  moreover have "NUM - card ?I \<le> card ({..<NUM} - ?I)" using diff_card_le_card_Diff [of ?I "{..<NUM}"] by simp
  moreover have "card ?I \<le> 3" using card_length [of "concat (map idxs rs)"] assms(2) unfolding idxs_length by linarith
  ultimately show ?thesis using few by (simp add: NUM_def)
qed (simp add: rw_begin_def)

lemma end_ret:
  assumes v: "vinv (d, rs)" and r: "r \<in> set rs"
  shows "rw_end (req_buf r) (req_idx r) d = Sleep ''buf'' \<or> areq r \<in> a_done (abs_disk (d, rs)) \<and> (\<exists>d'. rw_end (req_buf r) (req_idx r) d = Ret () d')"
proof (cases "buf_disk d (req_buf r)")
  case True
  then show ?thesis by (simp add: rw_end_def)
next
  case False
  have c: "chains_ok d rs" "rings_ok d rs" using v by (simp_all add: vinv_def)
  obtain b sec w i0 i1 i2 where rr: "r = (b, sec, w, i0, i1, i2)" by (cases r)
  let ?e = "d\<lparr>info_b := (info_b d)(i0 := None)\<rparr>"
  obtain xs ys where rs: "rs = xs @ r # ys" using r by (meson split_list)
  have "formatted ?e (b, sec, w, i0, i1, i2)" "distinct [i0, i1, i2]" "{i0, i1, i2} \<subseteq> {i. i < NUM \<and> \<not> desc_free ?e i}"
    using c(1) by (auto simp: chains_ok_def formatted_def rr rs)
  from free_chain_request [OF this] have "\<exists>d'. rw_end (req_buf r) (req_idx r) d = Ret () d'" using False by (auto simp: rw_end_def rr)
  moreover have "head r \<notin> set (queue d @ dev_owned d)"
  proof
    assume "head r \<in> set (queue d @ dev_owned d)"
    then obtain r' where "r' \<in> set rs" "head r' = head r" "buf_disk d (req_buf r')" using rings_head [OF c(2), of "head r"] by (metis UnI1 set_append)
    with head_inj [OF c(1), of r' r] r False show False by auto
  qed
  then have "areq r \<in> a_done (abs_disk (d, rs))" unfolding abs_disk_def prod.case adisk.simps by (intro imageI) (simp add: r)
  ultimately show ?thesis by blast
qed

end
