(* ===== verification/Spec2Isabelle.thy ===== *)
theory Spec2Isabelle
  imports Console Fileio Spinlock Procinv Pagetable Shell Virtio
begin

text \<open>
  A verification development for a RISC-V teaching kernel in C whose disk is a simulated RAID 1 mirror, with
  its file system, processes, drivers and shell.

  \<^bold>\<open>The program.\<close> User programs (\<^verbatim>\<open>user/\<close>) enter the kernel by system calls. The file system calls of
  \<^verbatim>\<open>kernel/sysfile.c\<close> use open files (\<^verbatim>\<open>file.c\<close>, \<^verbatim>\<open>pipe.c\<close>), which use inodes, directories and the block allocator
  (\<^verbatim>\<open>fs.c\<close>). Every change of a block goes through a transaction of the log (\<^verbatim>\<open>log.c\<close>) and the buffer cache (\<^verbatim>\<open>bio.c\<close>), which
  keeps two copies of every block on one virtio disk (\<^verbatim>\<open>virtio_disk.c\<close>) and can simulate the failure of a disk or
  block. Beside it are the page allocator and page tables (\<^verbatim>\<open>kalloc.c\<close>, \<^verbatim>\<open>vm.c\<close>), processes and locks (\<^verbatim>\<open>proc.c\<close>,
  \<^verbatim>\<open>spinlock.c\<close>, \<^verbatim>\<open>sleeplock.c\<close>) and the console (\<^verbatim>\<open>console.c\<close>, \<^verbatim>\<open>uart.c\<close>).

  \<^bold>\<open>How the code is written here.\<close> A kernel function is a function from a state to an outcome (theory \<open>Prelude\<close>): it
  returns a value and a new state, panics with the message of the code, goes to sleep, or loops. Statements are composed
  by \<open>kbind\<close> and \<open>kthen\<close>. The state is a record that each layer extends: \<open>bstate\<close> (buffers, both copies of the disk),
  \<open>lstate\<close> (the log), \<open>fstate\<close> (superblock, inode cache), \<open>ostate\<close> (open files, pipes, memory), \<open>pstate\<close>
  (process table). Arrays are functions on the index; 32-bit counters that can wrap are words. Copies between
  kernel and user memory that the file layer makes are arguments that say which of them fail; \<open>Vm\<close> has the copies
  themselves.

  \<^bold>\<open>Theories and sources.\<close>
  \<^item> \<open>Prelude\<close>: outcomes, composition, total-correctness rules, little-endian fields. \<open>Ring\<close>: the interface
    \<open>bounded_fifo\<close> and arrays with free-running counters. \<open>Strings\<close>: \<^verbatim>\<open>kernel/string.c\<close>, \<^verbatim>\<open>user/ulib.c\<close>.
  \<^item> \<open>Sleeplock\<close>, \<open>Spinlock\<close>: the locks; \<open>Spinlock\<close> shows mutual exclusion and the nesting of interrupt disabling for
    all interleavings of the CPUs.
  \<^item> \<open>Block_Cache\<close>: the interface \<open>block_cache\<close> of a buffer cache and sessions on it. \<open>Bcache\<close>: \<^verbatim>\<open>bio.c\<close>, its
    LRU list, the effect of \<^verbatim>\<open>bread\<close>, \<^verbatim>\<open>bwrite\<close> and \<^verbatim>\<open>brelse\<close> under every failure setting, and that it implements the interface.
  \<^item> \<open>Log\<close>: \<^verbatim>\<open>log.c\<close>, with crash atomicity for every prefix of the disk writes, durability, admission of transactions.
    \<open>Txn\<close>: the calculus of block updates inside a transaction that the file system proofs use.
  \<^item> \<open>Fs\<close>: all operations of \<^verbatim>\<open>fs.c\<close>. \<open>Alloc\<close>, \<open>Inode\<close>, \<open>Content\<close>, \<open>Fileio\<close>: the bitmap allocator, the inode cache and on-disk inodes
    (interface \<open>record_array\<close>), the block map of a file, and that \<^verbatim>\<open>readi\<close> returns what \<^verbatim>\<open>writei\<close> stored.
  \<^item> \<open>File\<close>, \<open>Pipe\<close>, \<open>Sysfile\<close>: \<^verbatim>\<open>file.c\<close>, \<^verbatim>\<open>pipe.c\<close> and the system calls of \<^verbatim>\<open>sysfile.c\<close>.
  \<^item> \<open>Console\<close>: \<^verbatim>\<open>uart.c\<close> and \<^verbatim>\<open>console.c\<close>: line editing, the order of characters, the transmit buffer.
  \<^item> \<open>Kalloc\<close> (interface \<open>page_allocator\<close>), \<open>Vm\<close>, \<open>Pagetable\<close>: \<^verbatim>\<open>kalloc.c\<close> and \<^verbatim>\<open>vm.c\<close>; page tables as maps, mapping and
    copies to and from user memory.
  \<^item> \<open>Proc\<close>, \<open>Procinv\<close>: \<^verbatim>\<open>proc.c\<close>; the well-formed process table in every run, and that the scheduler runs every ready
    process (interface \<open>cpu_turns\<close>).
  \<^item> \<open>Virtio\<close>: \<^verbatim>\<open>virtio_disk.c\<close>; descriptors, rings, requests and interrupts with any device that keeps to the
    virtio specification.
  \<^item> \<open>Shell\<close>: \<^verbatim>\<open>user/sh.c\<close>; the parser ends and recovers every command from its text, and the shell starts exactly
    the programs of the command trees it is given, with their descriptors.

  \<^bold>\<open>Bounds.\<close> Loops over arrays run to the declared size. Loops over lists and chains take fuel: the buffer list \<open>NBUF\<close>
  steps, descriptor chains \<open>NUM\<close>, the parser four units for every byte; theorems about returning show that these
  are enough. Path resolution through symbolic links takes fuel as an argument, because the code may follow a cycle.

  \<^bold>\<open>Not modelled.\<close> The assembly files and \<^verbatim>\<open>start.c\<close>, \<^verbatim>\<open>main.c\<close>, \<^verbatim>\<open>plic.c\<close>, which set up machine registers; \<^verbatim>\<open>trap.c\<close>, whose subject
  is the privileged state; \<^verbatim>\<open>exec.c\<close>, \<^verbatim>\<open>syscall.c\<close> and \<^verbatim>\<open>sysproc.c\<close>; \<^verbatim>\<open>ramdisk.c\<close>, which is not built; the two \<^verbatim>\<open>printf.c\<close>;
  the host program \<^verbatim>\<open>mkfs.c\<close> but for its bitmap; and the user programs other than the shell, which are sequences of
  system calls or tests. Memory fences, the TLB and timing have no counterpart: steps of the model are sequentially
  consistent.
\<close>

end
